(* ===== verification/CE_Prelude.thy ===== *)
theory CE_Prelude
  imports Main "HOL-Library.Word" "HOL-Library.Code_Target_Numeral"
begin

text \<open>
  The vocabulary shared by every component of the content-extension model: the machine types,
  the ways a C++ function can stop instead of returning, little-endian byte images of integers
  (what \<^verbatim>\<open>reinterpret_cast\<close> stores into a byte vector), the ASCII case functions of
  \<^verbatim>\<open>wtf/ASCIICType.h\<close>, and hash sets, represented by the list of their elements in
  insertion order.
\<close>

unbundle bit_operations_syntax

section \<open>Machine types and outcomes\<close>

type_synonym byte = "8 word"
type_synonym u16 = "16 word"
type_synonym u64 = "64 word"

text \<open>
  A \<^verbatim>\<open>RELEASE_ASSERT\<close> that fails terminates the process; a read outside a buffer is
  undefined behaviour. Both are values of the model, so a theorem that a routine returns
  excludes them.
\<close>

datatype crash = ReleaseAssert | OutOfBounds

type_synonym 'a result = "crash + 'a"

definition rbind :: "'a result \<Rightarrow> ('a \<Rightarrow> 'b result) \<Rightarrow> 'b result" where
  "rbind m f = (case m of Inl e \<Rightarrow> Inl e | Inr x \<Rightarrow> f x)"

lemma rbind_simps [simp]:
  "rbind (Inl e) f = Inl e"
  "rbind (Inr x) f = f x"
  by (simp_all add: rbind_def)

lemma rbind_eq_Inr: "rbind m f = Inr y \<longleftrightarrow> (\<exists>x. m = Inr x \<and> f x = Inr y)"
  by (cases m) auto

definition release_assert :: "bool \<Rightarrow> 'a result \<Rightarrow> 'a result" where
  "release_assert b m = (if b then m else Inl ReleaseAssert)"

lemma release_assert_True [simp]: "b \<Longrightarrow> release_assert b m = m"
  by (simp add: release_assert_def)

text \<open>The conversions of C++ integers used by the sources: \<^verbatim>\<open>uint32_t\<close> and
  \<^verbatim>\<open>int32_t\<close> images of a mathematical integer.\<close>

definition to_u32 :: "int \<Rightarrow> nat" where
  "to_u32 x = nat (x mod 2 ^ 32)"

definition to_s32 :: "int \<Rightarrow> int" where
  "to_s32 x = (let u = x mod 2 ^ 32 in if u \<ge> 2 ^ 31 then u - 2 ^ 32 else u)"

lemma to_u32_id: "0 \<le> x \<Longrightarrow> x < 2 ^ 32 \<Longrightarrow> to_u32 x = nat x"
  by (simp add: to_u32_def)

lemma to_s32_id: "- (2 ^ 31) \<le> x \<Longrightarrow> x < 2 ^ 31 \<Longrightarrow> to_s32 x = x"
proof -
  assume a: "- (2 ^ 31) \<le> x" "x < 2 ^ 31"
  show ?thesis
  proof (cases "0 \<le> x")
    case True
    with a show ?thesis by (simp add: to_s32_def)
  next
    case False
    then have "(x + 2 ^ 32) mod 2 ^ 32 = x + 2 ^ 32"
      using a by (intro mod_pos_pos_trivial) auto
    then have "x mod 2 ^ 32 = x + 2 ^ 32" by simp
    with a False show ?thesis by (simp add: to_s32_def)
  qed
qed

section \<open>Little-endian byte images\<close>

primrec le_bytes :: "nat \<Rightarrow> int \<Rightarrow> byte list" where
  "le_bytes 0 v = []"
| "le_bytes (Suc n) v = word_of_int v # le_bytes n (v div 256)"

primrec le_uint :: "byte list \<Rightarrow> int" where
  "le_uint [] = 0"
| "le_uint (b # bs) = uint b + 256 * le_uint bs"

definition le_sint :: "byte list \<Rightarrow> int" where
  "le_sint bs = (let u = le_uint bs; m = 256 ^ length bs in if 2 * u \<ge> m then u - m else u)"

lemma length_le_bytes [simp]: "length (le_bytes n v) = n"
  by (induction n arbitrary: v) auto

lemma uint_byte_of_int [simp]: "uint (word_of_int v :: byte) = v mod 256"
  by (simp add: uint_word_of_int)

lemma le_uint_le_bytes: "le_uint (le_bytes n v) = v mod 256 ^ n"
proof (induction n arbitrary: v)
  case 0
  then show ?case by simp
next
  case (Suc n)
  have "v mod (256 * 256 ^ n) = 256 * (v div 256 mod 256 ^ n) + v mod 256"
    by (rule zmod_zmult2_eq) simp
  with Suc show ?case by simp
qed

lemma le_uint_le_bytes_id: "0 \<le> v \<Longrightarrow> v < 256 ^ n \<Longrightarrow> le_uint (le_bytes n v) = v"
  by (simp add: le_uint_le_bytes)

lemma le_sint_le_bytes:
  assumes "- (256 ^ n) \<le> 2 * v" and "2 * v < 256 ^ n"
  shows "le_sint (le_bytes n v) = v"
proof (cases "0 \<le> v")
  case True
  with assms show ?thesis by (simp add: le_sint_def le_uint_le_bytes Let_def)
next
  case False
  have "(v + 256 ^ n) mod 256 ^ n = v + 256 ^ n"
    using assms False by (intro mod_pos_pos_trivial) auto
  then have "v mod 256 ^ n = v + 256 ^ n" by simp
  with assms False show ?thesis by (simp add: le_sint_def le_uint_le_bytes Let_def)
qed

lemma le_uint_bounds: "0 \<le> le_uint bs \<and> le_uint bs < 256 ^ length bs"
proof (induction bs)
  case Nil
  then show ?case by simp
next
  case (Cons b bs)
  have "uint b < 256" and "0 \<le> uint b" using uint_bounded [of b] by auto
  with Cons show ?case by auto
qed

section \<open>Words, lists and options\<close>

lemma word_bits_eq_iff: "a = b \<longleftrightarrow> (\<forall>n < LENGTH('a). bit a n = bit b n)" for a b :: "'a::len word"
  by (auto intro: bit_word_eqI)

lemma to_u32_of_nat [simp]: "n < 2 ^ 32 \<Longrightarrow> to_u32 (int n) = n"
  by (simp add: to_u32_def)

text \<open>Sums of \<^verbatim>\<open>uint32_t\<close> values.\<close>

definition u32 :: "nat \<Rightarrow> nat" where
  "u32 n = n mod 2 ^ 32"

lemma u32_id: "n < 2 ^ 32 \<Longrightarrow> u32 n = n"
  by (simp add: u32_def)

lemma sum_list_le_const: "(\<And>x. f x \<le> k) \<Longrightarrow> sum_list (map f xs) \<le> k * length xs" for k :: nat
  by (induction xs) (simp_all add: add_le_mono)

text \<open>A loop that stores one value at a sequence of positions.\<close>

lemma length_fold_list_update [simp]: "length (fold (\<lambda>i xs. xs[f i := v]) is xs) = length xs"
  by (induction "is" arbitrary: xs) auto

lemma nth_fold_list_update:
  "c < length xs \<Longrightarrow> fold (\<lambda>i xs. xs[f i := v]) is xs ! c = (if c \<in> f ` set is then v else xs ! c)"
  by (induction "is" arbitrary: xs) (auto simp: nth_list_update)

text \<open>The first answer in a list of partial functions.\<close>

fun first_some :: "('a \<Rightarrow> 'b option) \<Rightarrow> 'a list \<Rightarrow> 'b option" where
  "first_some f [] = None"
| "first_some f (x # xs) = (case f x of None \<Rightarrow> first_some f xs | Some y \<Rightarrow> Some y)"

lemma first_some_None: "first_some f xs = None \<longleftrightarrow> (\<forall>x \<in> set xs. f x = None)"
  by (induction xs) (auto split: option.splits)

lemma first_some_SomeD: "first_some f xs = Some y \<Longrightarrow> \<exists>x \<in> set xs. f x = Some y"
  by (induction xs) (auto split: option.splits)

lemma first_some_append:
  "first_some f (xs @ ys) = (case first_some f xs of None \<Rightarrow> first_some f ys | Some y \<Rightarrow> Some y)"
  by (induction xs) (auto split: option.splits)

section \<open>ASCII case\<close>

text \<open>The characters of a string literal.\<close>

definition ascii :: "string \<Rightarrow> nat list" where
  "ascii s = map of_char s"

definition isASCIIUpper :: "nat \<Rightarrow> bool" where
  "isASCIIUpper c \<longleftrightarrow> 65 \<le> c \<and> c \<le> 90"

definition isASCIILower :: "nat \<Rightarrow> bool" where
  "isASCIILower c \<longleftrightarrow> 97 \<le> c \<and> c \<le> 122"

definition isASCIIAlpha :: "nat \<Rightarrow> bool" where
  "isASCIIAlpha c \<longleftrightarrow> isASCIILower (c OR 32)"

definition toASCIILower :: "nat \<Rightarrow> nat" where
  "toASCIILower c = c OR push_bit 5 (of_bool (isASCIIUpper c))"

definition toASCIIUpper :: "nat \<Rightarrow> nat" where
  "toASCIIUpper c = nat (int c AND NOT (push_bit 5 (of_bool (isASCIILower c))))"

definition isASCIIDigit :: "nat \<Rightarrow> bool" where
  "isASCIIDigit c \<longleftrightarrow> 48 \<le> c \<and> c \<le> 57"

definition isASCIIAlphanumeric :: "nat \<Rightarrow> bool" where
  "isASCIIAlphanumeric c \<longleftrightarrow> isASCIIDigit c \<or> isASCIIAlpha c"

definition isASCIISpace :: "nat \<Rightarrow> bool" where
  "isASCIISpace c \<longleftrightarrow> c \<le> 32 \<and> (c = 32 \<or> (c \<le> 13 \<and> 9 \<le> c))"

definition isASCIIHexDigit :: "nat \<Rightarrow> bool" where
  "isASCIIHexDigit c \<longleftrightarrow> isASCIIDigit c \<or> 97 \<le> c OR 32 \<and> c OR 32 \<le> 102"

definition isASCIIOctalDigit :: "nat \<Rightarrow> bool" where
  "isASCIIOctalDigit c \<longleftrightarrow> 48 \<le> c \<and> c \<le> 55"

definition toASCIIHexValue :: "nat \<Rightarrow> nat" where
  "toASCIIHexValue c = (if c < 65 then c - 48 else (c - 65 + 10) AND 15)"

lemma toASCIILower_eq: "toASCIILower c = (if isASCIIUpper c then c + 32 else c)"
proof -
  have "list_all (\<lambda>c. c OR 32 = c + 32) [65 ..< (91 :: nat)]" by code_simp
  then have "c OR 32 = c + 32" if "c \<in> {65 ..< 91}" unfolding list_all_iff set_upt using that by blast
  then show ?thesis by (auto simp: toASCIILower_def isASCIIUpper_def push_bit_eq_mult)
qed

lemma toASCIIUpper_eq: "toASCIIUpper c = (if isASCIILower c then c - 32 else c)"
proof -
  have "list_all (\<lambda>c. nat (int c AND NOT 32) = c - 32) [97 ..< (123 :: nat)]" by code_simp
  then have "nat (int c AND NOT 32) = c - 32" if "c \<in> {97 ..< 123}" unfolding list_all_iff set_upt using that by blast
  then show ?thesis by (auto simp: toASCIIUpper_def isASCIILower_def push_bit_eq_mult)
qed

lemma toASCIILower_less_128: "c < 128 \<Longrightarrow> toASCIILower c < 128"
  by (simp add: toASCIILower_eq isASCIIUpper_def)

section \<open>Hash sets\<close>

text \<open>
  \<^verbatim>\<open>WTF::HashSet\<close> without removals: the list of the distinct elements in the order in
  which they were added. Code that iterates over a hash set sees its elements in the order of
  the hash table, which is a function of this list; it is a parameter of the definitions that
  iterate, constrained only to enumerate the same elements.
\<close>

definition hs_add :: "'a \<Rightarrow> 'a list \<Rightarrow> 'a list" where
  "hs_add x s = (if x \<in> set s then s else s @ [x])"

definition hs_add_all :: "'a list \<Rightarrow> 'a list \<Rightarrow> 'a list" where
  "hs_add_all xs s = fold hs_add xs s"

lemma set_hs_add [simp]: "set (hs_add x s) = insert x (set s)"
  by (auto simp: hs_add_def)

lemma distinct_hs_add [simp]: "distinct s \<Longrightarrow> distinct (hs_add x s)"
  by (simp add: hs_add_def)

lemma set_hs_add_all [simp]: "set (hs_add_all xs s) = set s \<union> set xs"
  unfolding hs_add_all_def by (induction xs arbitrary: s) auto

lemma distinct_hs_add_all [simp]: "distinct s \<Longrightarrow> distinct (hs_add_all xs s)"
  unfolding hs_add_all_def by (induction xs arbitrary: s) auto

type_synonym 'a iteration_order = "'a list \<Rightarrow> 'a list"

definition enumerates :: "'a iteration_order \<Rightarrow> bool" where
  "enumerates ord \<longleftrightarrow> (\<forall>s. distinct s \<longrightarrow> distinct (ord s) \<and> set (ord s) = set s)"

lemma enumerates_id: "enumerates id"
  by (simp add: enumerates_def)

lemma enumerates_set: "enumerates ord \<Longrightarrow> distinct s \<Longrightarrow> set (ord s) = set s"
  by (simp add: enumerates_def)

lemma enumerates_distinct: "enumerates ord \<Longrightarrow> distinct s \<Longrightarrow> distinct (ord s)"
  by (simp add: enumerates_def)

end
