(* ===== verification/Dfa.thy ===== *)
theory Dfa
  imports CE_Prelude
begin

text \<open>
  The compact DFA of \<^verbatim>\<open>DFA.h\<close>, \<^verbatim>\<open>DFA.cpp\<close>, \<^verbatim>\<open>DFANode.h\<close> and
  \<^verbatim>\<open>DFANode.cpp\<close>: nodes that point into shared tables of actions and transitions, the
  node operations (\<open>actions\<close>, \<open>containsTransition\<close>, \<open>kill\<close>, \<open>canUseFallbackTransition\<close>,
  \<open>bestFallbackTarget\<close>), what a DFA means (\<open>dfa_step\<close>, \<open>dfa_visit\<close>), and the
  well-formedness every producer establishes and every consumer relies on.
\<close>

section \<open>Data\<close>

record CharRange =
  rangeFirst :: int
  rangeLast :: int

definition CharRange_size :: "CharRange \<Rightarrow> nat" where
  "CharRange_size r = to_u32 (rangeLast r - rangeFirst r + 1)"

record DFANode =
  m_actionsStart :: nat
  m_transitionsStart :: nat
  m_actionsLength :: nat
  m_transitionsLength :: nat
  m_flags :: nat

definition DFANode_default :: DFANode where
  "DFANode_default = \<lparr>m_actionsStart = 0, m_transitionsStart = 0, m_actionsLength = 0,
     m_transitionsLength = 0, m_flags = 0\<rparr>"

record DFA =
  dfa_nodes :: "DFANode list"
  dfa_actions :: "u64 list"
  transitionRanges :: "CharRange list"
  transitionDestinations :: "nat list"
  dfa_root :: nat

definition DFA_default :: DFA where
  "DFA_default = \<lparr>dfa_nodes = [], dfa_actions = [], transitionRanges = [],
     transitionDestinations = [], dfa_root = 0\<rparr>"

definition DFA_empty :: DFA where
  "DFA_empty = DFA_default\<lparr>dfa_nodes := [DFANode_default]\<rparr>"

definition IsKilled :: nat where
  "IsKilled = 1"

definition isKilled :: "DFANode \<Rightarrow> bool" where
  "isKilled n \<longleftrightarrow> m_flags n AND IsKilled \<noteq> 0"

definition hasActions :: "DFANode \<Rightarrow> bool" where
  "hasActions n \<longleftrightarrow> m_actionsLength n \<noteq> 0"

definition setActions :: "nat \<Rightarrow> nat \<Rightarrow> DFANode \<Rightarrow> DFANode" where
  "setActions start len n = n\<lparr>m_actionsStart := start, m_actionsLength := len mod 2 ^ 16\<rparr>"

definition setTransitions :: "nat \<Rightarrow> nat \<Rightarrow> DFANode \<Rightarrow> DFANode" where
  "setTransitions start len n =
     n\<lparr>m_transitionsStart := start, m_transitionsLength := len mod 2 ^ 8\<rparr>"

definition graphSize :: "DFA \<Rightarrow> nat" where
  "graphSize d = length (filter (\<lambda>n. \<not> isKilled n) (dfa_nodes d))"

text \<open>The iteration \<^verbatim>\<open>for (const auto& transition : node.transitions(dfa))\<close>: the ranges and
  targets at the node's positions of the two parallel tables.\<close>

type_synonym transition = "CharRange \<times> nat"

definition node_transitions :: "DFA \<Rightarrow> DFANode \<Rightarrow> transition list" where
  "node_transitions d n =
     map (\<lambda>i. (transitionRanges d ! i, transitionDestinations d ! i))
       [m_transitionsStart n ..< m_transitionsStart n + m_transitionsLength n]"

definition node_actions :: "DFA \<Rightarrow> DFANode \<Rightarrow> u64 list" where
  "node_actions d n =
     map (\<lambda>i. dfa_actions d ! i) [m_actionsStart n ..< m_actionsStart n + m_actionsLength n]"

definition containsTransition :: "int \<Rightarrow> DFA \<Rightarrow> DFANode \<Rightarrow> bool" where
  "containsTransition c d n \<longleftrightarrow>
     list_ex (\<lambda>i. rangeFirst (transitionRanges d ! i) \<le> c \<and> rangeLast (transitionRanges d ! i) \<ge> c)
       [m_transitionsStart n ..< m_transitionsStart n + m_transitionsLength n]"

section \<open>Node operations\<close>

text \<open>\<open>DFANode::kill\<close>: the flag is set, the table cells the node owned are overwritten with
  invalid values, the node's offsets and lengths are cleared. The node at index \<open>k\<close> is updated in
  place.\<close>

definition kill :: "nat \<Rightarrow> DFA \<Rightarrow> DFA" where
  "kill k d =
     (let n = dfa_nodes d ! k;
          ts = [m_transitionsStart n ..< m_transitionsStart n + m_transitionsLength n];
          as = [m_actionsStart n ..< m_actionsStart n + m_actionsLength n]
      in d\<lparr>transitionRanges :=
             fold (\<lambda>i rs. rs[i := \<lparr>rangeFirst = -1, rangeLast = -1\<rparr>]) ts (transitionRanges d),
           transitionDestinations :=
             fold (\<lambda>i ds. ds[i := 2 ^ 32 - 1]) ts (transitionDestinations d),
           dfa_actions := fold (\<lambda>i xs. xs[i := - 1]) as (dfa_actions d),
           dfa_nodes := (dfa_nodes d)[k := \<lparr>m_actionsStart = 0, m_transitionsStart = 0,
             m_actionsLength = 0, m_transitionsLength = 0, m_flags = IsKilled\<rparr>]\<rparr>)"

text \<open>\<open>DFANode::canUseFallbackTransition\<close>: \<open>fallbackScan\<close> is the \<^verbatim>\<open>for\<close> loop, with
  \<open>lastSeenCharacter\<close> as its argument.\<close>

fun fallbackScan :: "int \<Rightarrow> transition list \<Rightarrow> bool" where
  "fallbackScan lastSeenCharacter [] = False"
| "fallbackScan lastSeenCharacter ((r, t) # ts) =
     (if rangeFirst r \<noteq> lastSeenCharacter + 1 then False
      else if rangeLast r = 127 then True
      else fallbackScan (rangeLast r) ts)"

definition canUseFallbackTransition :: "DFA \<Rightarrow> DFANode \<Rightarrow> bool" where
  "canUseFallbackTransition d n =
     (case node_transitions d n of
        [] \<Rightarrow> False
      | (r, t) # ts \<Rightarrow>
          if rangeFirst r = 0
          then (if rangeLast r = 127 then True else fallbackScan (rangeLast r) ts)
          else fallbackScan 0 ((r, t) # ts))"

text \<open>\<open>DFANode::bestFallbackTarget\<close>: \<open>bestTargetLoop\<close> is the second loop, over the state
  (histogram, bestTarget, bestTargetScore). Both \<^verbatim>\<open>ASSERT_WITH_MESSAGE(iterator != end)\<close> exclude the
  empty list, on which the model answers 0.\<close>

fun bestTargetLoop :: "(nat \<rightharpoonup> nat) \<Rightarrow> nat \<Rightarrow> nat \<Rightarrow> transition list \<Rightarrow> nat" where
  "bestTargetLoop histogram bestTarget bestTargetScore [] = bestTarget"
| "bestTargetLoop histogram bestTarget bestTargetScore ((r, target) # ts) =
     (let rangeSize = CharRange_size r;
          score = (case histogram target of None \<Rightarrow> rangeSize | Some v \<Rightarrow> v + rangeSize);
          histogram' = histogram(target \<mapsto> score)
      in if score > bestTargetScore
         then bestTargetLoop histogram' target score ts
         else bestTargetLoop histogram' bestTarget bestTargetScore ts)"

definition bestFallbackTarget :: "DFA \<Rightarrow> DFANode \<Rightarrow> nat" where
  "bestFallbackTarget d n =
     (let ts = node_transitions d n;
          ts' = (case ts of
                   [] \<Rightarrow> []
                 | (r, t) # rest \<Rightarrow> if rangeFirst r = 0 \<and> rangeLast r = 0 then rest else ts)
      in case ts' of
           [] \<Rightarrow> 0
         | (r, bestTarget) # rest \<Rightarrow>
             let bestTargetScore =
                   (if rangeFirst r = 0 then CharRange_size r - 1 else CharRange_size r)
             in bestTargetLoop [bestTarget \<mapsto> bestTargetScore] bestTarget bestTargetScore rest)"

section \<open>What a DFA means\<close>

definition in_range :: "CharRange \<Rightarrow> nat \<Rightarrow> bool" where
  "in_range r c \<longleftrightarrow> rangeFirst r \<le> int c \<and> int c \<le> rangeLast r"

fun step_in :: "transition list \<Rightarrow> nat \<Rightarrow> nat option" where
  "step_in [] c = None"
| "step_in ((r, t) # ts) c = (if in_range r c then Some t else step_in ts c)"

definition dfa_step :: "DFA \<Rightarrow> nat \<Rightarrow> nat \<Rightarrow> nat option" where
  "dfa_step d q c = step_in (node_transitions d (dfa_nodes d ! q)) c"

definition dfa_acts :: "DFA \<Rightarrow> nat \<Rightarrow> u64 set" where
  "dfa_acts d q = set (node_actions d (dfa_nodes d ! q))"

text \<open>The actions of the states entered while reading a word, the start state excluded.\<close>

primrec dfa_visit :: "DFA \<Rightarrow> nat \<Rightarrow> nat list \<Rightarrow> u64 set" where
  "dfa_visit d q [] = {}"
| "dfa_visit d q (c # w) =
     (case dfa_step d q c of None \<Rightarrow> {} | Some q' \<Rightarrow> dfa_acts d q' \<union> dfa_visit d q' w)"

section \<open>Well-formedness\<close>

text \<open>The transitions of one node: ASCII ranges, in increasing order, that do not overlap.\<close>

fun sorted_from :: "int \<Rightarrow> transition list \<Rightarrow> bool" where
  "sorted_from lo [] = True"
| "sorted_from lo ((r, t) # ts) =
     (lo \<le> rangeFirst r \<and> rangeFirst r \<le> rangeLast r \<and> rangeLast r \<le> 127 \<and>
      sorted_from (rangeLast r + 1) ts)"

definition wf_node :: "DFA \<Rightarrow> DFANode \<Rightarrow> bool" where
  "wf_node d n \<longleftrightarrow>
     (m_flags n = 0 \<or> m_flags n = IsKilled) \<and>
     m_transitionsStart n + m_transitionsLength n \<le> length (transitionRanges d) \<and>
     m_actionsStart n + m_actionsLength n \<le> length (dfa_actions d) \<and>
     sorted_from 0 (node_transitions d n) \<and>
     (\<forall>(r, t) \<in> set (node_transitions d n).
        t < length (dfa_nodes d) \<and> \<not> isKilled (dfa_nodes d ! t))"

definition wf_dfa :: "DFA \<Rightarrow> bool" where
  "wf_dfa d \<longleftrightarrow>
     length (transitionRanges d) = length (transitionDestinations d) \<and>
     dfa_root d < length (dfa_nodes d) \<and> \<not> isKilled (dfa_nodes d ! dfa_root d) \<and>
     length (dfa_nodes d) < 2 ^ 32 - 1 \<and>
     (\<forall>n \<in> set (dfa_nodes d). \<not> isKilled n \<longrightarrow> wf_node d n)"

text \<open>The nodes that have not been killed.\<close>

definition live :: "DFA \<Rightarrow> nat \<Rightarrow> bool" where
  "live d i \<longleftrightarrow> i < length (dfa_nodes d) \<and> \<not> isKilled (dfa_nodes d ! i)"

section \<open>Facts\<close>

lemma sorted_from_mono: "sorted_from lo ts \<Longrightarrow> lo' \<le> lo \<Longrightarrow> sorted_from lo' ts"
  by (cases ts) auto

lemma step_in_ge: "sorted_from lo ts \<Longrightarrow> step_in ts c = Some t \<Longrightarrow> lo \<le> int c"
  by (induction ts arbitrary: lo) (force simp: in_range_def split: if_splits)+

lemma step_in_None_below: "sorted_from lo ts \<Longrightarrow> int c < lo \<Longrightarrow> step_in ts c = None"
  using step_in_ge by (cases "step_in ts c") force+

lemma step_in_SomeD: "step_in ts c = Some t \<Longrightarrow> \<exists>r. (r, t) \<in> set ts \<and> in_range r c"
  by (induction ts) (auto split: if_splits)

text \<open>In sorted transitions the range that contains a character is unique.\<close>

lemma step_in_eq_Some_iff:
  assumes "sorted_from lo ts"
  shows "step_in ts c = Some t \<longleftrightarrow> (\<exists>r. (r, t) \<in> set ts \<and> in_range r c)"
  using assms
proof (induction ts arbitrary: lo)
  case Nil
  then show ?case by simp
next
  case (Cons a ts)
  obtain r u where a: "a = (r, u)" by force
  have IH: "step_in ts c = Some t \<longleftrightarrow> (\<exists>r. (r, t) \<in> set ts \<and> in_range r c)"
    using Cons a by auto
  show ?case
  proof (cases "in_range r c")
    case True
    then have "step_in ts c = None"
      using Cons.prems a by (intro step_in_None_below [of "rangeLast r + 1"]) (auto simp: in_range_def)
    then have "\<not> (\<exists>r. (r, t) \<in> set ts \<and> in_range r c)"
      using IH by auto
    with True a show ?thesis by auto
  next
    case False
    with a IH show ?thesis by auto
  qed
qed

lemma step_in_None_iff: "step_in ts c = None \<longleftrightarrow> (\<forall>(r, t) \<in> set ts. \<not> in_range r c)"
  by (induction ts c rule: step_in.induct) simp_all

lemma step_in_less_128:
  assumes "sorted_from lo ts" and "step_in ts c = Some t"
  shows "c < 128"
  using assms by (induction ts arbitrary: lo) (auto simp: in_range_def split: if_splits)

lemma dfa_step_less_128:
  assumes "wf_dfa d" and "q < length (dfa_nodes d)" and "\<not> isKilled (dfa_nodes d ! q)"
    and "dfa_step d q c = Some t"
  shows "c < 128"
proof -
  have "wf_node d (dfa_nodes d ! q)"
    using assms by (auto simp: wf_dfa_def)
  then have "sorted_from 0 (node_transitions d (dfa_nodes d ! q))"
    by (simp add: wf_node_def)
  with assms(4) show ?thesis
    unfolding dfa_step_def by (rule step_in_less_128 [rotated])
qed

lemma dfa_step_target:
  assumes "wf_dfa d" and "q < length (dfa_nodes d)" and "\<not> isKilled (dfa_nodes d ! q)"
    and "dfa_step d q c = Some t"
  shows "t < length (dfa_nodes d) \<and> \<not> isKilled (dfa_nodes d ! t)"
proof -
  have "wf_node d (dfa_nodes d ! q)"
    using assms by (auto simp: wf_dfa_def)
  then show ?thesis
    using assms(4) step_in_SomeD unfolding dfa_step_def wf_node_def by fastforce
qed

lemma containsTransition_iff:
  "containsTransition (int c) d n \<longleftrightarrow> step_in (node_transitions d n) c \<noteq> None"
  unfolding containsTransition_def step_in_None_iff node_transitions_def
  by (auto simp: list_ex_iff in_range_def)

subsection \<open>Fallback transitions\<close>

text \<open>\<open>fallbackScan\<close> succeeds exactly when the transitions leave no gap up to 127.\<close>

lemma fallbackScan_iff:
  assumes "sorted_from (lo + 1) ts" and "- 1 \<le> lo" and "lo < 127"
  shows "fallbackScan lo ts \<longleftrightarrow> (\<forall>c. lo < int c \<and> c < 128 \<longrightarrow> step_in ts c \<noteq> None)"
  using assms
proof (induction lo ts rule: fallbackScan.induct)
  case (1 lo)
  then have "\<exists>c. lo < int c \<and> c < 128" by (intro exI [of _ 127]) simp
  then show ?case by simp
next
  case (2 lo r t ts)
  note srt = "2.prems"(1)
  have below: "step_in ts c = None" if "int c \<le> rangeLast r" for c
    using srt that by (intro step_in_None_below [of "rangeLast r + 1"]) auto
  consider (gap) "rangeFirst r \<noteq> lo + 1" | (full) "rangeFirst r = lo + 1" "rangeLast r = 127"
    | (more) "rangeFirst r = lo + 1" "rangeLast r \<noteq> 127"
    by blast
  then show ?case
  proof cases
    case gap
    then have "rangeFirst r > lo + 1" using srt by auto
    then have "step_in ((r, t) # ts) (nat (lo + 1)) = None"
      using srt "2.prems"(2) below [of "nat (lo + 1)"] by (auto simp: in_range_def)
    moreover have "lo < int (nat (lo + 1)) \<and> nat (lo + 1) < 128"
      using "2.prems" by auto
    ultimately have "\<not> (\<forall>c. lo < int c \<and> c < 128 \<longrightarrow> step_in ((r, t) # ts) c \<noteq> None)"
      by blast
    then show ?thesis using gap by simp
  next
    case full
    then show ?thesis by (auto simp: in_range_def)
  next
    case more
    have IH: "fallbackScan (rangeLast r) ts \<longleftrightarrow>
        (\<forall>c. rangeLast r < int c \<and> c < 128 \<longrightarrow> step_in ts c \<noteq> None)"
      using "2.IH" more srt "2.prems"(2) by auto
    have "(\<forall>c. rangeLast r < int c \<and> c < 128 \<longrightarrow> step_in ts c \<noteq> None) \<longleftrightarrow>
        (\<forall>c. lo < int c \<and> c < 128 \<longrightarrow> step_in ((r, t) # ts) c \<noteq> None)"
      using more srt by (auto simp: in_range_def)
    with IH more show ?thesis by simp
  qed
qed

lemma canUseFallbackTransition_iff:
  assumes "sorted_from 0 (node_transitions d n)"
  shows "canUseFallbackTransition d n \<longleftrightarrow>
    (\<forall>c. 0 < c \<and> c < 128 \<longrightarrow> step_in (node_transitions d n) c \<noteq> None)"
proof (cases "node_transitions d n")
  case Nil
  then show ?thesis by (auto simp: canUseFallbackTransition_def intro!: exI [of _ 1])
next
  case (Cons a ts)
  obtain r t where a: "a = (r, t)" by force
  have srt: "sorted_from 0 ((r, t) # ts)" using assms Cons a by simp
  show ?thesis
  proof (cases "rangeFirst r = 0")
    case False
    then have "sorted_from (0 + 1) ((r, t) # ts)" using srt by auto
    then show ?thesis
      using False Cons a fallbackScan_iff [of 0 "(r, t) # ts"]
      by (simp add: canUseFallbackTransition_def)
  next
    case True
    show ?thesis
    proof (cases "rangeLast r = 127")
      case True
      with \<open>rangeFirst r = 0\<close> Cons a show ?thesis
        by (auto simp: canUseFallbackTransition_def in_range_def)
    next
      case last: False
      have "fallbackScan (rangeLast r) ts \<longleftrightarrow>
          (\<forall>c. rangeLast r < int c \<and> c < 128 \<longrightarrow> step_in ts c \<noteq> None)"
        using srt last True by (intro fallbackScan_iff) auto
      moreover have "(\<forall>c. rangeLast r < int c \<and> c < 128 \<longrightarrow> step_in ts c \<noteq> None) \<longleftrightarrow>
          (\<forall>c. 0 < c \<and> c < 128 \<longrightarrow> step_in ((r, t) # ts) c \<noteq> None)"
        using srt True by (auto simp: in_range_def)
      ultimately show ?thesis
        using True last Cons a by (simp add: canUseFallbackTransition_def)
    qed
  qed
qed

subsection \<open>The best fallback target\<close>

text \<open>The number of characters other than the end of the line that a transition list sends to a target.\<close>

definition characters_to :: "transition list \<Rightarrow> nat \<Rightarrow> nat" where
  "characters_to ts t = card {c. 0 < c \<and> c < 128 \<and> step_in ts c = Some t}"

definition range_score :: "CharRange \<Rightarrow> nat" where
  "range_score r = nat (rangeLast r - max 1 (rangeFirst r) + 1)"

definition score :: "transition list \<Rightarrow> nat \<Rightarrow> nat" where
  "score ts t = sum_list (map (\<lambda>(r, u). if u = t then range_score r else 0) ts)"

lemma score_simps [simp]:
  "score [] t = 0"
  "score ((r, u) # ts) t = (if u = t then range_score r else 0) + score ts t"
  "score (ts @ us) t = score ts t + score us t"
  by (simp_all add: score_def)

lemma card_range:
  assumes "0 \<le> rangeFirst r" and "rangeLast r \<le> 127"
  shows "card {c. 0 < c \<and> c < 128 \<and> in_range r c} = range_score r"
proof -
  have "{c. 0 < c \<and> c < 128 \<and> in_range r c} = {nat (max 1 (rangeFirst r)) ..< nat (rangeLast r + 1)}"
    using assms by (auto simp: in_range_def)
  then have "card {c. 0 < c \<and> c < 128 \<and> in_range r c} = nat (rangeLast r + 1) - nat (max 1 (rangeFirst r))"
    by (simp only: card_atLeastLessThan)
  also have "\<dots> = range_score r" using assms by (simp add: range_score_def nat_diff_distrib')
  finally show ?thesis .
qed

lemma score_characters_to: "sorted_from lo ts \<Longrightarrow> 0 \<le> lo \<Longrightarrow> score ts t = characters_to ts t"
proof (induction lo ts rule: sorted_from.induct)
  case (1 lo)
  then show ?case by (simp add: characters_to_def)
next
  case (2 lo r u ts)
  let ?S = "\<lambda>ts. {c. 0 < c \<and> c < 128 \<and> step_in ts c = Some t}"
  let ?R = "{c. 0 < c \<and> c < 128 \<and> in_range r c}"
  have IH: "score ts t = card (?S ts)" and b: "0 \<le> rangeFirst r" "rangeLast r \<le> 127"
    using 2 by (auto simp: characters_to_def)
  have below: "step_in ts c = None" if "in_range r c" for c
    using "2.prems"(1) that by (intro step_in_None_below [of "rangeLast r + 1"]) (auto simp: in_range_def)
  then have disj: "?R \<inter> ?S ts = {}" by auto
  have fin: "finite ?R" "finite (?S ts)" by auto
  have "?S ((r, u) # ts) = (if u = t then ?R \<union> ?S ts else ?S ts)"
    using below by auto
  then show ?case
    using IH card_range [OF b] card_Un_disjoint [OF fin disj] by (simp add: characters_to_def)
qed

lemma CharRange_size_score:
  assumes "1 \<le> rangeFirst r" and "rangeFirst r \<le> rangeLast r" and "rangeLast r \<le> 127"
  shows "CharRange_size r = range_score r"
  using assms by (simp add: CharRange_size_def range_score_def to_u32_def)

text \<open>The loop keeps a histogram of the scores seen so far and the best of them.\<close>

lemma bestTargetLoop_best:
  assumes "\<And>t. h t = (if t \<in> snd ` set done then Some (score done t) else None)"
    and "s = score done b" and "\<And>t. score done t \<le> score done b" and "b \<in> snd ` set done"
    and "\<forall>(r, t) \<in> set ts. 1 \<le> rangeFirst r \<and> rangeFirst r \<le> rangeLast r \<and> rangeLast r \<le> 127"
  shows "score (done @ ts) t \<le> score (done @ ts) (bestTargetLoop h b s ts)"
  using assms
proof (induction ts arbitrary: h b s "done")
  case Nil
  then show ?case by simp
next
  case (Cons a ts)
  obtain r u where a: "a = (r, u)" by force
  have size: "CharRange_size r = range_score r" using Cons.prems(5) a by (auto intro: CharRange_size_score)
  have zero: "score done u = 0" if "u \<notin> snd ` set done"
    using that by (induction "done") (auto simp: score_def)
  let ?done = "done @ [a]" and ?v = "score (done @ [a]) u"
  have v: "(case h u of None \<Rightarrow> CharRange_size r | Some v \<Rightarrow> v + CharRange_size r) = ?v"
    using Cons.prems(1) [of u] zero by (auto simp: size a)
  let ?h = "h(u \<mapsto> ?v)"
  have h: "?h t = (if t \<in> snd ` set ?done then Some (score ?done t) else None)" for t
    using Cons.prems(1) [of t] by (auto simp: a)
  have rest: "\<forall>(r, t) \<in> set ts. 1 \<le> rangeFirst r \<and> rangeFirst r \<le> rangeLast r \<and> rangeLast r \<le> 127"
    using Cons.prems(5) by simp
  have loop: "bestTargetLoop h b s (a # ts) =
      (if ?v > s then bestTargetLoop ?h u ?v ts else bestTargetLoop ?h b s ts)"
    unfolding a bestTargetLoop.simps Let_def v [unfolded a] by (rule refl)
  show ?case
  proof (cases "?v > s")
    case True
    have "score ?done t \<le> score ?done u" for t
      using Cons.prems(2) Cons.prems(3) [of t] True by (auto simp: a)
    then have "score (?done @ ts) t \<le> score (?done @ ts) (bestTargetLoop ?h u ?v ts)"
      by (intro Cons.IH h rest) (auto simp: a)
    then show ?thesis using True loop by simp
  next
    case False
    have ub: "score ?done t \<le> s" for t
      using Cons.prems(2) Cons.prems(3) [of t] False by (auto simp: a)
    have sb: "s = score ?done b"
      using Cons.prems(2) ub [of b] by (simp add: a)
    have "score ?done t \<le> score ?done b" for t using ub [of t] sb by simp
    moreover have "b \<in> snd ` set ?done" using Cons.prems(4) by simp
    ultimately have "score (?done @ ts) t \<le> score (?done @ ts) (bestTargetLoop ?h b s ts)"
      by (intro Cons.IH h rest sb)
    then show ?thesis using False loop by simp
  qed
qed

lemma sorted_from_bounds:
  "sorted_from lo ts \<Longrightarrow> (r, t) \<in> set ts \<Longrightarrow> lo \<le> rangeFirst r \<and> rangeFirst r \<le> rangeLast r \<and> rangeLast r \<le> 127"
  by (induction lo ts rule: sorted_from.induct) force+

lemma bestFallbackTarget_best:
  assumes srt: "sorted_from 0 (node_transitions d n)" and can: "canUseFallbackTransition d n"
  shows "characters_to (node_transitions d n) t \<le> characters_to (node_transitions d n) (bestFallbackTarget d n)"
proof -
  let ?ts = "node_transitions d n"
  define ts' where "ts' = (case ?ts of [] \<Rightarrow> []
    | (r, t) # rest \<Rightarrow> if rangeFirst r = 0 \<and> rangeLast r = 0 then rest else ?ts)"
  have score: "score ?ts t = score ts' t" for t
    by (auto simp: ts'_def range_score_def split: list.split)
  have "ts' \<noteq> []"
    using can by (auto simp: ts'_def canUseFallbackTransition_def split: list.splits if_splits)
  then obtain r u us where ts': "ts' = (r, u) # us" by (cases ts') auto
  have srt': "sorted_from 0 ts'"
    using srt sorted_from_mono by (fastforce simp: ts'_def split: list.split)
  let ?s = "if rangeFirst r = 0 then CharRange_size r - 1 else CharRange_size r"
  have r: "0 \<le> rangeFirst r" "rangeFirst r \<le> rangeLast r" "rangeLast r \<le> 127"
    and us: "sorted_from (rangeLast r + 1) us"
    using srt' ts' by auto
  have s: "?s = range_score r"
    using r by (auto simp: CharRange_size_def range_score_def to_u32_def)
  have best: "bestFallbackTarget d n = bestTargetLoop [u \<mapsto> ?s] u ?s us"
    using ts' unfolding ts'_def by (simp add: bestFallbackTarget_def Let_def)
  have "\<forall>(r, t) \<in> set us. 1 \<le> rangeFirst r \<and> rangeFirst r \<le> rangeLast r \<and> rangeLast r \<le> 127"
    using sorted_from_bounds [OF us] r by fastforce
  then have "score ([(r, u)] @ us) t \<le> score ([(r, u)] @ us) (bestTargetLoop [u \<mapsto> ?s] u ?s us)"
    by (intro bestTargetLoop_best) (auto simp: s)
  then show ?thesis
    using best score ts' score_characters_to [OF srt] by simp
qed

end
