(* ===== verification/Bytecode.thy ===== *)
theory Bytecode
  imports CE_Prelude
begin

text \<open>
  \<^verbatim>\<open>DFABytecode.h\<close>: the instruction set, the encoding of an instruction and of its jump
  size in one byte, and the choice of the smallest jump size that holds a distance.
\<close>

datatype DFABytecodeInstruction =
    CheckValueCaseInsensitive | CheckValueCaseSensitive
  | JumpTableCaseInsensitive | JumpTableCaseSensitive
  | CheckValueRangeCaseInsensitive | CheckValueRangeCaseSensitive
  | AppendAction | AppendActionWithIfCondition
  | TestFlagsAndAppendAction | TestFlagsAndAppendActionWithIfCondition
  | Terminate | Jump

fun instruction_code :: "DFABytecodeInstruction \<Rightarrow> nat" where
  "instruction_code CheckValueCaseInsensitive = 0x0"
| "instruction_code CheckValueCaseSensitive = 0x1"
| "instruction_code JumpTableCaseInsensitive = 0x2"
| "instruction_code JumpTableCaseSensitive = 0x3"
| "instruction_code CheckValueRangeCaseInsensitive = 0x4"
| "instruction_code CheckValueRangeCaseSensitive = 0x5"
| "instruction_code AppendAction = 0x6"
| "instruction_code AppendActionWithIfCondition = 0x7"
| "instruction_code TestFlagsAndAppendAction = 0x8"
| "instruction_code TestFlagsAndAppendActionWithIfCondition = 0x9"
| "instruction_code Terminate = 0xA"
| "instruction_code Jump = 0xB"

definition all_instructions :: "DFABytecodeInstruction list" where
  "all_instructions =
     [CheckValueCaseInsensitive, CheckValueCaseSensitive, JumpTableCaseInsensitive,
      JumpTableCaseSensitive, CheckValueRangeCaseInsensitive, CheckValueRangeCaseSensitive,
      AppendAction, AppendActionWithIfCondition, TestFlagsAndAppendAction,
      TestFlagsAndAppendActionWithIfCondition, Terminate, Jump]"

definition instruction_of :: "nat \<Rightarrow> DFABytecodeInstruction option" where
  "instruction_of v = find (\<lambda>i. instruction_code i = v) all_instructions"

lemma instruction_of_code [simp]: "instruction_of (instruction_code i) = Some i"
  by (cases i) (simp_all add: instruction_of_def all_instructions_def)

definition DFABytecodeInstructionMask :: byte where
  "DFABytecodeInstructionMask = 0x0F"

definition DFABytecodeJumpSizeMask :: byte where
  "DFABytecodeJumpSizeMask = 0xF0"

definition sizeof_DFAHeader :: nat where
  "sizeof_DFAHeader = 4"

datatype DFABytecodeJumpSize = Int8 | Int16 | Int24 | Int32

fun jumpSize_code :: "DFABytecodeJumpSize \<Rightarrow> nat" where
  "jumpSize_code Int8 = 0x10"
| "jumpSize_code Int16 = 0x20"
| "jumpSize_code Int24 = 0x30"
| "jumpSize_code Int32 = 0x40"

definition jumpSize_of :: "nat \<Rightarrow> DFABytecodeJumpSize option" where
  "jumpSize_of v = find (\<lambda>s. jumpSize_code s = v) [Int8, Int16, Int24, Int32]"

lemma jumpSize_of_code [simp]: "jumpSize_of (jumpSize_code s) = Some s"
  by (cases s) (simp_all add: jumpSize_of_def)

definition Int24Max :: int where
  "Int24Max = 2 ^ 23 - 1"

definition Int24Min :: int where
  "Int24Min = - (2 ^ 23)"

definition smallestPossibleJumpSize :: "int \<Rightarrow> DFABytecodeJumpSize" where
  "smallestPossibleJumpSize longestPossibleJump =
     (if longestPossibleJump \<le> 127 \<and> longestPossibleJump \<ge> - 128 then Int8
      else if longestPossibleJump \<le> 32767 \<and> longestPossibleJump \<ge> - 32768 then Int16
      else if longestPossibleJump \<le> Int24Max \<and> longestPossibleJump \<ge> Int24Min then Int24
      else Int32)"

text \<open>\<open>instructionSizeWithArguments\<close>: the instructions with a jump have a variable size, and
  asking for it is a failed \<^verbatim>\<open>RELEASE_ASSERT\<close>.\<close>

fun instructionSizeWithArguments :: "DFABytecodeInstruction \<Rightarrow> nat result" where
  "instructionSizeWithArguments CheckValueCaseSensitive = Inl ReleaseAssert"
| "instructionSizeWithArguments CheckValueCaseInsensitive = Inl ReleaseAssert"
| "instructionSizeWithArguments JumpTableCaseInsensitive = Inl ReleaseAssert"
| "instructionSizeWithArguments JumpTableCaseSensitive = Inl ReleaseAssert"
| "instructionSizeWithArguments CheckValueRangeCaseSensitive = Inl ReleaseAssert"
| "instructionSizeWithArguments CheckValueRangeCaseInsensitive = Inl ReleaseAssert"
| "instructionSizeWithArguments Jump = Inl ReleaseAssert"
| "instructionSizeWithArguments AppendAction = Inr (1 + 4)"
| "instructionSizeWithArguments AppendActionWithIfCondition = Inr (1 + 4)"
| "instructionSizeWithArguments TestFlagsAndAppendAction = Inr (1 + 2 + 4)"
| "instructionSizeWithArguments TestFlagsAndAppendActionWithIfCondition = Inr (1 + 2 + 4)"
| "instructionSizeWithArguments Terminate = Inr 1"

section \<open>One byte holds an instruction and a jump size\<close>

definition opcode :: "DFABytecodeInstruction \<Rightarrow> DFABytecodeJumpSize \<Rightarrow> byte" where
  "opcode i s = word_of_nat (instruction_code i) OR word_of_nat (jumpSize_code s)"

definition plain_opcode :: "DFABytecodeInstruction \<Rightarrow> byte" where
  "plain_opcode i = word_of_nat (instruction_code i)"

lemma opcode_instruction:
  "instruction_of (unat (opcode i s AND DFABytecodeInstructionMask)) = Some i"
proof -
  have "unat (opcode i s AND DFABytecodeInstructionMask) = instruction_code i"
    by (cases i; cases s) (simp_all add: opcode_def DFABytecodeInstructionMask_def)
  then show ?thesis by simp
qed

lemma opcode_jumpSize:
  "jumpSize_of (unat (opcode i s AND DFABytecodeJumpSizeMask)) = Some s"
proof -
  have "unat (opcode i s AND DFABytecodeJumpSizeMask) = jumpSize_code s"
    by (cases i; cases s) (simp_all add: opcode_def DFABytecodeJumpSizeMask_def)
  then show ?thesis by simp
qed

lemma plain_opcode_instruction:
  "instruction_of (unat (plain_opcode i AND DFABytecodeInstructionMask)) = Some i"
proof -
  have "unat (plain_opcode i AND DFABytecodeInstructionMask) = instruction_code i"
    by (cases i) (simp_all add: plain_opcode_def DFABytecodeInstructionMask_def)
  then show ?thesis by simp
qed

section \<open>Jump sizes\<close>

fun jump_width :: "DFABytecodeJumpSize \<Rightarrow> nat" where
  "jump_width Int8 = 1"
| "jump_width Int16 = 2"
| "jump_width Int24 = 3"
| "jump_width Int32 = 4"

definition fits :: "DFABytecodeJumpSize \<Rightarrow> int \<Rightarrow> bool" where
  "fits s d \<longleftrightarrow> - (256 ^ jump_width s) \<le> 2 * d \<and> 2 * d < 256 ^ jump_width s"

lemma fits_simps:
  "fits Int8 d \<longleftrightarrow> - 128 \<le> d \<and> d \<le> 127"
  "fits Int16 d \<longleftrightarrow> - 32768 \<le> d \<and> d \<le> 32767"
  "fits Int24 d \<longleftrightarrow> Int24Min \<le> d \<and> d \<le> Int24Max"
  "fits Int32 d \<longleftrightarrow> - (2 ^ 31) \<le> d \<and> d < 2 ^ 31"
  by (auto simp: fits_def Int24Min_def Int24Max_def)

lemma smallest_fits:
  assumes "- (2 ^ 31) \<le> d" and "d < 2 ^ 31"
  shows "fits (smallestPossibleJumpSize d) d"
  using assms by (auto simp: smallestPossibleJumpSize_def fits_simps)

text \<open>A distance of the same sign that is no longer than a distance that fits, fits.\<close>

lemma fits_shorter: "fits s d \<Longrightarrow> 0 \<le> e \<Longrightarrow> e \<le> d \<Longrightarrow> fits s e"
  by (auto simp: fits_def)

lemma jump_width_mono: "fits s d \<Longrightarrow> jump_width s \<le> jump_width s' \<Longrightarrow> fits s' d"
  by (cases s; cases s') (auto simp: fits_simps Int24Min_def Int24Max_def)

lemma jump_width_bounds: "1 \<le> jump_width s \<and> jump_width s \<le> 4"
  by (cases s) auto

end
