(* ===== verification/Resource_Info.thy ===== *)
theory Resource_Info
  imports CE_Prelude
begin

text \<open>
  \<^verbatim>\<open>loader/ResourceLoadInfo.h\<close> and \<^verbatim>\<open>.cpp\<close>: the resource and load types as bits of a
  16-bit flag word, the readers of their names, and the layout of a 64-bit action: 32 bits of
  action location, 16 bits of flags, one bit for a positive condition.
\<close>

datatype ResourceType = RT_Invalid | RT_Document | RT_Image | RT_StyleSheet | RT_Script | RT_Font
  | RT_Raw | RT_SVGDocument | RT_Media | RT_PlugInStream | RT_Popup

fun ResourceType_bits :: "ResourceType \<Rightarrow> u16" where
  "ResourceType_bits RT_Invalid = 0x0000"
| "ResourceType_bits RT_Document = 0x0001"
| "ResourceType_bits RT_Image = 0x0002"
| "ResourceType_bits RT_StyleSheet = 0x0004"
| "ResourceType_bits RT_Script = 0x0008"
| "ResourceType_bits RT_Font = 0x0010"
| "ResourceType_bits RT_Raw = 0x0020"
| "ResourceType_bits RT_SVGDocument = 0x0040"
| "ResourceType_bits RT_Media = 0x0080"
| "ResourceType_bits RT_PlugInStream = 0x0100"
| "ResourceType_bits RT_Popup = 0x0200"

definition ResourceTypeMask :: u16 where
  "ResourceTypeMask = 0x03FF"

datatype LoadType = LT_Invalid | LT_FirstParty | LT_ThirdParty

fun LoadType_bits :: "LoadType \<Rightarrow> u16" where
  "LoadType_bits LT_Invalid = 0x0000"
| "LoadType_bits LT_FirstParty = 0x0400"
| "LoadType_bits LT_ThirdParty = 0x0800"

definition LoadTypeMask :: u16 where
  "LoadTypeMask = 0x0C00"

definition ActionFlagMask :: u64 where
  "ActionFlagMask = 0x0000FFFF00000000"

definition IfConditionFlag :: u64 where
  "IfConditionFlag = 0x0001000000000000"

definition readResourceType :: "nat list \<Rightarrow> u16" where
  "readResourceType name =
     (if name = ascii ''document'' then ResourceType_bits RT_Document
      else if name = ascii ''image'' then ResourceType_bits RT_Image
      else if name = ascii ''style-sheet'' then ResourceType_bits RT_StyleSheet
      else if name = ascii ''script'' then ResourceType_bits RT_Script
      else if name = ascii ''font'' then ResourceType_bits RT_Font
      else if name = ascii ''raw'' then ResourceType_bits RT_Raw
      else if name = ascii ''svg-document'' then ResourceType_bits RT_SVGDocument
      else if name = ascii ''media'' then ResourceType_bits RT_Media
      else if name = ascii ''popup'' then ResourceType_bits RT_Popup
      else ResourceType_bits RT_Invalid)"

definition readLoadType :: "nat list \<Rightarrow> u16" where
  "readLoadType name =
     (if name = ascii ''first-party'' then LoadType_bits LT_FirstParty
      else if name = ascii ''third-party'' then LoadType_bits LT_ThirdParty
      else LoadType_bits LT_Invalid)"

text \<open>\<open>ResourceLoadInfo::getResourceFlags\<close>; the answer of \<open>isThirdParty\<close>, which compares two
  security origins, is an argument.\<close>

definition getResourceFlags :: "ResourceType \<Rightarrow> bool \<Rightarrow> u16" where
  "getResourceFlags type isThirdParty =
     (0 OR ResourceType_bits type)
       OR (if isThirdParty then LoadType_bits LT_ThirdParty else LoadType_bits LT_FirstParty)"

section \<open>The layout of an action\<close>

definition action_location :: "u64 \<Rightarrow> nat" where
  "action_location a = unat a mod 2 ^ 32"

definition action_flags :: "u64 \<Rightarrow> u16" where
  "action_flags a = ucast (drop_bit 32 a)"

definition make_action :: "nat \<Rightarrow> u16 \<Rightarrow> bool \<Rightarrow> u64" where
  "make_action loc fl ifCondition =
     (push_bit 32 (ucast fl) OR word_of_nat (loc mod 2 ^ 32))
       OR (if ifCondition then IfConditionFlag else 0)"

text \<open>The actions a rule list can produce: nothing above the condition bit.\<close>

definition action_ok :: "u64 \<Rightarrow> bool" where
  "action_ok a \<longleftrightarrow> drop_bit 49 a = 0"

end
