(* ===== verification/Bytecode_Compiler.thy ===== *)
theory Bytecode_Compiler
  imports Dfa Bytecode Resource_Info
begin

text \<open>
  \<^verbatim>\<open>DFABytecodeCompiler.h\<close> and \<^verbatim>\<open>DFABytecodeCompiler.cpp\<close>: the transitions of a DFA
  node as ranges, jump tables and a fallback; the emission of its code with jumps that are
  filled in later; the linking of every jump once all node offsets are known.
\<close>

section \<open>The transitions of a node\<close>

record Range =
  range_min :: nat
  range_max :: nat
  range_destination :: nat
  range_caseSensitive :: bool

record JumpTable =
  jt_min :: nat
  jt_max :: nat
  jt_caseSensitive :: bool
  jt_destinations :: "nat list"

record Transitions =
  jumpTables :: "JumpTable list"
  ranges :: "Range list"
  useFallbackTransition :: bool
  fallbackTransitionTarget :: nat

definition noDestination :: nat where
  "noDestination = 2 ^ 32 - 1"

definition extractJumpTable :: "Range list \<Rightarrow> nat \<Rightarrow> nat \<Rightarrow> JumpTable \<times> Range list" where
  "extractJumpTable rs firstRange lastRange =
     (\<lparr>jt_min = range_min (rs ! firstRange), jt_max = range_max (rs ! lastRange),
       jt_caseSensitive = range_caseSensitive (rs ! lastRange),
       jt_destinations = map (\<lambda>i. range_destination (rs ! i)) [firstRange ..< lastRange + 1]\<rparr>,
      take firstRange rs @ drop (lastRange + 1) rs)"

text \<open>The loop that fills \<open>destinations\<close> from the transitions of the node, leaving out those that
  the fallback covers.\<close>

definition fillRange :: "nat \<Rightarrow> nat \<Rightarrow> nat \<Rightarrow> nat list \<Rightarrow> nat list" where
  "fillRange lo hi target dest = fold (\<lambda>i ds. ds[i := target]) [lo ..< hi + 1] dest"

fun fillDestinations :: "bool \<Rightarrow> nat \<Rightarrow> transition list \<Rightarrow> nat list \<Rightarrow> nat list" where
  "fillDestinations useFallback fallback [] dest = dest"
| "fillDestinations useFallback fallback ((r, targetNodeIndex) # ts) dest =
     (if useFallback \<and> fallback = targetNodeIndex
      then fillDestinations useFallback fallback ts dest
      else fillDestinations useFallback fallback ts
             (fillRange (nat (rangeFirst r)) (nat (rangeLast r)) targetNodeIndex dest))"

text \<open>One iteration of the loop over the 128 characters. The pair \<open>hasRangeMin\<close>, \<open>rangeMin\<close> is an
  option.\<close>

record range_state =
  rs_destinations :: "nat list"
  rs_ranges :: "Range list"
  rs_rangeMin :: "nat option"

definition caseInsensitiveRange :: "nat list \<Rightarrow> nat \<Rightarrow> nat \<Rightarrow> bool" where
  "caseInsensitiveRange dest rangeMin rangeMax \<longleftrightarrow>
     rangeMin \<ge> 65 \<and> rangeMax \<le> 90 \<and>
     list_all (\<lambda>rangeIndex. dest ! rangeMin = dest ! toASCIILower rangeIndex)
       [rangeMin ..< rangeMax + 1]"

definition clearLowerCase :: "nat \<Rightarrow> nat \<Rightarrow> nat list \<Rightarrow> nat list" where
  "clearLowerCase rangeMin rangeMax dest =
     fold (\<lambda>rangeIndex ds. ds[toASCIILower rangeIndex := noDestination])
       [rangeMin ..< rangeMax + 1] dest"

definition rangeStep :: "nat \<Rightarrow> range_state \<Rightarrow> range_state" where
  "rangeStep i st =
     (let dest = rs_destinations st in
      case rs_rangeMin st of
        Some rangeMin \<Rightarrow>
          if dest ! i \<noteq> dest ! rangeMin
          then
            (let rangeMax = i - 1;
                 insensitive = caseInsensitiveRange dest rangeMin rangeMax;
                 dest' = (if insensitive then clearLowerCase rangeMin rangeMax dest else dest);
                 rng =
                   (if insensitive
                    then \<lparr>range_min = toASCIILower rangeMin, range_max = toASCIILower rangeMax,
                          range_destination = dest' ! rangeMin, range_caseSensitive = False\<rparr>
                    else \<lparr>range_min = rangeMin, range_max = rangeMax,
                          range_destination = dest' ! rangeMin, range_caseSensitive = True\<rparr>)
             in \<lparr>rs_destinations = dest', rs_ranges = rs_ranges st @ [rng],
                 rs_rangeMin = (if dest' ! i = noDestination then None else Some i)\<rparr>)
          else st
      | None \<Rightarrow>
          if dest ! i \<noteq> noDestination then st\<lparr>rs_rangeMin := Some i\<rparr> else st)"

definition collectRanges :: "nat list \<Rightarrow> Range list" where
  "collectRanges dest =
     (let st = fold rangeStep [0 ..< 128] \<lparr>rs_destinations = dest, rs_ranges = [], rs_rangeMin = None\<rparr>
      in case rs_rangeMin st of
           None \<Rightarrow> rs_ranges st
         | Some rangeMin \<Rightarrow>
             rs_ranges st @ [\<lparr>range_min = rangeMin, range_max = 127,
               range_destination = rs_destinations st ! rangeMin, range_caseSensitive = True\<rparr>])"

text \<open>The loop that moves runs of single-character ranges into jump tables. The pair
  \<open>baseRange\<close>, \<open>baseRangePosition\<close> is an option.\<close>

function jumpTableLoop ::
  "Range list \<Rightarrow> JumpTable list \<Rightarrow> nat \<Rightarrow> nat option \<Rightarrow> Range list \<times> JumpTable list \<times> nat option"
where
  "jumpTableLoop rs tables rangePosition base =
     (if rangePosition < length rs
      then
        (let rng = rs ! rangePosition in
         case base of
           Some baseRangePosition \<Rightarrow>
             if range_min rng \<noteq> range_max rng
                \<or> range_caseSensitive (rs ! baseRangePosition) \<noteq> range_caseSensitive rng
                \<or> range_max (rs ! (rangePosition - 1)) + 1 \<noteq> range_min rng
             then
               (if rangePosition - baseRangePosition > 1
                then (let (table, rs') = extractJumpTable rs baseRangePosition (rangePosition - 1)
                      in jumpTableLoop rs' (tables @ [table]) (baseRangePosition + 1) None)
                else jumpTableLoop rs tables (rangePosition + 1) None)
             else jumpTableLoop rs tables (rangePosition + 1) base
         | None \<Rightarrow>
             if range_min rng = range_max rng
             then jumpTableLoop rs tables (rangePosition + 1) (Some rangePosition)
             else jumpTableLoop rs tables (rangePosition + 1) None)
      else (rs, tables, base))"
  by pat_completeness auto
termination
  by (relation "measure (\<lambda>(rs, tables, rangePosition, base). length rs - rangePosition)")
    (auto simp: extractJumpTable_def)

declare jumpTableLoop.simps [simp del]

definition extractJumpTables :: "Range list \<Rightarrow> Range list \<times> JumpTable list" where
  "extractJumpTables rs0 =
     (let (rs, tables, base) = jumpTableLoop rs0 [] 0 None in
      case base of
        Some baseRangePosition \<Rightarrow>
          if length rs - baseRangePosition > 1
          then (let (table, rs') = extractJumpTable rs baseRangePosition (length rs - 1)
                in (rs', tables @ [table]))
          else (rs, tables)
      | None \<Rightarrow> (rs, tables))"

definition transitions :: "DFA \<Rightarrow> DFANode \<Rightarrow> Transitions" where
  "transitions d node =
     (let useFallback = canUseFallbackTransition d node;
          fallback = (if useFallback then bestFallbackTarget d node else 2 ^ 32 - 1);
          dest = fillDestinations useFallback fallback (node_transitions d node)
                   (replicate 128 noDestination);
          (rs, tables) = extractJumpTables (collectRanges dest)
      in \<lparr>jumpTables = tables, ranges = rs, useFallbackTransition = useFallback,
          fallbackTransitionTarget = fallback\<rparr>)"

section \<open>Emitting code\<close>

record LinkRecord =
  lr_jumpSize :: DFABytecodeJumpSize
  lr_longestPossibleJump :: int
  lr_instructionLocation :: nat
  lr_jumpLocation :: nat
  lr_destinationNodeIndex :: nat

record DFABytecodeCompiler =
  m_bytecode :: "byte list"
  m_maxNodeStartOffsets :: "nat list"
  m_nodeStartOffsets :: "nat list"
  m_linkRecords :: "LinkRecord list"

definition append_bytes :: "byte list \<Rightarrow> DFABytecodeCompiler \<Rightarrow> DFABytecodeCompiler" where
  "append_bytes bs c = c\<lparr>m_bytecode := m_bytecode c @ bs\<rparr>"

definition append_int :: "nat \<Rightarrow> int \<Rightarrow> DFABytecodeCompiler \<Rightarrow> DFABytecodeCompiler" where
  "append_int n value = append_bytes (le_bytes n value)"

fun appendZeroes :: "DFABytecodeJumpSize \<Rightarrow> DFABytecodeCompiler \<Rightarrow> DFABytecodeCompiler" where
  "appendZeroes Int8 c = append_int 1 0 c"
| "appendZeroes Int16 c = append_int 2 0 c"
| "appendZeroes Int24 c = append_int 1 0 (append_int 2 0 c)"
| "appendZeroes Int32 c = append_int 4 0 c"

definition appendActionBytecodeSize :: "u64 \<Rightarrow> nat" where
  "appendActionBytecodeSize action =
     (if action AND ActionFlagMask \<noteq> 0 then 1 + 2 + 4 else 1 + 4)"

definition emitAppendAction :: "u64 \<Rightarrow> DFABytecodeCompiler \<Rightarrow> DFABytecodeCompiler" where
  "emitAppendAction action c =
     (if action AND ActionFlagMask \<noteq> 0
      then
        (let c1 = append_bytes [plain_opcode
               (if action AND IfConditionFlag \<noteq> 0 then TestFlagsAndAppendActionWithIfCondition
                else TestFlagsAndAppendAction)] c;
             c2 = append_int 2 (uint (drop_bit 32 action)) c1
         in append_int 4 (uint action) c2)
      else
        (let c1 = append_bytes [plain_opcode
               (if action AND IfConditionFlag \<noteq> 0 then AppendActionWithIfCondition
                else AppendAction)] c
         in append_int 4 (uint action) c1))"

definition longestPossibleJump :: "DFABytecodeCompiler \<Rightarrow> nat \<Rightarrow> nat \<Rightarrow> nat \<Rightarrow> int" where
  "longestPossibleJump c instructionLocation sourceNodeIndex destinationNodeIndex =
     (if m_nodeStartOffsets c ! destinationNodeIndex = 2 ^ 32 - 1
      then to_s32 (int (m_maxNodeStartOffsets c ! destinationNodeIndex)
                   - int (m_maxNodeStartOffsets c ! sourceNodeIndex)
                   - (int (m_nodeStartOffsets c ! sourceNodeIndex) - int instructionLocation))
      else to_s32 (int (m_nodeStartOffsets c ! destinationNodeIndex) - int instructionLocation))"

definition add_linkRecord ::
  "DFABytecodeJumpSize \<Rightarrow> int \<Rightarrow> nat \<Rightarrow> nat \<Rightarrow> nat \<Rightarrow> DFABytecodeCompiler \<Rightarrow> DFABytecodeCompiler" where
  "add_linkRecord s longest instructionLocation jumpLocation destination c =
     c\<lparr>m_linkRecords := m_linkRecords c @
         [\<lparr>lr_jumpSize = s, lr_longestPossibleJump = longest,
           lr_instructionLocation = instructionLocation, lr_jumpLocation = jumpLocation,
           lr_destinationNodeIndex = destination\<rparr>]\<rparr>"

definition emitJump :: "nat \<Rightarrow> nat \<Rightarrow> DFABytecodeCompiler \<Rightarrow> DFABytecodeCompiler" where
  "emitJump sourceNodeIndex destinationNodeIndex c =
     (let instructionLocation = length (m_bytecode c);
          jumpLocation = instructionLocation + 1;
          longest = longestPossibleJump c instructionLocation sourceNodeIndex destinationNodeIndex;
          jumpSize = smallestPossibleJumpSize longest;
          c1 = append_bytes [opcode Jump jumpSize] c;
          c2 = add_linkRecord jumpSize longest instructionLocation jumpLocation destinationNodeIndex c1
      in appendZeroes jumpSize c2)"

definition emitCheckValue ::
  "nat \<Rightarrow> nat \<Rightarrow> nat \<Rightarrow> bool \<Rightarrow> DFABytecodeCompiler \<Rightarrow> DFABytecodeCompiler" where
  "emitCheckValue value sourceNodeIndex destinationNodeIndex caseSensitive c =
     (let instructionLocation = length (m_bytecode c);
          jumpLocation = instructionLocation + 2 * 1;
          longest = longestPossibleJump c instructionLocation sourceNodeIndex destinationNodeIndex;
          jumpSize = smallestPossibleJumpSize longest;
          instruction = (if caseSensitive then CheckValueCaseSensitive else CheckValueCaseInsensitive);
          c1 = append_bytes [opcode instruction jumpSize] c;
          c2 = append_int 1 (int value) c1;
          c3 = add_linkRecord jumpSize longest instructionLocation jumpLocation destinationNodeIndex c2
      in appendZeroes jumpSize c3)"

definition emitCheckValueRange ::
  "nat \<Rightarrow> nat \<Rightarrow> nat \<Rightarrow> nat \<Rightarrow> bool \<Rightarrow> DFABytecodeCompiler \<Rightarrow> DFABytecodeCompiler" where
  "emitCheckValueRange lowValue highValue sourceNodeIndex destinationNodeIndex caseSensitive c =
     (let instructionLocation = length (m_bytecode c);
          jumpLocation = instructionLocation + 3 * 1;
          longest = longestPossibleJump c instructionLocation sourceNodeIndex destinationNodeIndex;
          jumpSize = smallestPossibleJumpSize longest;
          instruction = (if caseSensitive then CheckValueRangeCaseSensitive
                         else CheckValueRangeCaseInsensitive);
          c1 = append_bytes [opcode instruction jumpSize] c;
          c2 = append_int 1 (int lowValue) c1;
          c3 = append_int 1 (int highValue) c2;
          c4 = add_linkRecord jumpSize longest instructionLocation jumpLocation destinationNodeIndex c3
      in appendZeroes jumpSize c4)"

definition emitTerminate :: "DFABytecodeCompiler \<Rightarrow> DFABytecodeCompiler" where
  "emitTerminate c = append_bytes [plain_opcode Terminate] c"

text \<open>\<open>compileJumpTable\<close>: \<open>std::max\<close> on the jump sizes is by their enumeration value.\<close>

definition max_jumpSize :: "DFABytecodeJumpSize \<Rightarrow> DFABytecodeJumpSize \<Rightarrow> DFABytecodeJumpSize" where
  "max_jumpSize a b = (if jumpSize_code a < jumpSize_code b then b else a)"

definition compileJumpTable ::
  "nat \<Rightarrow> JumpTable \<Rightarrow> DFABytecodeCompiler \<Rightarrow> DFABytecodeCompiler" where
  "compileJumpTable nodeIndex jumpTable c =
     (let instructionLocation = length (m_bytecode c);
          jumpSize =
            fold (\<lambda>destination s. max_jumpSize s
                    (smallestPossibleJumpSize
                      (longestPossibleJump c instructionLocation nodeIndex destination)))
              (jt_destinations jumpTable) Int8;
          instruction = (if jt_caseSensitive jumpTable then JumpTableCaseSensitive
                         else JumpTableCaseInsensitive);
          c1 = append_bytes [opcode instruction jumpSize] c;
          c2 = append_int 1 (int (jt_min jumpTable)) c1;
          c3 = append_int 1 (int (jt_max jumpTable)) c2
      in fold (\<lambda>destination c'.
                 let longest = longestPossibleJump c' instructionLocation nodeIndex destination;
                     jumpLocation = length (m_bytecode c')
                 in appendZeroes jumpSize
                      (add_linkRecord jumpSize longest instructionLocation jumpLocation destination c'))
           (jt_destinations jumpTable) c3)"

definition compileCheckForRange ::
  "nat \<Rightarrow> Range \<Rightarrow> DFABytecodeCompiler \<Rightarrow> DFABytecodeCompiler" where
  "compileCheckForRange nodeIndex rng c =
     (if range_min rng = range_max rng
      then emitCheckValue (range_min rng) nodeIndex (range_destination rng)
             (range_caseSensitive rng) c
      else emitCheckValueRange (range_min rng) (range_max rng) nodeIndex
             (range_destination rng) (range_caseSensitive rng) c)"

definition checkForJumpTableMaxBytecodeSize :: "JumpTable \<Rightarrow> nat" where
  "checkForJumpTableMaxBytecodeSize jumpTable =
     (let baselineSize = 1 + 2 * 1;
          targetsSize = (jt_max jumpTable - jt_min jumpTable + 1) * 4
      in baselineSize + targetsSize)"

definition checkForRangeMaxBytecodeSize :: "Range \<Rightarrow> nat" where
  "checkForRangeMaxBytecodeSize rng =
     (if range_min rng = range_max rng then 1 + 1 + 4 else 1 + 2 * 1 + 4)"

definition nodeTransitionsMaxBytecodeSize :: "DFA \<Rightarrow> DFANode \<Rightarrow> nat" where
  "nodeTransitionsMaxBytecodeSize d node =
     (let t = transitions d node;
          size1 = fold (\<lambda>jumpTable size. size + checkForJumpTableMaxBytecodeSize jumpTable)
                    (jumpTables t) 0;
          size2 = fold (\<lambda>rng size. size + checkForRangeMaxBytecodeSize rng) (ranges t) size1
      in if useFallbackTransition t then size2 + (1 + 4) else size2 + 1)"

definition compileNodeTransitions ::
  "DFA \<Rightarrow> nat \<Rightarrow> DFABytecodeCompiler \<Rightarrow> DFABytecodeCompiler" where
  "compileNodeTransitions d nodeIndex c =
     (let t = transitions d (dfa_nodes d ! nodeIndex);
          c1 = fold (compileJumpTable nodeIndex) (jumpTables t) c;
          c2 = fold (compileCheckForRange nodeIndex) (ranges t) c1
      in if useFallbackTransition t then emitJump nodeIndex (fallbackTransitionTarget t) c2
         else emitTerminate c2)"

definition compiledNodeMaxBytecodeSize :: "DFA \<Rightarrow> nat \<Rightarrow> nat" where
  "compiledNodeMaxBytecodeSize d index =
     (let node = dfa_nodes d ! index in
      if isKilled node then 0
      else fold (\<lambda>action size. size + appendActionBytecodeSize action) (node_actions d node) 0
           + nodeTransitionsMaxBytecodeSize d node)"

definition set_nodeStartOffset :: "nat \<Rightarrow> DFABytecodeCompiler \<Rightarrow> DFABytecodeCompiler" where
  "set_nodeStartOffset index c =
     c\<lparr>m_nodeStartOffsets := (m_nodeStartOffsets c)[index := length (m_bytecode c)]\<rparr>"

definition compileNode ::
  "DFA \<Rightarrow> nat \<Rightarrow> bool \<Rightarrow> DFABytecodeCompiler \<Rightarrow> DFABytecodeCompiler" where
  "compileNode d index root c =
     (let node = dfa_nodes d ! index in
      if isKilled node then c
      else
        (let c1 = (if \<not> root then set_nodeStartOffset index c else c);
             c2 = fold emitAppendAction (node_actions d node) c1;
             c3 = (if root then set_nodeStartOffset index c2 else c2)
         in compileNodeTransitions d index c3))"

section \<open>Linking\<close>

definition setBits :: "nat \<Rightarrow> nat \<Rightarrow> int \<Rightarrow> byte list \<Rightarrow> byte list result" where
  "setBits n index value bytecode =
     release_assert (index + n \<le> length bytecode)
       (Inr (take index bytecode @ le_bytes n value @ drop (index + n) bytecode))"

definition linkRecord :: "nat list \<Rightarrow> LinkRecord \<Rightarrow> byte list \<Rightarrow> byte list result" where
  "linkRecord nodeStartOffsets lr bytecode =
     (let destination = nodeStartOffsets ! lr_destinationNodeIndex lr in
      release_assert (destination < 2 ^ 31 - 1)
        (let distance = to_s32 (int destination - int (lr_instructionLocation lr)) in
         case lr_jumpSize lr of
           Int8 \<Rightarrow> release_assert (- 128 \<le> distance \<and> distance \<le> 127)
             (setBits 1 (lr_jumpLocation lr) distance bytecode)
         | Int16 \<Rightarrow> release_assert (- 32768 \<le> distance \<and> distance \<le> 32767)
             (setBits 2 (lr_jumpLocation lr) distance bytecode)
         | Int24 \<Rightarrow> release_assert (distance \<ge> Int24Min \<and> distance \<le> Int24Max)
             (rbind (setBits 2 (lr_jumpLocation lr) distance bytecode)
               (setBits 1 (lr_jumpLocation lr + 2) (drop_bit 16 distance)))
         | Int32 \<Rightarrow> setBits 4 (lr_jumpLocation lr) distance bytecode))"

fun link :: "nat list \<Rightarrow> LinkRecord list \<Rightarrow> byte list \<Rightarrow> byte list result" where
  "link offs [] bytecode = Inr bytecode"
| "link offs (lr # lrs) bytecode = rbind (linkRecord offs lr bytecode) (link offs lrs)"

text \<open>The worst-case offset of every node, with no jump compacted: the root first, then the other
  nodes in index order.\<close>

definition maxNodeStartOffsets :: "DFA \<Rightarrow> nat list" where
  "maxNodeStartOffsets d =
     (let root = dfa_root d;
          rootActionsSize =
            fold (\<lambda>action size. size + appendActionBytecodeSize action)
              (node_actions d (dfa_nodes d ! root)) 0;
          offs0 = (replicate (length (dfa_nodes d)) 0)[root := sizeof_DFAHeader + rootActionsSize];
          nextIndex = sizeof_DFAHeader + compiledNodeMaxBytecodeSize d root
      in fst (fold (\<lambda>i (offs, next).
                 if i \<noteq> root then (offs[i := next], next + compiledNodeMaxBytecodeSize d i)
                 else (offs, next))
           [0 ..< length (dfa_nodes d)] (offs0, nextIndex)))"

definition compileNodes :: "DFA \<Rightarrow> DFABytecodeCompiler \<Rightarrow> DFABytecodeCompiler" where
  "compileNodes d c =
     fold (\<lambda>i c. if i \<noteq> dfa_root d then compileNode d i False c else c)
       [0 ..< length (dfa_nodes d)] (compileNode d (dfa_root d) True c)"

definition compile :: "DFA \<Rightarrow> byte list \<Rightarrow> byte list result" where
  "compile d bytecode0 =
     (let startLocation = length bytecode0;
          c0 = \<lparr>m_bytecode = bytecode0 @ le_bytes 4 0,
                m_maxNodeStartOffsets = maxNodeStartOffsets d,
                m_nodeStartOffsets = replicate (length (dfa_nodes d)) (2 ^ 32 - 1),
                m_linkRecords = []\<rparr>;
          c = compileNodes d c0
      in rbind (link (m_nodeStartOffsets c) (m_linkRecords c) (m_bytecode c))
           (\<lambda>bytecode. setBits 4 startLocation (int (length bytecode - startLocation)) bytecode))"

end
