(* ===== verification/Transition_Tables.thy ===== *)
theory Transition_Tables
  imports Bytecode_Compiler
begin

text \<open>
  \<^verbatim>\<open>DFABytecodeCompiler::transitions\<close> keeps the transition function: looking a character
  up in the jump tables, then in the ranges, then in the fallback gives the target of the DFA,
  except that an end-of-line transition into the fallback target is lost. The proof follows the
  three loops of the function: \<open>fillDestinations\<close>, \<open>collectRanges\<close>, \<open>extractJumpTables\<close>.
\<close>

section \<open>Looking a character up\<close>

definition char_key :: "bool \<Rightarrow> nat \<Rightarrow> nat" where
  "char_key caseSensitive c = (if caseSensitive then c else toASCIILower c)"

definition table_lookup :: "nat \<Rightarrow> JumpTable \<Rightarrow> nat option" where
  "table_lookup c t =
     (let v = char_key (jt_caseSensitive t) c
      in if jt_min t \<le> v \<and> v \<le> jt_max t then Some (jt_destinations t ! (v - jt_min t)) else None)"

definition range_covers :: "Range \<Rightarrow> nat \<Rightarrow> bool" where
  "range_covers r c \<longleftrightarrow>
     range_min r \<le> char_key (range_caseSensitive r) c \<and>
     char_key (range_caseSensitive r) c \<le> range_max r"

definition range_lookup :: "nat \<Rightarrow> Range \<Rightarrow> nat option" where
  "range_lookup c r = (if range_covers r c then Some (range_destination r) else None)"

definition checked_lookup :: "Transitions \<Rightarrow> nat \<Rightarrow> nat option" where
  "checked_lookup t c =
     (case first_some (table_lookup c) (jumpTables t) of
        Some q \<Rightarrow> Some q
      | None \<Rightarrow> first_some (range_lookup c) (ranges t))"

definition transition_lookup :: "Transitions \<Rightarrow> nat \<Rightarrow> nat option" where
  "transition_lookup t c =
     (case checked_lookup t c of
        Some q \<Rightarrow> Some q
      | None \<Rightarrow> if useFallbackTransition t \<and> c \<noteq> 0 then Some (fallbackTransitionTarget t) else None)"

section \<open>The destination of every character\<close>

lemma length_fillRange [simp]: "length (fillRange lo hi t ds) = length ds"
  by (simp add: fillRange_def)

lemma nth_fillRange:
  "c < length ds \<Longrightarrow> fillRange lo hi t ds ! c = (if lo \<le> c \<and> c \<le> hi then t else ds ! c)"
  unfolding fillRange_def using nth_fold_list_update [of c ds id t "[lo ..< hi + 1]"] by auto

lemma length_fillDestinations [simp]: "length (fillDestinations u f ts ds) = length ds"
  by (induction u f ts ds rule: fillDestinations.induct) auto

lemma nth_fillDestinations:
  assumes "sorted_from lo ts" and "0 \<le> lo" and "c < length ds"
  shows "fillDestinations u f ts ds ! c =
    (case step_in ts c of None \<Rightarrow> ds ! c | Some t \<Rightarrow> if u \<and> f = t then ds ! c else t)"
  using assms
proof (induction u f ts ds arbitrary: lo rule: fillDestinations.induct)
  case (1 u f ds)
  then show ?case by simp
next
  case (2 u f r t ts ds)
  have rest: "sorted_from (rangeLast r + 1) ts" and pos: "0 \<le> rangeFirst r" "0 \<le> rangeLast r + 1"
    using "2.prems" by auto
  have None: "step_in ts c = None" if "in_range r c"
    using rest that by (intro step_in_None_below) (auto simp: in_range_def)
  have here: "in_range r c \<longleftrightarrow> nat (rangeFirst r) \<le> c \<and> c \<le> nat (rangeLast r)"
    using pos "2.prems" by (auto simp: in_range_def nat_le_iff le_nat_iff)
  show ?case
  proof (cases "u \<and> f = t")
    case True
    then show ?thesis
      using "2.IH"(1) [OF True rest pos(2) "2.prems"(3)] None by auto
  next
    case False
    let ?ds = "fillRange (nat (rangeFirst r)) (nat (rangeLast r)) t ds"
    have "fillDestinations u f ts ?ds ! c =
        (case step_in ts c of None \<Rightarrow> ?ds ! c | Some t \<Rightarrow> if u \<and> f = t then ?ds ! c else t)"
      using "2.IH"(2) [OF False rest pos(2)] "2.prems"(3) by simp
    moreover have "?ds ! c = (if in_range r c then t else ds ! c)"
      using here "2.prems"(3) by (simp add: nth_fillRange)
    ultimately show ?thesis
      using False None by (auto split: option.splits)
  qed
qed

section \<open>The ranges\<close>

definition range_ok :: "nat list \<Rightarrow> Range \<Rightarrow> bool" where
  "range_ok D r \<longleftrightarrow>
     range_min r \<le> range_max r \<and> range_max r < 128 \<and> (\<exists>c < 128. range_covers r c) \<and>
     (\<forall>c < 128. range_covers r c \<longrightarrow> D ! c = range_destination r \<and> D ! c \<noteq> noDestination)"

definition covered :: "Range list \<Rightarrow> nat \<Rightarrow> bool" where
  "covered rs c \<longleftrightarrow> (\<exists>r \<in> set rs. range_covers r c)"

lemma range_okD:
  assumes "range_ok D r"
  shows "range_min r \<le> range_max r \<and> range_max r < 128"
    and "c < 128 \<Longrightarrow> range_covers r c \<Longrightarrow> range_destination r = D ! c \<and> D ! c \<noteq> noDestination"
    and "\<exists>c < 128. range_covers r c"
  using assms by (auto simp: range_ok_def)

lemma covered_append [simp]: "covered (rs @ [r]) c \<longleftrightarrow> covered rs c \<or> range_covers r c"
  by (auto simp: covered_def)

definition range_start :: "nat \<Rightarrow> range_state \<Rightarrow> nat" where
  "range_start i st = (case rs_rangeMin st of None \<Rightarrow> i | Some m \<Rightarrow> m)"

text \<open>The loop invariant at character \<open>i\<close>: the ranges so far are right, they cover everything before
  the open range, the remaining destinations are the original ones unless already covered, and
  the open range has one destination.\<close>

definition range_inv :: "nat list \<Rightarrow> nat \<Rightarrow> range_state \<Rightarrow> bool" where
  "range_inv D i st \<longleftrightarrow>
     length (rs_destinations st) = 128 \<and>
     (\<forall>r \<in> set (rs_ranges st). range_ok D r) \<and>
     (\<forall>c < 128. c < range_start i st \<longrightarrow> D ! c \<noteq> noDestination \<longrightarrow> covered (rs_ranges st) c) \<and>
     (\<forall>c < 128. range_start i st \<le> c \<longrightarrow> rs_destinations st ! c = D ! c \<or>
        rs_destinations st ! c = noDestination \<and> covered (rs_ranges st) c) \<and>
     (\<forall>m. rs_rangeMin st = Some m \<longrightarrow> m < i \<and> rs_destinations st ! m \<noteq> noDestination \<and>
        (\<forall>c. m < c \<and> c < i \<longrightarrow> rs_destinations st ! c = rs_destinations st ! m))"

lemma length_clearLowerCase [simp]: "length (clearLowerCase lo hi ds) = length ds"
  by (simp add: clearLowerCase_def)

lemma nth_clearLowerCase:
  assumes "c < length ds" and "65 \<le> lo" and "hi \<le> 90"
  shows "clearLowerCase lo hi ds ! c =
    (if lo + 32 \<le> c \<and> c \<le> hi + 32 then noDestination else ds ! c)"
proof -
  have "toASCIILower ` {lo ..< hi + 1} = (\<lambda>k. k + 32) ` {lo ..< hi + 1}"
    using assms by (intro image_cong) (auto simp: toASCIILower_eq isASCIIUpper_def)
  also have "\<dots> = {lo + 32 ..< hi + 33}"
    using image_add_atLeastLessThan' [of 32 lo "hi + 1"] by (simp add: add.commute)
  finally have "c \<in> toASCIILower ` set [lo ..< hi + 1] \<longleftrightarrow> lo + 32 \<le> c \<and> c \<le> hi + 32"
    by (simp only: set_upt) auto
  then show ?thesis
    unfolding clearLowerCase_def using assms(1) by (simp add: nth_fold_list_update)
qed

lemma caseInsensitiveRangeD:
  assumes "caseInsensitiveRange ds lo hi" and "lo \<le> k" and "k \<le> hi"
  shows "65 \<le> lo" "hi \<le> 90" "ds ! (k + 32) = ds ! lo"
proof -
  show lohi: "65 \<le> lo" "hi \<le> 90"
    using assms(1) by (auto simp: caseInsensitiveRange_def)
  have "ds ! lo = ds ! toASCIILower k"
    using assms by (auto simp: caseInsensitiveRange_def list_all_iff)
  moreover have "toASCIILower k = k + 32"
    using assms lohi by (simp add: toASCIILower_eq isASCIIUpper_def)
  ultimately show "ds ! (k + 32) = ds ! lo" by simp
qed

text \<open>The range closed at character \<open>i\<close>, and what it covers.\<close>

definition closed_range :: "nat list \<Rightarrow> nat \<Rightarrow> nat \<Rightarrow> Range" where
  "closed_range ds lo hi =
     (if caseInsensitiveRange ds lo hi
      then \<lparr>range_min = toASCIILower lo, range_max = toASCIILower hi,
            range_destination = ds ! lo, range_caseSensitive = False\<rparr>
      else \<lparr>range_min = lo, range_max = hi, range_destination = ds ! lo, range_caseSensitive = True\<rparr>)"

lemma closed_range_covers:
  assumes "lo \<le> hi"
  shows "range_covers (closed_range ds lo hi) c \<longleftrightarrow>
    (lo \<le> c \<and> c \<le> hi) \<or> (caseInsensitiveRange ds lo hi \<and> lo + 32 \<le> c \<and> c \<le> hi + 32)"
proof (cases "caseInsensitiveRange ds lo hi")
  case True
  then have "65 \<le> lo" "hi \<le> 90" by (auto simp: caseInsensitiveRange_def)
  with True assms show ?thesis
    by (auto simp: closed_range_def range_covers_def char_key_def toASCIILower_eq isASCIIUpper_def)
next
  case False
  then show ?thesis by (simp add: closed_range_def range_covers_def char_key_def)
qed

lemma closed_range_destination: "range_destination (closed_range ds lo hi) = ds ! lo"
  by (simp add: closed_range_def)

lemma closed_range_bounds:
  assumes "lo \<le> hi" and "hi < 128"
  shows "range_min (closed_range ds lo hi) \<le> range_max (closed_range ds lo hi)"
    "range_max (closed_range ds lo hi) < 128"
proof -
  have "caseInsensitiveRange ds lo hi \<Longrightarrow> 65 \<le> lo \<and> hi \<le> 90"
    by (auto simp: caseInsensitiveRange_def)
  then show "range_min (closed_range ds lo hi) \<le> range_max (closed_range ds lo hi)"
    "range_max (closed_range ds lo hi) < 128"
    using assms by (auto simp: closed_range_def toASCIILower_eq isASCIIUpper_def)
qed

definition close_range :: "nat \<Rightarrow> nat \<Rightarrow> range_state \<Rightarrow> range_state" where
  "close_range m i st =
     (let ds = rs_destinations st;
          ds' = (if caseInsensitiveRange ds m (i - 1) then clearLowerCase m (i - 1) ds else ds)
      in \<lparr>rs_destinations = ds', rs_ranges = rs_ranges st @ [closed_range ds m (i - 1)],
          rs_rangeMin = (if ds' ! i = noDestination then None else Some i)\<rparr>)"

lemma rangeStep_close:
  assumes "range_inv D i st" and "i < 128" and "rs_rangeMin st = Some m"
    and "rs_destinations st ! i \<noteq> rs_destinations st ! m"
  shows "rangeStep i st = close_range m i st"
proof (cases "caseInsensitiveRange (rs_destinations st) m (i - 1)")
  case True
  have "m < i" "length (rs_destinations st) = 128" using assms by (auto simp: range_inv_def)
  moreover have "65 \<le> m" "i - 1 \<le> 90" using True by (auto simp: caseInsensitiveRange_def)
  ultimately have "clearLowerCase m (i - 1) (rs_destinations st) ! m = rs_destinations st ! m"
    using assms(2) by (subst nth_clearLowerCase) auto
  then show ?thesis
    using True assms(3,4) by (simp add: rangeStep_def close_range_def closed_range_def Let_def)
next
  case False
  then show ?thesis
    using assms(3,4) by (simp add: rangeStep_def close_range_def closed_range_def Let_def)
qed

lemma closed_range_ok:
  assumes inv: "range_inv D i st" and "i < 128 \<or> i = 128" and m: "rs_rangeMin st = Some m"
  shows "range_ok D (closed_range (rs_destinations st) m (i - 1))"
proof -
  let ?ds = "rs_destinations st"
  have mi: "m < i" and nd: "?ds ! m \<noteq> noDestination"
    and const: "\<And>c. m < c \<Longrightarrow> c < i \<Longrightarrow> ?ds ! c = ?ds ! m"
    and orig: "\<And>c. c < 128 \<Longrightarrow> m \<le> c \<Longrightarrow> ?ds ! c \<noteq> noDestination \<Longrightarrow> ?ds ! c = D ! c"
    using inv m by (auto simp: range_inv_def range_start_def)
  have "D ! c = ?ds ! m" if c: "c < 128" and cov: "range_covers (closed_range ?ds m (i - 1)) c" for c
  proof -
    have "?ds ! c = ?ds ! m"
    proof (cases "m \<le> c \<and> c \<le> i - 1")
      case True
      with const [of c] mi show ?thesis by (cases "m = c") auto
    next
      case False
      then have "caseInsensitiveRange ?ds m (i - 1)" and k: "m \<le> c - 32" "c - 32 \<le> i - 1" "32 \<le> c"
        using cov mi by (auto simp: closed_range_covers)
      then show ?thesis
        using caseInsensitiveRangeD(3) [of ?ds m "i - 1" "c - 32"] by simp
    qed
    moreover have "m \<le> c" using cov mi by (auto simp: closed_range_covers)
    ultimately show ?thesis using orig c nd by metis
  qed
  moreover have "range_covers (closed_range ?ds m (i - 1)) m" "m < 128"
    using mi assms(2) by (auto simp: closed_range_covers)
  ultimately show ?thesis
    using closed_range_bounds [of m "i - 1" ?ds] mi assms(2) nd
    by (auto simp: range_ok_def closed_range_destination)
qed

lemma close_range_inv:
  assumes inv: "range_inv D i st" and i: "i < 128" and m: "rs_rangeMin st = Some m"
  shows "range_inv D (Suc i) (close_range m i st)"
proof -
  let ?ds = "rs_destinations st"
  let ?r = "closed_range ?ds m (i - 1)"
  let ?ci = "caseInsensitiveRange ?ds m (i - 1)"
  let ?ds' = "if ?ci then clearLowerCase m (i - 1) ?ds else ?ds"
  let ?st = "close_range m i st"
  have len: "length ?ds = 128" and mi: "m < i" and nd: "?ds ! m \<noteq> noDestination"
    and const: "\<And>c. m < c \<Longrightarrow> c < i \<Longrightarrow> ?ds ! c = ?ds ! m"
    and before: "\<And>c. c < m \<Longrightarrow> D ! c \<noteq> noDestination \<Longrightarrow> covered (rs_ranges st) c"
    and orig: "\<And>c. c < 128 \<Longrightarrow> m \<le> c \<Longrightarrow> ?ds ! c = D ! c \<or>
        ?ds ! c = noDestination \<and> covered (rs_ranges st) c"
    and ok: "\<And>r. r \<in> set (rs_ranges st) \<Longrightarrow> range_ok D r"
    using inv m i by (auto simp: range_inv_def range_start_def)
  have cov: "range_covers ?r c \<longleftrightarrow> (m \<le> c \<and> c < i) \<or> (?ci \<and> m + 32 \<le> c \<and> c < i + 32)" for c
    using mi by (subst closed_range_covers) auto
  have ds': "?ds' ! c = (if ?ci \<and> m + 32 \<le> c \<and> c < i + 32 then noDestination else ?ds ! c)"
    if "c < 128" for c
  proof (cases ?ci)
    case True
    then have "65 \<le> m" "i - 1 \<le> 90" by (auto simp: caseInsensitiveRange_def)
    then show ?thesis using nth_clearLowerCase [of c ?ds m "i - 1"] that len mi True by auto
  qed simp
  have fields: "rs_destinations ?st = ?ds'" "rs_ranges ?st = rs_ranges st @ [?r]"
    "rs_rangeMin ?st = (if ?ds' ! i = noDestination then None else Some i)"
    by (simp_all add: close_range_def Let_def)
  have low: "covered (rs_ranges st @ [?r]) c" if "c < i" "D ! c \<noteq> noDestination" for c
    using that before cov [of c] by (cases "c < m") auto
  have high: "?ds' ! c = D ! c \<or> ?ds' ! c = noDestination \<and> covered (rs_ranges st @ [?r]) c"
    if "c < 128" "i \<le> c" for c
    using orig [of c] that mi cov [of c] ds' [of c] by (auto split: if_splits)
  have "c < range_start (Suc i) ?st \<Longrightarrow> D ! c \<noteq> noDestination \<Longrightarrow> covered (rs_ranges st @ [?r]) c"
    if "c < 128" for c
    using low [of c] high [of c] that by (cases "c = i") (auto simp: range_start_def fields split: if_splits)
  moreover have "i \<le> range_start (Suc i) ?st"
    by (auto simp: range_start_def fields)
  ultimately show ?thesis
    unfolding range_inv_def fields(1,2)
    using len ok closed_range_ok [OF inv _ m] i high fields(3)
    by (auto split: if_splits simp: less_Suc_eq_le)
qed

lemma rangeStep_inv:
  assumes inv: "range_inv D i st" and i: "i < 128"
  shows "range_inv D (Suc i) (rangeStep i st)"
proof (cases "rs_rangeMin st")
  case None
  then have at: "rs_destinations st ! i = D ! i \<or>
      rs_destinations st ! i = noDestination \<and> covered (rs_ranges st) i"
    using inv i by (auto simp: range_inv_def range_start_def)
  show ?thesis
    using None inv i at
    by (cases "rs_destinations st ! i = noDestination")
      (auto simp: rangeStep_def range_inv_def range_start_def less_Suc_eq Let_def)
next
  case (Some m)
  show ?thesis
  proof (cases "rs_destinations st ! i = rs_destinations st ! m")
    case True
    then have "rangeStep i st = st" using Some by (simp add: rangeStep_def)
    then show ?thesis
      using inv True Some by (auto simp: range_inv_def range_start_def less_Suc_eq)
  next
    case False
    then show ?thesis
      using rangeStep_close [OF inv i Some] close_range_inv [OF inv i Some] by simp
  qed
qed

lemma fold_rangeStep_inv:
  assumes "length D = 128" and "n \<le> 128"
  shows "range_inv D n (fold rangeStep [0 ..< n]
           \<lparr>rs_destinations = D, rs_ranges = [], rs_rangeMin = None\<rparr>)"
  using assms(2)
proof (induction n)
  case 0
  then show ?case using assms(1) by (simp add: range_inv_def range_start_def)
next
  case (Suc n)
  then show ?case using rangeStep_inv by simp
qed

text \<open>The ranges collected from a table of destinations cover exactly the characters that have one.\<close>

lemma collectRanges_correct:
  assumes "length D = 128"
  shows "\<forall>r \<in> set (collectRanges D). range_ok D r"
    and "c < 128 \<Longrightarrow> D ! c \<noteq> noDestination \<Longrightarrow> covered (collectRanges D) c"
proof -
  define st where
    "st = fold rangeStep [0 ..< 128] \<lparr>rs_destinations = D, rs_ranges = [], rs_rangeMin = None\<rparr>"
  have inv: "range_inv D 128 st" unfolding st_def by (rule fold_rangeStep_inv [OF assms]) simp
  have ranges: "collectRanges D =
      (case rs_rangeMin st of
         None \<Rightarrow> rs_ranges st
       | Some m \<Rightarrow> rs_ranges st @ [\<lparr>range_min = m, range_max = 127,
           range_destination = rs_destinations st ! m, range_caseSensitive = True\<rparr>])"
    unfolding collectRanges_def Let_def st_def by (rule refl)
  have "(\<forall>r \<in> set (collectRanges D). range_ok D r) \<and>
    (\<forall>c < 128. D ! c \<noteq> noDestination \<longrightarrow> covered (collectRanges D) c)"
  proof (cases "rs_rangeMin st")
    case None
    then show ?thesis using inv ranges by (auto simp: range_inv_def range_start_def)
  next
    case (Some m)
    let ?r = "\<lparr>range_min = m, range_max = 127, range_destination = rs_destinations st ! m,
               range_caseSensitive = True\<rparr>"
    have eq: "collectRanges D = rs_ranges st @ [?r]" using Some ranges by simp
    have cov: "range_covers ?r c \<longleftrightarrow> m \<le> c \<and> c \<le> 127" for c
      by (simp add: range_covers_def char_key_def)
    have nd: "rs_destinations st ! m \<noteq> noDestination" and m: "m < 128"
      and const: "\<And>c. m < c \<Longrightarrow> c < 128 \<Longrightarrow> rs_destinations st ! c = rs_destinations st ! m"
      and orig: "\<And>c. c < 128 \<Longrightarrow> m \<le> c \<Longrightarrow>
        rs_destinations st ! c = D ! c \<or> rs_destinations st ! c = noDestination"
      using inv Some by (auto simp: range_inv_def range_start_def)
    have "rs_destinations st ! m = D ! c" if "m \<le> c" "c < 128" for c
      using orig [of c] const [of c] nd that by (cases "m = c") auto
    then have "range_ok D ?r"
      using nd cov m by (auto simp: range_ok_def)
    moreover have "covered (collectRanges D) c" if "c < 128" "D ! c \<noteq> noDestination" for c
      using inv Some that cov [of c] unfolding eq
      by (cases "c < m") (auto simp: range_inv_def range_start_def)
    ultimately show ?thesis
      using inv eq by (auto simp: range_inv_def)
  qed
  then show "\<forall>r \<in> set (collectRanges D). range_ok D r"
    and "c < 128 \<Longrightarrow> D ! c \<noteq> noDestination \<Longrightarrow> covered (collectRanges D) c"
    by blast+
qed

section \<open>The jump tables\<close>

text \<open>An entry is a case sensitivity, a character value and a destination; moving a run of ranges
  into a jump table keeps the set of entries.\<close>

type_synonym entry = "bool \<times> nat \<times> nat"

definition range_entries :: "Range \<Rightarrow> entry set" where
  "range_entries r =
     (\<lambda>v. (range_caseSensitive r, v, range_destination r)) ` {range_min r .. range_max r}"

definition table_entries :: "JumpTable \<Rightarrow> entry set" where
  "table_entries t =
     (\<lambda>k. (jt_caseSensitive t, jt_min t + k, jt_destinations t ! k)) ` {..< length (jt_destinations t)}"

definition entries :: "Range list \<Rightarrow> JumpTable list \<Rightarrow> entry set" where
  "entries rs ts = (\<Union>r \<in> set rs. range_entries r) \<union> (\<Union>t \<in> set ts. table_entries t)"

definition table_ok :: "JumpTable \<Rightarrow> bool" where
  "table_ok t \<longleftrightarrow>
     jt_destinations t \<noteq> [] \<and> jt_max t + 1 = jt_min t + length (jt_destinations t) \<and> jt_max t < 128"

lemma range_lookup_entries:
  "range_lookup c r = Some q \<longleftrightarrow> (range_caseSensitive r, char_key (range_caseSensitive r) c, q) \<in> range_entries r"
  by (auto simp: range_lookup_def range_covers_def range_entries_def)

lemma table_lookup_entries:
  assumes "table_ok t"
  shows "table_lookup c t = Some q \<longleftrightarrow>
    (jt_caseSensitive t, char_key (jt_caseSensitive t) c, q) \<in> table_entries t"
proof -
  let ?v = "char_key (jt_caseSensitive t) c"
  have "jt_min t \<le> ?v \<and> ?v \<le> jt_max t \<longleftrightarrow> (\<exists>k < length (jt_destinations t). ?v = jt_min t + k)"
    using assms by (auto simp: table_ok_def intro: exI [of _ "?v - jt_min t"])
  then show ?thesis
    by (auto simp: table_lookup_def table_entries_def Let_def)
qed

text \<open>A run: consecutive single-character ranges of one case sensitivity.\<close>

definition run :: "Range list \<Rightarrow> nat \<Rightarrow> nat \<Rightarrow> bool" where
  "run rs b e \<longleftrightarrow> b \<le> e \<and> e < length rs \<and>
     (\<forall>k \<le> e - b. range_max (rs ! (b + k)) = range_min (rs ! b) + k \<and>
        range_min (rs ! (b + k)) = range_max (rs ! (b + k)) \<and>
        range_caseSensitive (rs ! (b + k)) = range_caseSensitive (rs ! b))"

lemma run_start: "b < length rs \<Longrightarrow> range_min (rs ! b) = range_max (rs ! b) \<Longrightarrow> run rs b b"
  by (simp add: run_def)

lemma run_extend:
  assumes "run rs b (e - 1)" and "b < e" and "e < length rs"
    and "range_min (rs ! e) = range_max (rs ! e)"
    and "range_caseSensitive (rs ! b) = range_caseSensitive (rs ! e)"
    and "range_max (rs ! (e - 1)) + 1 = range_min (rs ! e)"
  shows "run rs b e"
proof -
  have last: "range_max (rs ! (e - 1)) = range_min (rs ! b) + (e - 1 - b)"
    using assms(1,2) by (auto simp: run_def dest!: spec [of _ "e - 1 - b"])
  have "range_max (rs ! (b + k)) = range_min (rs ! b) + k \<and>
        range_min (rs ! (b + k)) = range_max (rs ! (b + k)) \<and>
        range_caseSensitive (rs ! (b + k)) = range_caseSensitive (rs ! b)" if k: "k \<le> e - b" for k
  proof (cases "k = e - b")
    case True
    then show ?thesis using assms last by auto
  next
    case False
    then show ?thesis using assms(1,2) k by (simp add: run_def)
  qed
  then show ?thesis using assms by (simp add: run_def)
qed

lemma extractJumpTable_table:
  assumes "run rs b e" and "\<forall>r \<in> set rs. range_max r < 128"
  shows "table_ok (fst (extractJumpTable rs b e))"
    and "table_entries (fst (extractJumpTable rs b e)) = (\<Union>j \<in> {b..e}. range_entries (rs ! j))"
proof -
  let ?t = "fst (extractJumpTable rs b e)"
  have len: "length (jt_destinations ?t) = e - b + 1" and be: "b \<le> e"
    using assms by (auto simp: extractJumpTable_def run_def)
  have run: "range_max (rs ! (b + k)) = range_min (rs ! b) + k"
    "range_min (rs ! (b + k)) = range_max (rs ! (b + k))"
    "range_caseSensitive (rs ! (b + k)) = range_caseSensitive (rs ! b)" if "k \<le> e - b" for k
    using assms(1) that by (auto simp: run_def)
  have dest: "jt_destinations ?t ! k = range_destination (rs ! (b + k))" if "k \<le> e - b" for k
    using that be by (simp add: extractJumpTable_def nth_append)
  have fields: "jt_min ?t = range_min (rs ! b)" "jt_max ?t = range_max (rs ! e)"
    "jt_caseSensitive ?t = range_caseSensitive (rs ! b)"
    using run [of "e - b"] be by (auto simp: extractJumpTable_def)
  show "table_ok ?t"
    unfolding table_ok_def fields using len run(1) [of "e - b"] be assms(1) bspec [OF assms(2), of "rs ! e"]
    by (auto simp: run_def)
  have single: "range_entries (rs ! (b + k)) =
      {(range_caseSensitive (rs ! b), range_min (rs ! b) + k, range_destination (rs ! (b + k)))}"
    if "k \<le> e - b" for k
    using run [OF that] by (simp add: range_entries_def)
  have "j \<in> (\<lambda>k. b + k) ` {..< e - b + 1}" if "j \<in> {b..e}" for j
    using that by (intro image_eqI [of _ _ "j - b"]) auto
  then have "{b..e} = (\<lambda>k. b + k) ` {..< e - b + 1}"
    using be by auto
  then have "(\<Union>j \<in> {b..e}. range_entries (rs ! j)) = (\<Union>k \<in> {..< e - b + 1}. range_entries (rs ! (b + k)))"
    by simp
  also have "\<dots> = table_entries ?t"
    unfolding table_entries_def fields len using single dest by (auto simp: less_Suc_eq_le)
  finally show "table_entries ?t = (\<Union>j \<in> {b..e}. range_entries (rs ! j))" by simp
qed

lemma extractJumpTable_rest:
  assumes "b \<le> e" and "e < length rs"
  shows "set rs = set (snd (extractJumpTable rs b e)) \<union> (\<lambda>j. rs ! j) ` {b..e}"
    and "length (snd (extractJumpTable rs b e)) = b + (length rs - (e + 1))"
proof -
  have "rs = take b rs @ take (e + 1 - b) (drop b rs) @ drop (e + 1) rs"
    using assms by (metis Suc_eq_plus1 append_take_drop_id drop_drop le_SucI le_add_diff_inverse2)
  then have "set rs = set (take b rs) \<union> set (take (e + 1 - b) (drop b rs)) \<union> set (drop (e + 1) rs)"
    by (metis set_append sup_assoc)
  moreover have "set (take (e + 1 - b) (drop b rs)) = (\<lambda>j. rs ! j) ` {b..e}"
  proof -
    have "take (e + 1 - b) (drop b rs) = map (\<lambda>j. rs ! j) [b ..< e + 1]"
      using assms by (intro nth_equalityI) (auto simp del: upt_Suc)
    then show ?thesis by (simp add: atLeastLessThanSuc_atLeastAtMost del: upt_Suc)
  qed
  ultimately show "set rs = set (snd (extractJumpTable rs b e)) \<union> (\<lambda>j. rs ! j) ` {b..e}"
    by (auto simp: extractJumpTable_def)
  show "length (snd (extractJumpTable rs b e)) = b + (length rs - (e + 1))"
    using assms by (simp add: extractJumpTable_def)
qed

lemma extractJumpTable_entries:
  assumes "run rs b e" and "\<forall>r \<in> set rs. range_max r < 128" and "extractJumpTable rs b e = (t, rs')"
  shows "entries rs' (ts @ [t]) = entries rs ts" and "table_ok t" and "set rs' \<subseteq> set rs"
    and "length rs' = b + (length rs - (e + 1))"
proof -
  have be: "b \<le> e" "e < length rs" using assms by (auto simp: run_def)
  note T = extractJumpTable_table [OF assms(1,2)] and R = extractJumpTable_rest [OF be]
  show "table_ok t" and "set rs' \<subseteq> set rs" and "length rs' = b + (length rs - (e + 1))"
    using T(1) R assms(3) by auto
  have "(\<Union>r \<in> set rs. range_entries r) = (\<Union>r \<in> set rs'. range_entries r) \<union> table_entries t"
    using T(2) R(1) assms(3) by auto
  then show "entries rs' (ts @ [t]) = entries rs ts" by (auto simp: entries_def)
qed

definition run_inv :: "Range list \<Rightarrow> nat \<Rightarrow> nat option \<Rightarrow> bool" where
  "run_inv rs pos base \<longleftrightarrow> pos \<le> length rs \<and>
     (\<forall>b. base = Some b \<longrightarrow> b < pos \<and> run rs b (pos - 1))"

lemma jumpTableLoop_entries:
  assumes "run_inv rs pos base" and "\<forall>r \<in> set rs. range_max r < 128" and "\<forall>t \<in> set ts. table_ok t"
    and "jumpTableLoop rs ts pos base = (rs', ts', base')"
  shows "entries rs' ts' = entries rs ts \<and> (\<forall>t \<in> set ts'. table_ok t) \<and> set rs' \<subseteq> set rs \<and>
    run_inv rs' (length rs') base'"
  using assms
proof (induction rs ts pos base rule: jumpTableLoop.induct)
  case (1 rs ts pos base)
  note IH = "1.IH" and inv = "1.prems"(1) and bound = "1.prems"(2) and tabs = "1.prems"(3)
    and res = "1.prems"(4)
  show ?case
  proof (cases "pos < length rs")
    case False
    then show ?thesis
      using inv tabs res by (subst (asm) jumpTableLoop.simps) (auto simp: run_inv_def)
  next
    case pos: True
    show ?thesis
    proof (cases base)
      case None
      let ?base = "if range_min (rs ! pos) = range_max (rs ! pos) then Some pos else None"
      have "jumpTableLoop rs ts (pos + 1) ?base = (rs', ts', base')"
        using res pos None by (subst (asm) jumpTableLoop.simps) (auto simp: Let_def)
      moreover have "run_inv rs (pos + 1) ?base"
        using pos run_start by (auto simp: run_inv_def)
      ultimately show ?thesis
        using IH(1,2) [OF pos refl None] bound tabs by (auto split: if_splits)
    next
      case (Some b)
      have b: "b < pos" "run rs b (pos - 1)" using inv Some by (auto simp: run_inv_def)
      let ?stop = "range_min (rs ! pos) \<noteq> range_max (rs ! pos)
                \<or> range_caseSensitive (rs ! b) \<noteq> range_caseSensitive (rs ! pos)
                \<or> range_max (rs ! (pos - 1)) + 1 \<noteq> range_min (rs ! pos)"
      consider (extend) "\<not> ?stop" | (drop) "?stop" "\<not> pos - b > 1"
        | (make) "?stop" "pos - b > 1"
        by blast
      then show ?thesis
      proof cases
        case extend
        then have "jumpTableLoop rs ts (pos + 1) base = (rs', ts', base')"
          using res pos Some by (subst (asm) jumpTableLoop.simps) (auto simp: Let_def)
        moreover have "run_inv rs (pos + 1) base"
          using run_extend [OF b(2,1) pos] extend pos b Some by (auto simp: run_inv_def)
        ultimately show ?thesis using IH(5) [OF pos refl Some extend] bound tabs Some by auto
      next
        case drop
        then have "jumpTableLoop rs ts (pos + 1) None = (rs', ts', base')"
          using res pos Some by (subst (asm) jumpTableLoop.simps) (auto simp: Let_def)
        moreover have "run_inv rs (pos + 1) None"
          using pos by (simp add: run_inv_def)
        ultimately show ?thesis using IH(4) [OF pos refl Some drop] bound tabs by auto
      next
        case make
        obtain t rs2 where x: "extractJumpTable rs b (pos - 1) = (t, rs2)" by force
        note X = extractJumpTable_entries [OF b(2) bound x]
        have "jumpTableLoop rs2 (ts @ [t]) (b + 1) None = (rs', ts', base')"
          using res pos Some make x by (subst (asm) jumpTableLoop.simps) (auto simp: Let_def)
        moreover have "run_inv rs2 (b + 1) None"
          using X(4) pos b by (simp add: run_inv_def)
        moreover have "\<forall>r \<in> set rs2. range_max r < 128" using X(3) bound by blast
        ultimately have "entries rs' ts' = entries rs2 (ts @ [t]) \<and> (\<forall>t \<in> set ts'. table_ok t) \<and>
            set rs' \<subseteq> set rs2 \<and> run_inv rs' (length rs') base'"
          using IH(3) [OF pos refl Some make x [symmetric] refl] X(2) tabs by simp
        then show ?thesis using X(1,3) by auto
      qed
    qed
  qed
qed

lemma extractJumpTables_entries:
  assumes "\<forall>r \<in> set rs0. range_max r < 128" and "extractJumpTables rs0 = (rs, ts)"
  shows "entries rs ts = entries rs0 []" and "\<forall>t \<in> set ts. table_ok t" and "set rs \<subseteq> set rs0"
proof -
  obtain rs1 ts1 base where loop: "jumpTableLoop rs0 [] 0 None = (rs1, ts1, base)"
    using prod_cases3 by blast
  have L: "entries rs1 ts1 = entries rs0 []" "\<forall>t \<in> set ts1. table_ok t" "set rs1 \<subseteq> set rs0"
    "run_inv rs1 (length rs1) base"
    using jumpTableLoop_entries [OF _ assms(1) _ loop] by (auto simp: run_inv_def)
  have "entries rs ts = entries rs0 [] \<and> (\<forall>t \<in> set ts. table_ok t) \<and> set rs \<subseteq> set rs0"
  proof (cases "\<exists>b. base = Some b \<and> length rs1 - b > 1")
    case True
    then obtain b where b: "base = Some b" "length rs1 - b > 1" by blast
    obtain t rs2 where x: "extractJumpTable rs1 b (length rs1 - 1) = (t, rs2)" by force
    have "run rs1 b (length rs1 - 1)" using L(4) b by (simp add: run_inv_def)
    have "\<forall>r \<in> set rs1. range_max r < 128" using L(3) assms(1) by blast
    note X = extractJumpTable_entries [OF \<open>run rs1 b (length rs1 - 1)\<close> this x]
    have "rs = rs2 \<and> ts = ts1 @ [t]"
      using assms(2) loop b x by (simp add: extractJumpTables_def)
    then show ?thesis using X L by auto
  next
    case False
    then have "rs = rs1 \<and> ts = ts1"
      using assms(2) loop by (auto simp: extractJumpTables_def split: option.splits)
    then show ?thesis using L by simp
  qed
  then show "entries rs ts = entries rs0 []" and "\<forall>t \<in> set ts. table_ok t" and "set rs \<subseteq> set rs0"
    by auto
qed

section \<open>The transition function is kept\<close>

lemma checked_lookup_iff:
  assumes "\<forall>t \<in> set (jumpTables T). table_ok t"
    and functional: "\<And>cs1 cs2 q1 q2. (cs1, char_key cs1 c, q1) \<in> entries (ranges T) (jumpTables T) \<Longrightarrow>
      (cs2, char_key cs2 c, q2) \<in> entries (ranges T) (jumpTables T) \<Longrightarrow> q1 = q2"
  shows "checked_lookup T c = Some q \<longleftrightarrow>
    (\<exists>cs. (cs, char_key cs c, q) \<in> entries (ranges T) (jumpTables T))"
proof -
  let ?E = "entries (ranges T) (jumpTables T)"
  have tab: "(\<exists>cs. (cs, char_key cs c, p) \<in> ?E)" if "t \<in> set (jumpTables T)" "table_lookup c t = Some p" for t p
    using that assms(1) table_lookup_entries [of t c p] by (auto simp: entries_def)
  have rng: "(\<exists>cs. (cs, char_key cs c, p) \<in> ?E)" if "r \<in> set (ranges T)" "range_lookup c r = Some p" for r p
    using that range_lookup_entries [of c r p] by (auto simp: entries_def)
  have sound: "\<exists>cs. (cs, char_key cs c, p) \<in> ?E" if "checked_lookup T c = Some p" for p
    using that tab rng
    by (auto simp: checked_lookup_def split: option.splits dest!: first_some_SomeD)
  have complete: "checked_lookup T c \<noteq> None" if e: "(cs, char_key cs c, p) \<in> ?E" for cs p
  proof -
    consider (r) r where "r \<in> set (ranges T)" "(cs, char_key cs c, p) \<in> range_entries r"
      | (t) t where "t \<in> set (jumpTables T)" "(cs, char_key cs c, p) \<in> table_entries t"
      using e by (auto simp: entries_def)
    then show ?thesis
    proof cases
      case r
      then have "range_lookup c r = Some p"
        unfolding range_lookup_entries by (auto simp: range_entries_def)
      then have "first_some (range_lookup c) (ranges T) \<noteq> None"
        using r first_some_None [of "range_lookup c" "ranges T"] by auto
      then show ?thesis by (auto simp: checked_lookup_def split: option.splits)
    next
      case t
      then have "table_lookup c t = Some p"
        using assms(1) table_lookup_entries [of t c p] by (auto simp: table_entries_def)
      then have "first_some (table_lookup c) (jumpTables T) \<noteq> None"
        using t first_some_None [of "table_lookup c" "jumpTables T"] by auto
      then show ?thesis by (auto simp: checked_lookup_def split: option.splits)
    qed
  qed
  show ?thesis
  proof
    show "checked_lookup T c = Some q \<Longrightarrow> \<exists>cs. (cs, char_key cs c, q) \<in> ?E" by (rule sound)
    assume "\<exists>cs. (cs, char_key cs c, q) \<in> ?E"
    then obtain cs where cs: "(cs, char_key cs c, q) \<in> ?E" by blast
    then obtain p where p: "checked_lookup T c = Some p" using complete by blast
    with sound cs functional have "p = q" by blast
    with p show "checked_lookup T c = Some q" by simp
  qed
qed

lemma entries_covered:
  "(\<exists>cs. (cs, char_key cs c, q) \<in> entries rs []) \<longleftrightarrow>
   (\<exists>r \<in> set rs. range_covers r c \<and> range_destination r = q)"
proof
  assume "\<exists>r \<in> set rs. range_covers r c \<and> range_destination r = q"
  then obtain r where "r \<in> set rs" "range_covers r c" "range_destination r = q" by blast
  moreover from this have "(range_caseSensitive r, char_key (range_caseSensitive r) c, q) \<in> range_entries r"
    by (auto simp: range_entries_def range_covers_def)
  ultimately have "(range_caseSensitive r, char_key (range_caseSensitive r) c, q) \<in> entries rs []"
    unfolding entries_def by blast
  then show "\<exists>cs. (cs, char_key cs c, q) \<in> entries rs []" by blast
qed (auto simp: entries_def range_entries_def range_covers_def)

text \<open>The destinations table a node's ranges are collected from.\<close>

definition node_destinations :: "DFA \<Rightarrow> DFANode \<Rightarrow> nat list" where
  "node_destinations d n =
     fillDestinations (useFallbackTransition (transitions d n)) (fallbackTransitionTarget (transitions d n))
       (node_transitions d n) (replicate 128 noDestination)"

lemma transitions_fields:
  shows "useFallbackTransition (transitions d n) = canUseFallbackTransition d n"
    and "fallbackTransitionTarget (transitions d n) =
      (if canUseFallbackTransition d n then bestFallbackTarget d n else 2 ^ 32 - 1)"
    and "(ranges (transitions d n), jumpTables (transitions d n)) =
      extractJumpTables (collectRanges (node_destinations d n))"
proof -
  show u: "useFallbackTransition (transitions d n) = canUseFallbackTransition d n"
    by (simp add: transitions_def Let_def split: prod.split)
  show f: "fallbackTransitionTarget (transitions d n) =
      (if canUseFallbackTransition d n then bestFallbackTarget d n else 2 ^ 32 - 1)"
    by (simp only: transitions_def Let_def split: prod.split) simp
  show "(ranges (transitions d n), jumpTables (transitions d n)) =
      extractJumpTables (collectRanges (node_destinations d n))"
    unfolding node_destinations_def u f by (simp only: transitions_def Let_def split: prod.split) simp
qed

lemma nth_node_destinations:
  assumes "sorted_from 0 (node_transitions d n)" and "c < 128"
  shows "node_destinations d n ! c =
    (case step_in (node_transitions d n) c of
       None \<Rightarrow> noDestination
     | Some t \<Rightarrow> if canUseFallbackTransition d n \<and> bestFallbackTarget d n = t then noDestination else t)"
  using nth_fillDestinations [OF assms(1), of c "replicate 128 noDestination"] assms(2)
  by (auto simp: node_destinations_def transitions_fields split: option.splits)

lemma transitions_ok:
  assumes "sorted_from 0 (node_transitions d n)"
  shows "\<forall>t \<in> set (jumpTables (transitions d n)). table_ok t"
    and "\<forall>r \<in> set (ranges (transitions d n)). range_min r \<le> range_max r \<and> range_max r < 128"
    and "c < 128 \<Longrightarrow> checked_lookup (transitions d n) c = Some q \<longleftrightarrow>
      node_destinations d n ! c = q \<and> q \<noteq> noDestination"
proof -
  let ?D = "node_destinations d n" and ?T = "transitions d n"
  have len: "length ?D = 128" by (simp add: node_destinations_def)
  note C = collectRanges_correct [OF len]
  have b: "\<forall>r \<in> set (collectRanges ?D). range_max r < 128" using C(1) range_okD(1) by blast
  note X = extractJumpTables_entries [OF b transitions_fields(3) [symmetric]]
  show tabs: "\<forall>t \<in> set (jumpTables ?T). table_ok t" by (rule X(2))
  show "\<forall>r \<in> set (ranges ?T). range_min r \<le> range_max r \<and> range_max r < 128"
    using C(1) X(3) range_okD(1) by blast
  assume c: "c < 128"
  have iff: "(\<exists>cs. (cs, char_key cs c, p) \<in> entries (ranges ?T) (jumpTables ?T)) \<longleftrightarrow>
      ?D ! c = p \<and> p \<noteq> noDestination" for p
  proof
    assume "\<exists>cs. (cs, char_key cs c, p) \<in> entries (ranges ?T) (jumpTables ?T)"
    then obtain r where "r \<in> set (collectRanges ?D)" "range_covers r c" "range_destination r = p"
      unfolding X(1) entries_covered by blast
    then show "?D ! c = p \<and> p \<noteq> noDestination" using C(1) c range_okD(2) by metis
  next
    assume p: "?D ! c = p \<and> p \<noteq> noDestination"
    then obtain r where r: "r \<in> set (collectRanges ?D)" "range_covers r c"
      using C(2) [OF c] by (auto simp: covered_def)
    then have "range_destination r = p" using C(1) c p range_okD(2) by metis
    with r show "\<exists>cs. (cs, char_key cs c, p) \<in> entries (ranges ?T) (jumpTables ?T)"
      unfolding X(1) entries_covered by blast
  qed
  have "checked_lookup ?T c = Some q \<longleftrightarrow>
      (\<exists>cs. (cs, char_key cs c, q) \<in> entries (ranges ?T) (jumpTables ?T))"
  proof (rule checked_lookup_iff [OF tabs])
    fix cs1 cs2 q1 q2
    assume "(cs1, char_key cs1 c, q1) \<in> entries (ranges ?T) (jumpTables ?T)"
      and "(cs2, char_key cs2 c, q2) \<in> entries (ranges ?T) (jumpTables ?T)"
    then show "q1 = q2" using iff [of q1] iff [of q2] by blast
  qed
  with iff show "checked_lookup ?T c = Some q \<longleftrightarrow> ?D ! c = q \<and> q \<noteq> noDestination" by simp
qed

lemma checked_lookup_destination:
  assumes "sorted_from 0 (node_transitions d n)" and "c < 128"
  shows "checked_lookup (transitions d n) c =
    (if node_destinations d n ! c = noDestination then None else Some (node_destinations d n ! c))"
proof (cases "node_destinations d n ! c = noDestination")
  case True
  then have "checked_lookup (transitions d n) c \<noteq> Some q" for q
    using transitions_ok(3) [OF assms, of q] by simp
  then have "checked_lookup (transitions d n) c = None" by blast
  with True show ?thesis by simp
next
  case False
  then show ?thesis using transitions_ok(3) [OF assms, of "node_destinations d n ! c"] by simp
qed

text \<open>Checking the jump tables, the ranges and the fallback of a node in that order is its transition
  function on every character of a URL.\<close>

lemma transition_lookup_step:
  assumes "sorted_from 0 (node_transitions d n)"
    and "\<forall>(r, t) \<in> set (node_transitions d n). t < noDestination"
    and "c < 128" and "c \<noteq> 0"
  shows "transition_lookup (transitions d n) c = step_in (node_transitions d n) c"
proof (cases "step_in (node_transitions d n) c")
  case None
  then have "\<not> canUseFallbackTransition d n"
    using canUseFallbackTransition_iff [OF assms(1)] assms(3,4) by auto
  then show ?thesis
    using None by (simp add: transition_lookup_def transitions_fields checked_lookup_destination
        nth_node_destinations assms)
next
  case (Some t)
  then have "t \<noteq> noDestination"
    using assms(2) step_in_SomeD by fastforce
  then show ?thesis
    using Some assms(4) by (simp add: transition_lookup_def transitions_fields
        checked_lookup_destination nth_node_destinations assms)
qed

lemma transition_lookup_zero:
  assumes "sorted_from 0 (node_transitions d n)"
    and "\<forall>(r, t) \<in> set (node_transitions d n). t < noDestination"
  shows "transition_lookup (transitions d n) 0 =
    (case step_in (node_transitions d n) 0 of
       None \<Rightarrow> None
     | Some t \<Rightarrow> if canUseFallbackTransition d n \<and> bestFallbackTarget d n = t then None else Some t)"
proof -
  have "t \<noteq> noDestination" if "step_in (node_transitions d n) 0 = Some t" for t
    using that assms(2) step_in_SomeD by fastforce
  then show ?thesis
    by (simp add: transition_lookup_def transitions_fields checked_lookup_destination
        nth_node_destinations assms split: option.split)
qed

subsection \<open>The targets\<close>

text \<open>Every node that the code of a node can jump to is a target of the node.\<close>

definition jump_targets :: "Transitions \<Rightarrow> nat set" where
  "jump_targets t =
     (\<Union>table \<in> set (jumpTables t). set (jt_destinations table)) \<union> range_destination ` set (ranges t) \<union>
     (if useFallbackTransition t then {fallbackTransitionTarget t} else {})"

lemma bestTargetLoop_mem: "bestTargetLoop h b s ts \<in> insert b (snd ` set ts)"
proof (induction ts arbitrary: h b s)
  case (Cons a ts)
  obtain r t where a: "a = (r, t)" by force
  have sub: "insert t (snd ` set ts) \<subseteq> insert b (snd ` set (a # ts))"
    "insert b (snd ` set ts) \<subseteq> insert b (snd ` set (a # ts))"
    by (auto simp: a)
  show ?case
    unfolding a bestTargetLoop.simps Let_def
    using subsetD [OF sub(1) Cons.IH] subsetD [OF sub(2) Cons.IH] unfolding a by (simp only: simp_thms split: if_split)
qed simp

lemma bestFallbackTarget_mem:
  assumes "canUseFallbackTransition d n"
  shows "bestFallbackTarget d n \<in> snd ` set (node_transitions d n)"
proof (cases "node_transitions d n")
  case Nil
  then show ?thesis using assms by (simp add: canUseFallbackTransition_def)
next
  case (Cons a ts)
  obtain r t where a: "a = (r, t)" by force
  show ?thesis
  proof (cases "rangeFirst r = 0 \<and> rangeLast r = 0")
    case True
    then obtain r2 t2 ts2 where "ts = (r2, t2) # ts2"
      using assms Cons a by (cases ts) (auto simp: canUseFallbackTransition_def)
    then show ?thesis
      using True Cons a bestTargetLoop_mem [of _ t2 _ ts2] by (auto simp: bestFallbackTarget_def Let_def)
  next
    case False
    then show ?thesis
      using Cons a bestTargetLoop_mem [of _ t _ ts] by (auto simp: bestFallbackTarget_def Let_def)
  qed
qed

lemma transition_targets_step:
  assumes "sorted_from 0 ts" and "t \<in> snd ` set ts"
  shows "\<exists>c < 128. step_in ts c = Some t"
proof -
  obtain r where r: "(r, t) \<in> set ts" using assms(2) by auto
  have bounds: "lo \<le> rangeFirst r \<and> rangeFirst r \<le> rangeLast r \<and> rangeLast r \<le> 127" 
    if "sorted_from lo ts" "(r, t) \<in> set ts" for lo ts
    using that by (induction lo ts rule: sorted_from.induct) fastforce+
  then have "in_range r (nat (rangeFirst r))" "nat (rangeFirst r) < 128"
    using bounds [OF assms(1) r] by (auto simp: in_range_def)
  then show ?thesis using step_in_eq_Some_iff [OF assms(1)] r by blast
qed

lemma jump_targets_step:
  assumes srt: "sorted_from 0 (node_transitions d n)" and q: "q \<in> jump_targets (transitions d n)"
  shows "\<exists>c < 128. step_in (node_transitions d n) c = Some q"
proof -
  let ?D = "node_destinations d n" and ?T = "transitions d n"
  have len: "length ?D = 128" by (simp add: node_destinations_def)
  note C = collectRanges_correct [OF len]
  have b: "\<forall>r \<in> set (collectRanges ?D). range_max r < 128" using C(1) range_okD(1) by blast
  note X = extractJumpTables_entries [OF b transitions_fields(3) [symmetric]]
  have range: "\<exists>c < 128. step_in (node_transitions d n) c = Some (range_destination r)"
    if r: "r \<in> set (collectRanges ?D)" for r
  proof -
    obtain c where c: "c < 128" "range_covers r c" using C(1) r range_okD(3) by blast
    then have "range_destination r = ?D ! c" "?D ! c \<noteq> noDestination"
      using C(1) r range_okD(2) by blast+
    then show ?thesis
      using nth_node_destinations [OF srt c(1)] c(1) by (auto split: option.splits if_splits)
  qed
  consider (table) t where "t \<in> set (jumpTables ?T)" "q \<in> set (jt_destinations t)"
    | (range) r where "r \<in> set (ranges ?T)" "q = range_destination r"
    | (fallback) "canUseFallbackTransition d n" "q = bestFallbackTarget d n"
    using q by (auto simp: jump_targets_def transitions_fields split: if_splits)
  then show ?thesis
  proof cases
    case table
    then obtain k where "k < length (jt_destinations t)" "q = jt_destinations t ! k"
      by (auto simp: in_set_conv_nth)
    then have "(jt_caseSensitive t, jt_min t + k, q) \<in> table_entries t"
      by (auto simp: table_entries_def)
    with table have "(jt_caseSensitive t, jt_min t + k, q) \<in> entries (ranges ?T) (jumpTables ?T)"
      unfolding entries_def by blast
    then obtain r where "r \<in> set (collectRanges ?D)" "q = range_destination r"
      unfolding X(1) by (auto simp: entries_def range_entries_def)
    then show ?thesis using range by blast
  next
    case (range r)
    then show ?thesis using X(3) \<open>\<And>r. r \<in> set (collectRanges ?D) \<Longrightarrow> _\<close> by blast
  next
    case fallback
    then show ?thesis
      using bestFallbackTarget_mem transition_targets_step [OF srt] by blast
  qed
qed

subsection \<open>Nodes that are a fallback alone\<close>

definition only_fallback :: "Transitions \<Rightarrow> bool" where
  "only_fallback t \<longleftrightarrow> jumpTables t = [] \<and> ranges t = [] \<and> useFallbackTransition t"

definition pure_fallback :: "DFA \<Rightarrow> DFANode \<Rightarrow> bool" where
  "pure_fallback d n \<longleftrightarrow> canUseFallbackTransition d n \<and>
     list_all (\<lambda>(r, t). t = bestFallbackTarget d n) (node_transitions d n)"

lemma fillDestinations_all_fallback:
  "list_all (\<lambda>(r, t). t = f) ts \<Longrightarrow> fillDestinations True f ts ds = ds"
  by (induction ts) auto

lemma fold_rangeStep_none:
  assumes "n \<le> 128"
  shows "fold rangeStep [0 ..< n] \<lparr>rs_destinations = replicate 128 noDestination, rs_ranges = [], rs_rangeMin = None\<rparr> =
    \<lparr>rs_destinations = replicate 128 noDestination, rs_ranges = [], rs_rangeMin = None\<rparr>"
  using assms by (induction n) (simp_all add: rangeStep_def)

lemma collectRanges_none: "collectRanges (replicate 128 noDestination) = []"
  unfolding collectRanges_def Let_def fold_rangeStep_none [OF order_refl] by simp

lemma extractJumpTables_Nil: "extractJumpTables [] = ([], [])"
  by (simp add: extractJumpTables_def jumpTableLoop.simps)

lemma only_fallback_iff:
  assumes "sorted_from 0 (node_transitions d n)"
    and "\<forall>(r, t) \<in> set (node_transitions d n). t < noDestination"
  shows "only_fallback (transitions d n) = pure_fallback d n"
proof
  assume "pure_fallback d n"
  then have can: "canUseFallbackTransition d n"
    and all: "list_all (\<lambda>(r, t). t = bestFallbackTarget d n) (node_transitions d n)"
    by (auto simp: pure_fallback_def)
  have "node_destinations d n = replicate 128 noDestination"
    unfolding node_destinations_def transitions_fields using can fillDestinations_all_fallback [OF all] by simp
  then have "(ranges (transitions d n), jumpTables (transitions d n)) = ([], [])"
    using transitions_fields(3) [of d n] by (simp only: collectRanges_none extractJumpTables_Nil)
  then show "only_fallback (transitions d n)"
    using can by (simp add: only_fallback_def transitions_fields(1))
next
  assume o: "only_fallback (transitions d n)"
  then have can: "canUseFallbackTransition d n" by (simp add: only_fallback_def transitions_fields)
  have "t = bestFallbackTarget d n" if rt: "(r, t) \<in> set (node_transitions d n)" for r t
  proof -
    obtain c where c: "c < 128" "step_in (node_transitions d n) c = Some t"
      using transition_targets_step [OF assms(1), of t] rt by force
    have "checked_lookup (transitions d n) c = None"
      using o by (simp add: checked_lookup_def only_fallback_def)
    then have "node_destinations d n ! c = noDestination"
      using checked_lookup_destination [OF assms(1) c(1)] by (simp split: if_splits)
    moreover have "t \<noteq> noDestination" using assms(2) rt by auto
    ultimately show ?thesis
      using nth_node_destinations [OF assms(1) c(1)] c(2) by (simp split: if_splits)
  qed
  then show "pure_fallback d n" using can by (auto simp: pure_fallback_def list_all_iff)
qed

end
