(* ===== verification/Code_Layout.thy ===== *)
theory Code_Layout
  imports Transition_Tables
begin

text \<open>
  What \<^verbatim>\<open>DFABytecodeCompiler::compile\<close> puts where. Emission appends bytes with empty jump slots
  and link records for them; \<open>emits\<close> says what the bytes become once the records are linked. The jump
  sizes are chosen before the destinations are known, from the worst-case offsets; the section on
  offsets shows that every chosen size holds the final distance, so that no \<^verbatim>\<open>RELEASE_ASSERT\<close> of the
  linker fails.
\<close>

section \<open>The code of a node\<close>

definition jump_bytes :: "nat list \<Rightarrow> DFABytecodeJumpSize \<Rightarrow> nat \<Rightarrow> nat \<Rightarrow> byte list" where
  "jump_bytes offs s loc q = le_bytes (jump_width s) (int (offs ! q) - int loc)"

definition jump_fits :: "nat list \<Rightarrow> DFABytecodeJumpSize \<Rightarrow> nat \<Rightarrow> nat \<Rightarrow> bool" where
  "jump_fits offs s loc q \<longleftrightarrow> fits s (int (offs ! q) - int loc)"

definition char_byte :: "nat \<Rightarrow> byte" where
  "char_byte c = word_of_int (int c)"

definition table_header :: "JumpTable \<Rightarrow> DFABytecodeJumpSize \<Rightarrow> byte list" where
  "table_header t s =
     [opcode (if jt_caseSensitive t then JumpTableCaseSensitive else JumpTableCaseInsensitive) s,
      char_byte (jt_min t), char_byte (jt_max t)]"

definition range_header :: "Range \<Rightarrow> DFABytecodeJumpSize \<Rightarrow> byte list" where
  "range_header r s =
     (if range_min r = range_max r
      then [opcode (if range_caseSensitive r then CheckValueCaseSensitive
                    else CheckValueCaseInsensitive) s,
            char_byte (range_min r)]
      else [opcode (if range_caseSensitive r then CheckValueRangeCaseSensitive
                    else CheckValueRangeCaseInsensitive) s,
            char_byte (range_min r), char_byte (range_max r)])"

definition table_code :: "nat list \<Rightarrow> nat \<Rightarrow> JumpTable \<Rightarrow> byte list \<Rightarrow> bool" where
  "table_code offs loc t code \<longleftrightarrow>
     (\<exists>s. (\<forall>q \<in> set (jt_destinations t). jump_fits offs s loc q) \<and>
        code = table_header t s @ concat (map (jump_bytes offs s loc) (jt_destinations t)))"

definition range_code :: "nat list \<Rightarrow> nat \<Rightarrow> Range \<Rightarrow> byte list \<Rightarrow> bool" where
  "range_code offs loc r code \<longleftrightarrow>
     (\<exists>s. jump_fits offs s loc (range_destination r) \<and>
        code = range_header r s @ jump_bytes offs s loc (range_destination r))"

definition final_code :: "nat list \<Rightarrow> nat \<Rightarrow> Transitions \<Rightarrow> byte list \<Rightarrow> bool" where
  "final_code offs loc t code \<longleftrightarrow>
     (if useFallbackTransition t
      then \<exists>s. jump_fits offs s loc (fallbackTransitionTarget t) \<and>
             code = opcode Jump s # jump_bytes offs s loc (fallbackTransitionTarget t)
      else code = [plain_opcode Terminate])"

fun seq_code :: "(nat \<Rightarrow> 'a \<Rightarrow> byte list \<Rightarrow> bool) \<Rightarrow> nat \<Rightarrow> 'a list \<Rightarrow> byte list \<Rightarrow> bool" where
  "seq_code P loc [] code \<longleftrightarrow> code = []"
| "seq_code P loc (x # xs) code \<longleftrightarrow>
     (\<exists>a b. code = a @ b \<and> P loc x a \<and> seq_code P (loc + length a) xs b)"

definition transitions_code :: "nat list \<Rightarrow> nat \<Rightarrow> Transitions \<Rightarrow> byte list \<Rightarrow> bool" where
  "transitions_code offs loc t code \<longleftrightarrow>
     (\<exists>a b c. code = a @ b @ c \<and>
        seq_code (table_code offs) loc (jumpTables t) a \<and>
        seq_code (range_code offs) (loc + length a) (ranges t) b \<and>
        final_code offs (loc + length a + length b) t c)"

definition action_code :: "u64 \<Rightarrow> byte list" where
  "action_code action =
     (if action AND ActionFlagMask \<noteq> 0
      then plain_opcode (if action AND IfConditionFlag \<noteq> 0 then TestFlagsAndAppendActionWithIfCondition
                         else TestFlagsAndAppendAction)
           # le_bytes 2 (uint (drop_bit 32 action)) @ le_bytes 4 (uint action)
      else plain_opcode (if action AND IfConditionFlag \<noteq> 0 then AppendActionWithIfCondition
                         else AppendAction)
           # le_bytes 4 (uint action))"

definition actions_code :: "u64 list \<Rightarrow> byte list" where
  "actions_code as = concat (map action_code as)"

section \<open>Emission and linking\<close>

definition emits :: "nat list \<Rightarrow> byte list \<Rightarrow> DFABytecodeCompiler \<Rightarrow> DFABytecodeCompiler \<Rightarrow> bool" where
  "emits offs code c c' \<longleftrightarrow>
     (\<exists>bs lrs. m_bytecode c' = m_bytecode c @ bs \<and> m_linkRecords c' = m_linkRecords c @ lrs \<and>
        length bs = length code \<and>
        (\<forall>pre post. length pre = length (m_bytecode c) \<longrightarrow>
           link offs lrs (pre @ bs @ post) = Inr (pre @ code @ post)))"

lemma link_append: "link offs (a @ b) bs = rbind (link offs a bs) (link offs b)"
  by (induction a arbitrary: bs) (auto simp: rbind_def split: sum.splits)

lemma emits_refl: "m_bytecode c' = m_bytecode c \<Longrightarrow> m_linkRecords c' = m_linkRecords c \<Longrightarrow> emits offs [] c c'"
  by (auto simp: emits_def)

lemma emits_length: "emits offs code c c' \<Longrightarrow> length (m_bytecode c') = length (m_bytecode c) + length code"
  by (auto simp: emits_def)

lemma emits_trans:
  assumes "emits offs a c c1" and "emits offs b c1 c2"
  shows "emits offs (a @ b) c c2"
proof -
  obtain bs1 lrs1 where 1: "m_bytecode c1 = m_bytecode c @ bs1" "m_linkRecords c1 = m_linkRecords c @ lrs1"
    "length bs1 = length a"
    "\<And>pre post. length pre = length (m_bytecode c) \<Longrightarrow> link offs lrs1 (pre @ bs1 @ post) = Inr (pre @ a @ post)"
    using assms(1) by (auto simp: emits_def)
  obtain bs2 lrs2 where 2: "m_bytecode c2 = m_bytecode c1 @ bs2" "m_linkRecords c2 = m_linkRecords c1 @ lrs2"
    "length bs2 = length b"
    "\<And>pre post. length pre = length (m_bytecode c1) \<Longrightarrow> link offs lrs2 (pre @ bs2 @ post) = Inr (pre @ b @ post)"
    using assms(2) by (auto simp: emits_def)
  have "link offs (lrs1 @ lrs2) (pre @ (bs1 @ bs2) @ post) = Inr (pre @ (a @ b) @ post)"
    if "length pre = length (m_bytecode c)" for pre post
    using 1(4) [OF that, of "bs2 @ post"] 2(4) [of "pre @ a" post] 1(1,3) that
    by (simp add: link_append)
  then show ?thesis
    unfolding emits_def using 1 2 by (intro exI [of _ "bs1 @ bs2"] exI [of _ "lrs1 @ lrs2"]) simp
qed

lemma emits_bytes: "emits offs bs c (append_bytes bs c)"
  by (auto simp: emits_def append_bytes_def)

lemma setBits_middle:
  assumes "length pre = index" and "length zs = n"
  shows "setBits n index v (pre @ zs @ post) = Inr (pre @ le_bytes n v @ post)"
  using assms by (simp add: setBits_def)

lemma le_bytes_3: "le_bytes 2 v @ le_bytes 1 (drop_bit 16 v) = le_bytes 3 v"
proof -
  have "drop_bit 16 v = v div 256 div 256"
    by (simp add: drop_bit_eq_div zdiv_zmult2_eq [symmetric])
  then show ?thesis by (simp add: numeral_2_eq_2 numeral_3_eq_3)
qed

lemma linkRecord_slot:
  assumes "fits s (int (offs ! q) - int loc)" and "offs ! q < 2 ^ 31 - 1" and "loc < 2 ^ 31"
    and "length pre = jumpLocation" and "length zs = jump_width s"
  shows "linkRecord offs \<lparr>lr_jumpSize = s, lr_longestPossibleJump = longest, lr_instructionLocation = loc,
      lr_jumpLocation = jumpLocation, lr_destinationNodeIndex = q\<rparr> (pre @ zs @ post) =
    Inr (pre @ jump_bytes offs s loc q @ post)"
proof -
  have d: "to_s32 (int (offs ! q) - int loc) = int (offs ! q) - int loc"
    using assms(2,3) by (intro to_s32_id) auto
  show ?thesis
  proof (cases s)
    case Int24
    let ?d = "int (offs ! q) - int loc"
    have zs: "take 2 zs @ drop 2 zs @ post = zs @ post" by (simp flip: append_assoc)
    have "setBits 2 jumpLocation ?d (pre @ zs @ post) = Inr (pre @ le_bytes 2 ?d @ drop 2 zs @ post)"
      using setBits_middle [of pre jumpLocation "take 2 zs" 2 ?d "drop 2 zs @ post"] assms(4,5) Int24 zs
      by simp
    moreover have "setBits 1 (jumpLocation + 2) (drop_bit 16 ?d) ((pre @ le_bytes 2 ?d) @ drop 2 zs @ post)
        = Inr ((pre @ le_bytes 2 ?d) @ le_bytes 1 (drop_bit 16 ?d) @ post)"
      using assms(4,5) Int24 by (intro setBits_middle) auto
    ultimately show ?thesis
      using assms d Int24 le_bytes_3 [of ?d]
      by (simp add: linkRecord_def Let_def jump_bytes_def fits_simps release_assert_def)
  qed (use assms d in \<open>auto simp: linkRecord_def Let_def jump_bytes_def fits_simps release_assert_def
        setBits_middle\<close>)
qed

lemma length_appendZeroes [simp]: "length (m_bytecode (appendZeroes s c)) = length (m_bytecode c) + jump_width s"
  by (cases s) (auto simp: append_int_def append_bytes_def)

lemma appendZeroes_append: "\<exists>zs. appendZeroes s c = append_bytes zs c \<and> length zs = jump_width s"
  by (cases s) (auto simp: append_int_def append_bytes_def)

text \<open>A jump slot: zeroes, and the record to fill them.\<close>

definition emit_slot ::
  "DFABytecodeJumpSize \<Rightarrow> int \<Rightarrow> nat \<Rightarrow> nat \<Rightarrow> DFABytecodeCompiler \<Rightarrow> DFABytecodeCompiler" where
  "emit_slot s longest loc q c =
     appendZeroes s (add_linkRecord s longest loc (length (m_bytecode c)) q c)"

lemma emits_slot:
  assumes "jump_fits offs s loc q" and "offs ! q < 2 ^ 31 - 1" and "loc < 2 ^ 31"
  shows "emits offs (jump_bytes offs s loc q) c (emit_slot s longest loc q c)"
proof -
  obtain zs where zs: "emit_slot s longest loc q c =
      append_bytes zs (add_linkRecord s longest loc (length (m_bytecode c)) q c)" "length zs = jump_width s"
    using appendZeroes_append emit_slot_def by metis
  have "link offs [\<lparr>lr_jumpSize = s, lr_longestPossibleJump = longest, lr_instructionLocation = loc,
      lr_jumpLocation = length (m_bytecode c), lr_destinationNodeIndex = q\<rparr>] (pre @ zs @ post) =
      Inr (pre @ jump_bytes offs s loc q @ post)" if "length pre = length (m_bytecode c)" for pre post
    using linkRecord_slot [OF _ assms(2,3) that zs(2)] assms(1) by (simp add: jump_fits_def)
  then show ?thesis
    unfolding emits_def zs(1)
    by (intro exI [of _ zs] exI [of _ "[_]"]) (auto simp: append_bytes_def add_linkRecord_def jump_bytes_def zs(2))
qed

text \<open>Each emitter as a header followed by slots.\<close>

definition jump_size :: "DFABytecodeCompiler \<Rightarrow> nat \<Rightarrow> nat \<Rightarrow> nat \<Rightarrow> DFABytecodeJumpSize" where
  "jump_size c loc i q = smallestPossibleJumpSize (longestPossibleJump c loc i q)"

definition table_jump_size :: "DFABytecodeCompiler \<Rightarrow> nat \<Rightarrow> nat \<Rightarrow> nat list \<Rightarrow> DFABytecodeJumpSize" where
  "table_jump_size c loc i qs = fold (\<lambda>q s. max_jumpSize s (jump_size c loc i q)) qs Int8"

lemma emitJump_slot:
  "emitJump i q c =
     emit_slot (jump_size c (length (m_bytecode c)) i q)
       (longestPossibleJump c (length (m_bytecode c)) i q) (length (m_bytecode c)) q
       (append_bytes [opcode Jump (jump_size c (length (m_bytecode c)) i q)] c)"
  by (simp add: emitJump_def Let_def emit_slot_def jump_size_def append_bytes_def)

lemma compileCheckForRange_slot:
  "compileCheckForRange i r c =
     emit_slot (jump_size c (length (m_bytecode c)) i (range_destination r))
       (longestPossibleJump c (length (m_bytecode c)) i (range_destination r)) (length (m_bytecode c))
       (range_destination r)
       (append_bytes (range_header r (jump_size c (length (m_bytecode c)) i (range_destination r))) c)"
  by (simp add: compileCheckForRange_def emitCheckValue_def emitCheckValueRange_def Let_def emit_slot_def
      jump_size_def append_bytes_def append_int_def range_header_def char_byte_def numeral_3_eq_3)

lemma compileJumpTable_slots:
  "compileJumpTable i t c =
     fold (\<lambda>q c'. emit_slot (table_jump_size c (length (m_bytecode c)) i (jt_destinations t))
               (longestPossibleJump c' (length (m_bytecode c)) i q) (length (m_bytecode c)) q c')
       (jt_destinations t)
       (append_bytes (table_header t (table_jump_size c (length (m_bytecode c)) i (jt_destinations t))) c)"
  by (simp add: compileJumpTable_def Let_def emit_slot_def jump_size_def table_jump_size_def append_bytes_def
      append_int_def table_header_def char_byte_def)

section \<open>Sizes\<close>

text \<open>Emission leaves the offsets alone.\<close>

definition same_offsets :: "DFABytecodeCompiler \<Rightarrow> DFABytecodeCompiler \<Rightarrow> bool" where
  "same_offsets c c' \<longleftrightarrow>
     m_nodeStartOffsets c' = m_nodeStartOffsets c \<and> m_maxNodeStartOffsets c' = m_maxNodeStartOffsets c"

lemma same_offsets_refl [simp]: "same_offsets c c"
  by (simp add: same_offsets_def)

lemma same_offsets_trans: "same_offsets a b \<Longrightarrow> same_offsets b c \<Longrightarrow> same_offsets a c"
  by (simp add: same_offsets_def)

lemma longestPossibleJump_cong: "same_offsets c c' \<Longrightarrow> longestPossibleJump c' = longestPossibleJump c"
  by (intro ext) (simp add: longestPossibleJump_def same_offsets_def)

lemma same_offsets_append_bytes [simp]: "same_offsets c (append_bytes bs c') = same_offsets c c'"
  by (simp add: same_offsets_def append_bytes_def)

lemma same_offsets_slot [simp]: "same_offsets c (emit_slot s longest loc q c') = same_offsets c c'"
  using appendZeroes_append [of s "add_linkRecord s longest loc (length (m_bytecode c')) q c'"]
  by (auto simp: same_offsets_def add_linkRecord_def append_bytes_def emit_slot_def)

lemma length_slot [simp]:
  "length (m_bytecode (emit_slot s longest loc q c)) = length (m_bytecode c) + jump_width s"
  by (simp add: add_linkRecord_def emit_slot_def)

lemma length_append_bytes [simp]: "length (m_bytecode (append_bytes bs c)) = length (m_bytecode c) + length bs"
  by (simp add: append_bytes_def)

text \<open>An operation that grows the code by at least one and at most \<open>n\<close> bytes.\<close>

definition grows :: "nat \<Rightarrow> DFABytecodeCompiler \<Rightarrow> DFABytecodeCompiler \<Rightarrow> bool" where
  "grows n c c' \<longleftrightarrow> same_offsets c c' \<and> length (m_bytecode c) \<le> length (m_bytecode c') \<and>
     length (m_bytecode c') \<le> length (m_bytecode c) + n"

lemma grows_refl [simp]: "grows 0 c c"
  by (simp add: grows_def)

lemma grows_trans: "grows m a b \<Longrightarrow> grows n b c \<Longrightarrow> grows (m + n) a c"
  by (auto simp: grows_def intro: same_offsets_trans)

lemma grows_fold:
  assumes "\<And>x c. x \<in> set xs \<Longrightarrow> grows (n x) c (f x c)"
  shows "grows (sum_list (map n xs)) c (fold f xs c)"
  using assms
proof (induction xs arbitrary: c)
  case (Cons x xs)
  then have "grows (n x) c (f x c)" "grows (sum_list (map n xs)) (f x c) (fold f xs (f x c))" by auto
  then show ?case using grows_trans by fastforce
qed simp

lemma same_offsets_slots [simp]:
  "same_offsets c (fold (\<lambda>q c'. emit_slot s (g c' q) loc q c') qs c') = same_offsets c c'"
  by (induction qs arbitrary: c') simp_all

lemma length_slots [simp]:
  "length (m_bytecode (fold (\<lambda>q c'. emit_slot s (g c' q) loc q c') qs c))
     = length (m_bytecode c) + jump_width s * length qs"
  by (induction qs arbitrary: c) simp_all

lemma compileJumpTable_grows:
  assumes "table_ok t"
  shows "grows (checkForJumpTableMaxBytecodeSize t) c (compileJumpTable i t c)"
proof -
  define s where "s = table_jump_size c (length (m_bytecode c)) i (jt_destinations t)"
  have "length (jt_destinations t) = jt_max t - jt_min t + 1"
    using assms by (cases "jt_destinations t") (auto simp: table_ok_def)
  then have "jump_width s * length (jt_destinations t) \<le> 4 * (jt_max t - jt_min t + 1)"
    using jump_width_bounds [of s] by (simp only: mult_le_mono)
  then show ?thesis
    unfolding compileJumpTable_slots s_def [symmetric]
    by (simp add: grows_def checkForJumpTableMaxBytecodeSize_def table_header_def)
qed

lemma compileCheckForRange_grows: "grows (checkForRangeMaxBytecodeSize r) c (compileCheckForRange i r c)"
  using jump_width_bounds [of "jump_size c (length (m_bytecode c)) i (range_destination r)"]
  by (simp add: grows_def compileCheckForRange_slot range_header_def checkForRangeMaxBytecodeSize_def)

lemma emitJump_grows: "grows 5 c (emitJump i q c)"
  using jump_width_bounds [of "jump_size c (length (m_bytecode c)) i q"]
  by (simp add: grows_def emitJump_slot)

lemma emitTerminate_grows: "grows 1 c (emitTerminate c)"
  by (simp add: grows_def emitTerminate_def)

lemma fold_add: "fold (\<lambda>x n. n + f x) xs k = k + sum_list (map f xs)" for k :: nat
  by (induction xs arbitrary: k) auto

lemma compileNodeTransitions_grows:
  assumes "sorted_from 0 (node_transitions d (dfa_nodes d ! i))"
  shows "grows (nodeTransitionsMaxBytecodeSize d (dfa_nodes d ! i)) c (compileNodeTransitions d i c)"
proof -
  let ?T = "transitions d (dfa_nodes d ! i)"
  let ?c1 = "fold (compileJumpTable i) (jumpTables ?T) c"
  let ?c2 = "fold (compileCheckForRange i) (ranges ?T) ?c1"
  have "grows (sum_list (map checkForJumpTableMaxBytecodeSize (jumpTables ?T))) c ?c1"
    using transitions_ok(1) [OF assms] compileJumpTable_grows by (intro grows_fold) blast
  moreover have "grows (sum_list (map checkForRangeMaxBytecodeSize (ranges ?T))) ?c1 ?c2"
    using compileCheckForRange_grows by (intro grows_fold) blast
  ultimately have "grows (sum_list (map checkForJumpTableMaxBytecodeSize (jumpTables ?T)) +
      sum_list (map checkForRangeMaxBytecodeSize (ranges ?T))) c ?c2"
    by (rule grows_trans)
  then show ?thesis
    using grows_trans [OF _ emitJump_grows] grows_trans [OF _ emitTerminate_grows]
    by (auto simp: compileNodeTransitions_def nodeTransitionsMaxBytecodeSize_def Let_def fold_add)
qed

lemma length_action_code: "length (action_code a) = appendActionBytecodeSize a"
  by (simp add: action_code_def appendActionBytecodeSize_def)

lemma length_actions_code: "length (actions_code as) = sum_list (map appendActionBytecodeSize as)"
  by (simp add: actions_code_def length_concat length_action_code comp_def)

lemma emitAppendAction_code: "emitAppendAction a c = append_bytes (action_code a) c"
  by (simp add: emitAppendAction_def action_code_def append_int_def append_bytes_def Let_def)

lemma fold_emitAppendAction: "fold emitAppendAction as c = append_bytes (actions_code as) c"
  by (induction as arbitrary: c)
    (simp_all add: emitAppendAction_code actions_code_def append_bytes_def)

section \<open>The code of one node, once linked\<close>

text \<open>Every jump from node \<open>i\<close> to node \<open>q\<close> emitted before \<open>limit\<close> holds its final distance.\<close>

definition jump_ok :: "nat list \<Rightarrow> DFABytecodeCompiler \<Rightarrow> nat \<Rightarrow> nat \<Rightarrow> nat \<Rightarrow> bool" where
  "jump_ok offs c i limit q \<longleftrightarrow>
     offs ! q < 2 ^ 31 - 1 \<and> limit \<le> 2 ^ 31 \<and>
     (\<forall>loc. m_nodeStartOffsets c ! i \<le> loc \<and> loc < limit \<longrightarrow> jump_fits offs (jump_size c loc i q) loc q)"

lemma jump_ok_cong:
  assumes "same_offsets c c'"
  shows "jump_ok offs c' i limit q = jump_ok offs c i limit q"
proof -
  have "m_nodeStartOffsets c' = m_nodeStartOffsets c" using assms by (simp add: same_offsets_def)
  then show ?thesis
    unfolding jump_ok_def jump_size_def longestPossibleJump_cong [OF assms] by simp
qed

lemma jump_okD:
  assumes "jump_ok offs c i limit q" and "m_nodeStartOffsets c ! i \<le> loc" and "loc < limit"
  shows "jump_fits offs (jump_size c loc i q) loc q" and "offs ! q < 2 ^ 31 - 1" and "loc < 2 ^ 31"
  using assms by (auto simp: jump_ok_def)

lemma compileCheckForRange_emits:
  assumes "jump_ok offs c i limit (range_destination r)"
    and "m_nodeStartOffsets c ! i \<le> length (m_bytecode c)" and "length (m_bytecode c) < limit"
  shows "\<exists>code. range_code offs (length (m_bytecode c)) r code \<and> emits offs code c (compileCheckForRange i r c)"
proof -
  let ?loc = "length (m_bytecode c)"
  let ?s = "jump_size c ?loc i (range_destination r)"
  note J = jump_okD [OF assms]
  have "emits offs (range_header r ?s @ jump_bytes offs ?s ?loc (range_destination r)) c (compileCheckForRange i r c)"
    unfolding compileCheckForRange_slot by (intro emits_trans [OF emits_bytes] emits_slot J)
  then show ?thesis using J(1) by (auto simp: range_code_def)
qed

lemma emitJump_emits:
  assumes "jump_ok offs c i limit (fallbackTransitionTarget t)" and "useFallbackTransition t"
    and "m_nodeStartOffsets c ! i \<le> length (m_bytecode c)" and "length (m_bytecode c) < limit"
  shows "\<exists>code. final_code offs (length (m_bytecode c)) t code \<and>
    emits offs code c (emitJump i (fallbackTransitionTarget t) c)"
proof -
  let ?q = "fallbackTransitionTarget t"
  let ?loc = "length (m_bytecode c)"
  let ?s = "jump_size c ?loc i ?q"
  note J = jump_okD [OF assms(1,3,4)]
  have "emits offs ([opcode Jump ?s] @ jump_bytes offs ?s ?loc ?q) c (emitJump i ?q c)"
    unfolding emitJump_slot by (intro emits_trans [OF emits_bytes] emits_slot J)
  then show ?thesis using J(1) assms(2) by (auto simp: final_code_def)
qed

lemma max_jumpSize_width:
  "jump_width a \<le> jump_width (max_jumpSize a b)" "jump_width b \<le> jump_width (max_jumpSize a b)"
  by (cases a; cases b; simp add: max_jumpSize_def)+

lemma table_jump_size_width:
  "q \<in> set qs \<Longrightarrow> jump_width (jump_size c loc i q) \<le> jump_width (table_jump_size c loc i qs)"
proof -
  have "jump_width s \<le> jump_width (fold (\<lambda>q s. max_jumpSize s (jump_size c loc i q)) qs s) \<and>
      (q \<in> set qs \<longrightarrow> jump_width (jump_size c loc i q) \<le>
        jump_width (fold (\<lambda>q s. max_jumpSize s (jump_size c loc i q)) qs s))" for s
  proof (induction qs arbitrary: s)
    case (Cons p qs)
    let ?m = "max_jumpSize s (jump_size c loc i p)"
    show ?case
      using Cons.IH [of ?m] max_jumpSize_width [where a = s and b = "jump_size c loc i p"]
      by auto
  qed simp
  then show "q \<in> set qs \<Longrightarrow> ?thesis" by (simp add: table_jump_size_def)
qed

lemma emits_slots:
  assumes "\<And>q. q \<in> set qs \<Longrightarrow> jump_fits offs s loc q \<and> offs ! q < 2 ^ 31 - 1" and "loc < 2 ^ 31"
  shows "emits offs (concat (map (jump_bytes offs s loc) qs)) c (fold (\<lambda>q c'. emit_slot s (g c' q) loc q c') qs c)"
  using assms(1)
proof (induction qs arbitrary: c)
  case Nil
  then show ?case by (simp add: emits_refl)
next
  case (Cons q qs)
  have "emits offs (jump_bytes offs s loc q) c (emit_slot s (g c q) loc q c)"
    using Cons.prems [of q] assms(2) by (intro emits_slot) auto
  moreover have "emits offs (concat (map (jump_bytes offs s loc) qs)) (emit_slot s (g c q) loc q c)
      (fold (\<lambda>q c'. emit_slot s (g c' q) loc q c') qs (emit_slot s (g c q) loc q c))"
    using Cons by simp
  ultimately show ?case by (simp add: emits_trans)
qed

lemma compileJumpTable_emits:
  assumes "\<And>q. q \<in> set (jt_destinations t) \<Longrightarrow> jump_ok offs c i limit q"
    and "m_nodeStartOffsets c ! i \<le> length (m_bytecode c)" and "length (m_bytecode c) < limit"
    and "limit \<le> 2 ^ 31"
  shows "\<exists>code. table_code offs (length (m_bytecode c)) t code \<and> emits offs code c (compileJumpTable i t c)"
proof -
  let ?loc = "length (m_bytecode c)"
  let ?s = "table_jump_size c ?loc i (jt_destinations t)"
  have J: "jump_fits offs ?s ?loc q \<and> offs ! q < 2 ^ 31 - 1" if "q \<in> set (jt_destinations t)" for q
    using jump_okD [OF assms(1) [OF that] assms(2,3)] table_jump_size_width [OF that]
    by (auto simp: jump_fits_def intro: jump_width_mono)
  have "emits offs (table_header t ?s @ concat (map (jump_bytes offs ?s ?loc) (jt_destinations t))) c
      (compileJumpTable i t c)"
    unfolding compileJumpTable_slots
    using assms(3,4) J by (intro emits_trans [OF emits_bytes] emits_slots) auto
  then show ?thesis using J by (auto simp: table_code_def)
qed

lemma seq_emits:
  assumes "\<And>x c. x \<in> set xs \<Longrightarrow> same_offsets c0 c \<Longrightarrow> lo \<le> length (m_bytecode c) \<Longrightarrow>
      length (m_bytecode c) < limit \<Longrightarrow> \<exists>code. P (length (m_bytecode c)) x code \<and> emits offs code c (f x c)"
    and "\<And>x c. x \<in> set xs \<Longrightarrow> grows (n x) c (f x c)"
    and "same_offsets c0 c" and "lo \<le> length (m_bytecode c)"
    and "length (m_bytecode (fold f xs c)) < limit"
  shows "\<exists>code. seq_code P (length (m_bytecode c)) xs code \<and> emits offs code c (fold f xs c)"
  using assms
proof (induction xs arbitrary: c)
  case Nil
  then show ?case by (simp add: emits_refl)
next
  case (Cons x xs)
  have g: "grows (n x) c (f x c)" using Cons.prems(2) by simp
  moreover have "grows (sum_list (map n xs)) (f x c) (fold f xs (f x c))"
    using Cons.prems(2) by (intro grows_fold) simp
  ultimately have len: "length (m_bytecode c) < limit" "lo \<le> length (m_bytecode (f x c))"
    and off: "same_offsets c0 (f x c)"
    using Cons.prems(3,4,5) by (auto simp: grows_def intro: same_offsets_trans)
  obtain a where a: "P (length (m_bytecode c)) x a" "emits offs a c (f x c)"
    using Cons.prems(1) [of x c] Cons.prems(3,4) len by auto
  obtain b where b: "seq_code P (length (m_bytecode (f x c))) xs b" "emits offs b (f x c) (fold f xs (f x c))"
    using Cons.IH [of "f x c"] Cons.prems len off by auto
  show ?case
    using a b emits_trans [OF a(2) b(2)] emits_length [OF a(2)]
    by (intro exI [of _ "a @ b"]) auto
qed

lemma tables_emits:
  assumes "\<forall>t \<in> set ts. table_ok t"
    and "\<And>q t. t \<in> set ts \<Longrightarrow> q \<in> set (jt_destinations t) \<Longrightarrow> jump_ok offs c i limit q"
    and "m_nodeStartOffsets c ! i \<le> length (m_bytecode c)" and "limit \<le> 2 ^ 31"
    and "length (m_bytecode (fold (compileJumpTable i) ts c)) < limit"
  shows "\<exists>code. seq_code (table_code offs) (length (m_bytecode c)) ts code \<and>
    emits offs code c (fold (compileJumpTable i) ts c)"
proof (rule seq_emits [of ts c "m_nodeStartOffsets c ! i" limit "table_code offs" offs "compileJumpTable i"
      checkForJumpTableMaxBytecodeSize c])
  fix t c' assume t: "t \<in> set ts" and c': "same_offsets c c'" and
    len: "m_nodeStartOffsets c ! i \<le> length (m_bytecode c')" "length (m_bytecode c') < limit"
  have "jump_ok offs c' i limit q" if "q \<in> set (jt_destinations t)" for q
    using assms(2) [OF t that] jump_ok_cong [OF c'] by simp
  moreover have "m_nodeStartOffsets c' ! i \<le> length (m_bytecode c')"
    using c' len by (simp add: same_offsets_def)
  ultimately show "\<exists>code. table_code offs (length (m_bytecode c')) t code \<and> emits offs code c' (compileJumpTable i t c')"
    using len assms(4) by (intro compileJumpTable_emits)
qed (use assms compileJumpTable_grows in simp_all)

lemma ranges_emits:
  assumes "\<And>r. r \<in> set rs \<Longrightarrow> jump_ok offs c i limit (range_destination r)"
    and "m_nodeStartOffsets c ! i \<le> length (m_bytecode c)"
    and "length (m_bytecode (fold (compileCheckForRange i) rs c)) < limit"
  shows "\<exists>code. seq_code (range_code offs) (length (m_bytecode c)) rs code \<and>
    emits offs code c (fold (compileCheckForRange i) rs c)"
proof (rule seq_emits [of rs c "m_nodeStartOffsets c ! i" limit "range_code offs" offs "compileCheckForRange i"
      checkForRangeMaxBytecodeSize c])
  fix r c' assume r: "r \<in> set rs" and c': "same_offsets c c'" and
    len: "m_nodeStartOffsets c ! i \<le> length (m_bytecode c')" "length (m_bytecode c') < limit"
  have "jump_ok offs c' i limit (range_destination r)"
    using assms(1) [OF r] jump_ok_cong [OF c'] by simp
  moreover have "m_nodeStartOffsets c' ! i \<le> length (m_bytecode c')"
    using c' len by (simp add: same_offsets_def)
  ultimately show "\<exists>code. range_code offs (length (m_bytecode c')) r code \<and> emits offs code c' (compileCheckForRange i r c')"
    using len by (intro compileCheckForRange_emits)
qed (use assms compileCheckForRange_grows in simp_all)

lemma final_emits:
  assumes "useFallbackTransition t \<Longrightarrow> jump_ok offs c i limit (fallbackTransitionTarget t)"
    and "m_nodeStartOffsets c ! i \<le> length (m_bytecode c)" and "length (m_bytecode c) < limit"
  shows "\<exists>code. final_code offs (length (m_bytecode c)) t code \<and>
    emits offs code c (if useFallbackTransition t then emitJump i (fallbackTransitionTarget t) c else emitTerminate c)"
proof (cases "useFallbackTransition t")
  case True
  then show ?thesis using emitJump_emits [OF _ True assms(2,3)] assms(1) by simp
next
  case False
  then show ?thesis using emits_bytes by (auto simp: final_code_def emitTerminate_def)
qed

lemma compileNodeTransitions_emits:
  fixes d i
  defines "t \<equiv> transitions d (dfa_nodes d ! i)"
  assumes srt: "sorted_from 0 (node_transitions d (dfa_nodes d ! i))"
    and ok: "\<And>q. q \<in> jump_targets t \<Longrightarrow> jump_ok offs c i limit q"
    and lo: "m_nodeStartOffsets c ! i \<le> length (m_bytecode c)"
    and hi: "length (m_bytecode (compileNodeTransitions d i c)) \<le> limit" and lim: "limit \<le> 2 ^ 31"
  shows "\<exists>code. transitions_code offs (length (m_bytecode c)) t code \<and>
    emits offs code c (compileNodeTransitions d i c)"
proof -
  define c1 where "c1 = fold (compileJumpTable i) (jumpTables t) c"
  define c2 where "c2 = fold (compileCheckForRange i) (ranges t) c1"
  define c3 where "c3 = compileNodeTransitions d i c"
  have c3: "c3 = (if useFallbackTransition t then emitJump i (fallbackTransitionTarget t) c2 else emitTerminate c2)"
    unfolding c3_def c2_def c1_def compileNodeTransitions_def t_def Let_def by (rule refl)
  have tabs: "\<forall>t \<in> set (jumpTables t). table_ok t" using transitions_ok(1) [OF srt] by (simp add: t_def)
  have g1: "grows (sum_list (map checkForJumpTableMaxBytecodeSize (jumpTables t))) c c1"
    unfolding c1_def using tabs compileJumpTable_grows by (intro grows_fold) blast
  have g2: "grows (sum_list (map checkForRangeMaxBytecodeSize (ranges t))) c1 c2"
    unfolding c2_def using compileCheckForRange_grows by (intro grows_fold) blast
  have "length (m_bytecode c2) < length (m_bytecode c3)"
    using jump_width_bounds [of "jump_size c2 (length (m_bytecode c2)) i (fallbackTransitionTarget t)"]
    unfolding c3 by (simp add: emitJump_slot emitTerminate_def)
  then have len: "length (m_bytecode c1) < limit" "length (m_bytecode c2) < limit"
    using g1 g2 hi by (simp_all add: grows_def c3_def)
  have off: "same_offsets c c1" "same_offsets c c2"
    using g1 g2 by (auto simp: grows_def intro: same_offsets_trans)
  then have los: "m_nodeStartOffsets c1 ! i \<le> length (m_bytecode c1)" "m_nodeStartOffsets c2 ! i \<le> length (m_bytecode c2)"
    using lo g1 g2 by (simp_all add: grows_def same_offsets_def)
  obtain a where a: "seq_code (table_code offs) (length (m_bytecode c)) (jumpTables t) a" "emits offs a c c1"
    using tables_emits [OF tabs, of offs c i limit] ok lo lim len(1) unfolding c1_def
    by (auto simp: jump_targets_def)
  obtain b where b: "seq_code (range_code offs) (length (m_bytecode c1)) (ranges t) b" "emits offs b c1 c2"
    using ranges_emits [of "ranges t" offs c1 i limit] ok los(1) len(2) jump_ok_cong [OF off(1)] unfolding c2_def
    by (auto simp: jump_targets_def)
  obtain e where e: "final_code offs (length (m_bytecode c2)) t e" "emits offs e c2 c3"
    using final_emits [of t offs c2 i limit] ok los(2) len(2) jump_ok_cong [OF off(2)] unfolding c3
    by (auto simp: jump_targets_def)
  have "transitions_code offs (length (m_bytecode c)) t (a @ b @ e)"
    unfolding transitions_code_def using a(1) b(1) e(1) emits_length [OF a(2)] emits_length [OF b(2)]
    by (intro exI [of _ a] exI [of _ b] exI [of _ e]) simp
  moreover have "emits offs (a @ b @ e) c c3"
    by (rule emits_trans [OF a(2) emits_trans [OF b(2) e(2)]])
  ultimately show ?thesis unfolding c3_def by blast
qed

end
