(* ===== verification/Code_Offsets.thy ===== *)
theory Code_Offsets
  imports Code_Layout
begin

text \<open>
  The offsets of the nodes. The compiler reserves for every node the worst case in which no jump is
  compacted; the code of a node is never longer than that, so the distance between two nodes is never
  more than the distance between their worst-case offsets, and a jump size chosen from the latter holds
  the former. Hence \<open>compile\<close> never fails and lays the nodes out as \<open>layout\<close> says.
\<close>

section \<open>Folds over the nodes\<close>

lemma fold_filter_if: "fold (\<lambda>i c. if P i then f i c else c) xs c = fold f (filter P xs) c"
  by (induction xs arbitrary: c) auto

definition other_nodes :: "DFA \<Rightarrow> nat list" where
  "other_nodes d = filter (\<lambda>i. i \<noteq> dfa_root d) [0 ..< length (dfa_nodes d)]"

lemma other_nodes_simps [simp]:
  "distinct (other_nodes d)" "i \<in> set (other_nodes d) \<longleftrightarrow> i < length (dfa_nodes d) \<and> i \<noteq> dfa_root d"
  by (auto simp: other_nodes_def)

lemma compileNodes_other_nodes:
  "compileNodes d c = fold (\<lambda>i. compileNode d i False) (other_nodes d) (compileNode d (dfa_root d) True c)"
  by (simp add: compileNodes_def other_nodes_def fold_filter_if [symmetric])

abbreviation node_max :: "DFA \<Rightarrow> nat \<Rightarrow> nat" where
  "node_max \<equiv> compiledNodeMaxBytecodeSize"

definition dfa_max_size :: "DFA \<Rightarrow> nat" where
  "dfa_max_size d = 4 + node_max d (dfa_root d) + sum_list (map (node_max d) (other_nodes d))"

section \<open>A bound on the size of a node\<close>

text \<open>At most 128 ranges are collected; a jump table is no larger than the checks it replaces. So the
  transitions of a node take at most 901 bytes.\<close>

definition open_ranges :: "range_state \<Rightarrow> nat" where
  "open_ranges st = length (rs_ranges st) + (if rs_rangeMin st = None then 0 else 1)"

lemma rangeStep_open_ranges: "open_ranges (rangeStep i st) \<le> Suc (open_ranges st)"
  by (simp add: open_ranges_def rangeStep_def Let_def split: option.split)

lemma fold_rangeStep_open_ranges: "open_ranges (fold rangeStep [0 ..< n] st) \<le> n + open_ranges st"
proof (induction n)
  case (Suc n)
  then show ?case using rangeStep_open_ranges [of n "fold rangeStep [0 ..< n] st"] by simp
qed simp

lemma length_collectRanges: "length (collectRanges D) \<le> 128"
proof -
  define st where
    "st = fold rangeStep [0 ..< 128] \<lparr>rs_destinations = D, rs_ranges = [], rs_rangeMin = None\<rparr>"
  have "open_ranges st \<le> 128 + open_ranges \<lparr>rs_destinations = D, rs_ranges = [], rs_rangeMin = None\<rparr>"
    unfolding st_def by (rule fold_rangeStep_open_ranges)
  moreover have "length (collectRanges D) = open_ranges st"
    unfolding collectRanges_def Let_def st_def [symmetric] by (simp add: open_ranges_def split: option.split)
  ultimately show ?thesis by (simp add: open_ranges_def)
qed

definition tables_size :: "JumpTable list \<Rightarrow> nat" where
  "tables_size ts = sum_list (map checkForJumpTableMaxBytecodeSize ts)"

lemma extractJumpTable_size:
  assumes "run rs b e" and "extractJumpTable rs b e = (t, rs')"
  shows "checkForJumpTableMaxBytecodeSize t + 7 * length rs' \<le> 7 * length rs"
proof -
  have run: "b \<le> e" "e < length rs" "range_max (rs ! e) = range_min (rs ! b) + (e - b)"
    using assms(1) by (auto simp: run_def dest!: spec [of _ "e - b"])
  have "rs' = take b rs @ drop (e + 1) rs" "jt_min t = range_min (rs ! b)" "jt_max t = range_max (rs ! e)"
    using assms(2) by (auto simp: extractJumpTable_def)
  then show ?thesis
    using run by (simp add: checkForJumpTableMaxBytecodeSize_def)
qed

lemma jumpTableLoop_size:
  assumes "run_inv rs pos base" and "jumpTableLoop rs ts pos base = (rs', ts', base')"
    and "\<forall>r \<in> set rs. range_max r < 128"
  shows "tables_size ts' + 7 * length rs' \<le> tables_size ts + 7 * length rs"
  using assms
proof (induction rs ts pos base rule: jumpTableLoop.induct)
  case (1 rs ts pos base)
  note IH = "1.IH" and inv = "1.prems"(1) and res = "1.prems"(2) and bound = "1.prems"(3)
  show ?case
  proof (cases "pos < length rs")
    case False
    then show ?thesis using res by (subst (asm) jumpTableLoop.simps) auto
  next
    case pos: True
    show ?thesis
    proof (cases base)
      case None
      let ?base = "if range_min (rs ! pos) = range_max (rs ! pos) then Some pos else None"
      have "jumpTableLoop rs ts (pos + 1) ?base = (rs', ts', base')"
        using res pos None by (subst (asm) jumpTableLoop.simps) (auto simp: Let_def)
      moreover have "run_inv rs (pos + 1) ?base"
        using pos run_start by (auto simp: run_inv_def)
      ultimately show ?thesis
        using IH(1,2) [OF pos refl None] bound by (auto split: if_splits)
    next
      case (Some b)
      have b: "b < pos" "run rs b (pos - 1)" using inv Some by (auto simp: run_inv_def)
      let ?stop = "range_min (rs ! pos) \<noteq> range_max (rs ! pos)
                \<or> range_caseSensitive (rs ! b) \<noteq> range_caseSensitive (rs ! pos)
                \<or> range_max (rs ! (pos - 1)) + 1 \<noteq> range_min (rs ! pos)"
      consider (extend) "\<not> ?stop" | (drop) "?stop" "\<not> pos - b > 1" | (make) "?stop" "pos - b > 1"
        by blast
      then show ?thesis
      proof cases
        case extend
        then have "jumpTableLoop rs ts (pos + 1) base = (rs', ts', base')"
          using res pos Some by (subst (asm) jumpTableLoop.simps) (auto simp: Let_def)
        moreover have "run_inv rs (pos + 1) base"
          using run_extend [OF b(2,1) pos] extend pos b Some by (auto simp: run_inv_def)
        ultimately show ?thesis using IH(5) [OF pos refl Some extend] Some bound by auto
      next
        case drop
        then have "jumpTableLoop rs ts (pos + 1) None = (rs', ts', base')"
          using res pos Some by (subst (asm) jumpTableLoop.simps) (auto simp: Let_def)
        moreover have "run_inv rs (pos + 1) None"
          using pos by (simp add: run_inv_def)
        ultimately show ?thesis using IH(4) [OF pos refl Some drop] bound by auto
      next
        case make
        obtain t rs2 where x: "extractJumpTable rs b (pos - 1) = (t, rs2)" by force
        have "jumpTableLoop rs2 (ts @ [t]) (b + 1) None = (rs', ts', base')"
          using res pos Some make x by (subst (asm) jumpTableLoop.simps) (auto simp: Let_def)
        moreover have "run_inv rs2 (b + 1) None" "\<forall>r \<in> set rs2. range_max r < 128"
          using extractJumpTable_entries(3,4) [OF b(2) bound x] bound pos b by (auto simp: run_inv_def)
        ultimately have "tables_size ts' + 7 * length rs' \<le> tables_size (ts @ [t]) + 7 * length rs2"
          using IH(3) [OF pos refl Some make x [symmetric] refl] by simp
        then show ?thesis using extractJumpTable_size [OF b(2) x] by (simp add: tables_size_def)
      qed
    qed
  qed
qed

lemma extractJumpTables_size:
  assumes "\<forall>r \<in> set rs0. range_max r < 128" and "extractJumpTables rs0 = (rs, ts)"
  shows "tables_size ts + 7 * length rs \<le> 7 * length rs0"
proof -
  obtain rs1 ts1 base where loop: "jumpTableLoop rs0 [] 0 None = (rs1, ts1, base)"
    using prod_cases3 by blast
  have L: "tables_size ts1 + 7 * length rs1 \<le> 7 * length rs0"
    using jumpTableLoop_size [OF _ loop assms(1)] by (simp add: run_inv_def tables_size_def)
  have inv: "run_inv rs1 (length rs1) base"
    using jumpTableLoop_entries [OF _ assms(1) _ loop] by (simp add: run_inv_def)
  show ?thesis
  proof (cases "\<exists>b. base = Some b \<and> length rs1 - b > 1")
    case True
    then obtain b where b: "base = Some b" "length rs1 - b > 1" by blast
    obtain t rs2 where x: "extractJumpTable rs1 b (length rs1 - 1) = (t, rs2)" by force
    have "run rs1 b (length rs1 - 1)" using inv b by (simp add: run_inv_def)
    note X = extractJumpTable_size [OF this x]
    have "rs = rs2 \<and> ts = ts1 @ [t]"
      using assms(2) loop b x by (simp add: extractJumpTables_def)
    then show ?thesis using X L by (simp add: tables_size_def)
  next
    case False
    then have "rs = rs1 \<and> ts = ts1"
      using assms(2) loop by (auto simp: extractJumpTables_def split: option.splits)
    then show ?thesis using L by simp
  qed
qed

lemma nodeTransitionsMaxBytecodeSize_bound: "nodeTransitionsMaxBytecodeSize d n \<le> 901"
proof -
  let ?T = "transitions d n" and ?D = "node_destinations d n"
  have len: "length ?D = 128" by (simp add: node_destinations_def)
  have "\<forall>r \<in> set (collectRanges ?D). range_max r < 128"
    using collectRanges_correct(1) [OF len] range_okD(1) by blast
  from extractJumpTables_size [OF this transitions_fields(3) [symmetric]]
  have "tables_size (jumpTables ?T) + 7 * length (ranges ?T) \<le> 896"
    using length_collectRanges [of ?D] by simp
  moreover have "sum_list (map checkForRangeMaxBytecodeSize (ranges ?T)) \<le> 7 * length (ranges ?T)"
    by (rule sum_list_le_const) (simp add: checkForRangeMaxBytecodeSize_def)
  ultimately have "tables_size (jumpTables ?T) + sum_list (map checkForRangeMaxBytecodeSize (ranges ?T)) \<le> 896"
    by linarith
  then show ?thesis
    by (simp add: nodeTransitionsMaxBytecodeSize_def Let_def fold_add tables_size_def)
qed

lemma node_max_bound: "node_max d i \<le> 901 + 7 * m_actionsLength (dfa_nodes d ! i)"
proof -
  have "sum_list (map appendActionBytecodeSize as) \<le> 7 * length as" for as
    by (rule sum_list_le_const) (simp add: appendActionBytecodeSize_def)
  from this [of "node_actions d (dfa_nodes d ! i)"] show ?thesis
    using nodeTransitionsMaxBytecodeSize_bound [of d "dfa_nodes d ! i"]
    by (simp add: compiledNodeMaxBytecodeSize_def Let_def fold_add node_actions_def)
qed

definition dfa_size_bound :: "DFA \<Rightarrow> nat" where
  "dfa_size_bound d = 4 + sum_list (map (\<lambda>n. 901 + 7 * m_actionsLength n) (dfa_nodes d))"

lemma dfa_max_size_bound:
  assumes "dfa_root d < length (dfa_nodes d)"
  shows "dfa_max_size d \<le> dfa_size_bound d"
proof -
  let ?f = "\<lambda>i. 901 + 7 * m_actionsLength (dfa_nodes d ! i)"
  have nodes: "map (\<lambda>n. 901 + 7 * m_actionsLength n) (dfa_nodes d) = map ?f [0 ..< length (dfa_nodes d)]"
    by (rule nth_equalityI) simp_all
  have "set (dfa_root d # other_nodes d) = set [0 ..< length (dfa_nodes d)]"
    "distinct (dfa_root d # other_nodes d)"
    using assms by (auto simp: other_nodes_def)
  then have perm: "sum_list (map ?f (dfa_root d # other_nodes d)) = sum_list (map ?f [0 ..< length (dfa_nodes d)])"
    using sum.distinct_set_conv_list [of "dfa_root d # other_nodes d" ?f]
      sum.distinct_set_conv_list [of "[0 ..< length (dfa_nodes d)]" ?f] by simp
  have "sum_list (map (node_max d) (dfa_root d # other_nodes d)) \<le> sum_list (map ?f (dfa_root d # other_nodes d))"
    by (rule sum_list_mono) (rule node_max_bound)
  then show ?thesis
    unfolding dfa_max_size_def dfa_size_bound_def nodes perm [symmetric] by simp
qed

section \<open>Worst-case offsets\<close>

definition place :: "DFA \<Rightarrow> nat \<Rightarrow> nat list \<times> nat \<Rightarrow> nat list \<times> nat" where
  "place d i = (\<lambda>(offs, next). (offs[i := next], next + node_max d i))"

lemma fold_place:
  "snd (fold (place d) xs (offs, next)) = next + sum_list (map (node_max d) xs)"
  "j \<notin> set xs \<Longrightarrow> fst (fold (place d) xs (offs, next)) ! j = offs ! j"
  "length (fst (fold (place d) xs (offs, next))) = length offs"
  by (induction xs arbitrary: offs "next") (auto simp: place_def)

lemma fold_place_at:
  assumes "distinct (ys @ i # zs)" and "i < length offs"
  shows "fst (fold (place d) (ys @ i # zs) (offs, next)) ! i = next + sum_list (map (node_max d) ys)"
proof -
  obtain o1 n1 where 1: "fold (place d) ys (offs, next) = (o1, n1)" by force
  have "n1 = next + sum_list (map (node_max d) ys)" "i < length o1"
    using fold_place(1,3) [of d ys offs "next"] 1 assms(2) by auto
  then show ?thesis
    using assms(1) 1 fold_place(2) [of i zs d "o1[i := n1]" "n1 + node_max d i"]
    by (auto simp: place_def)
qed

lemma node_max_unkilled:
  assumes "\<not> isKilled (dfa_nodes d ! i)"
  shows "node_max d i = length (actions_code (node_actions d (dfa_nodes d ! i)))
    + nodeTransitionsMaxBytecodeSize d (dfa_nodes d ! i)"
  using assms by (simp add: compiledNodeMaxBytecodeSize_def fold_add length_actions_code Let_def)

lemma node_max_killed: "isKilled (dfa_nodes d ! i) \<Longrightarrow> node_max d i = 0"
  by (simp add: compiledNodeMaxBytecodeSize_def)

lemma maxNodeStartOffsets_place:
  "maxNodeStartOffsets d = fst (fold (place d) (other_nodes d)
     ((replicate (length (dfa_nodes d)) 0)
        [dfa_root d := 4 + length (actions_code (node_actions d (dfa_nodes d ! dfa_root d)))],
      4 + node_max d (dfa_root d)))"
proof -
  have "(\<lambda>i (offs, next). if i \<noteq> dfa_root d then (offs[i := next], next + node_max d i) else (offs, next))
      = (\<lambda>i s. if i \<noteq> dfa_root d then place d i s else s)"
    by (intro ext) (auto simp: place_def)
  then show ?thesis
    unfolding maxNodeStartOffsets_def Let_def
    by (simp only: fold_filter_if other_nodes_def [symmetric] fold_add length_actions_code sizeof_DFAHeader_def
        add_0)
qed

lemma max_root:
  assumes "dfa_root d < length (dfa_nodes d)"
  shows "maxNodeStartOffsets d ! dfa_root d =
    4 + length (actions_code (node_actions d (dfa_nodes d ! dfa_root d)))"
  unfolding maxNodeStartOffsets_place using assms by (subst fold_place(2)) auto

lemma max_other:
  assumes "other_nodes d = ys @ i # zs"
  shows "maxNodeStartOffsets d ! i = 4 + node_max d (dfa_root d) + sum_list (map (node_max d) ys)"
proof -
  have "distinct (ys @ i # zs)" "i < length (dfa_nodes d)"
    using other_nodes_simps(1) [of d] other_nodes_simps(2) [of i d] assms by auto
  then show ?thesis
    unfolding maxNodeStartOffsets_place assms by (subst fold_place_at) auto
qed

section \<open>Offsets of the emitted code\<close>

lemma wf_dfa_live:
  assumes "wf_dfa d" and "live d i"
  shows "sorted_from 0 (node_transitions d (dfa_nodes d ! i))"
    and "q \<in> jump_targets (transitions d (dfa_nodes d ! i)) \<Longrightarrow> live d q"
proof -
  have wf: "wf_node d (dfa_nodes d ! i)" using assms by (auto simp: wf_dfa_def live_def)
  then show srt: "sorted_from 0 (node_transitions d (dfa_nodes d ! i))" by (simp add: wf_node_def)
  assume "q \<in> jump_targets (transitions d (dfa_nodes d ! i))"
  then obtain c where "step_in (node_transitions d (dfa_nodes d ! i)) c = Some q"
    using jump_targets_step [OF srt] by blast
  then show "live d q"
    using dfa_step_target [OF assms(1), of i c q] assms(2) by (simp add: live_def dfa_step_def)
qed

definition node_start :: "DFA \<Rightarrow> nat \<Rightarrow> bool \<Rightarrow> DFABytecodeCompiler \<Rightarrow> nat" where
  "node_start d i root c = length (m_bytecode c) +
     (if root then length (actions_code (node_actions d (dfa_nodes d ! i))) else 0)"

text \<open>The state in which the transitions of a node are compiled.\<close>

definition before_transitions :: "DFA \<Rightarrow> nat \<Rightarrow> bool \<Rightarrow> DFABytecodeCompiler \<Rightarrow> DFABytecodeCompiler" where
  "before_transitions d i root c =
     (append_bytes (actions_code (node_actions d (dfa_nodes d ! i))) c)
       \<lparr>m_nodeStartOffsets := (m_nodeStartOffsets c)[i := node_start d i root c]\<rparr>"

lemma compileNode_unkilled:
  assumes "\<not> isKilled (dfa_nodes d ! i)"
  shows "compileNode d i root c = compileNodeTransitions d i (before_transitions d i root c)"
  using assms by (cases c) (simp add: compileNode_def Let_def fold_emitAppendAction set_nodeStartOffset_def
      before_transitions_def node_start_def append_bytes_def)

lemma compileNode_killed: "isKilled (dfa_nodes d ! i) \<Longrightarrow> compileNode d i root c = c"
  by (simp add: compileNode_def)

lemma before_transitions_fields [simp]:
  "m_nodeStartOffsets (before_transitions d i root c) = (m_nodeStartOffsets c)[i := node_start d i root c]"
  "m_maxNodeStartOffsets (before_transitions d i root c) = m_maxNodeStartOffsets c"
  "length (m_bytecode (before_transitions d i root c)) =
     length (m_bytecode c) + length (actions_code (node_actions d (dfa_nodes d ! i)))"
  by (simp_all add: before_transitions_def append_bytes_def)

lemma compileNode_effect:
  assumes "wf_dfa d" and "i < length (dfa_nodes d)"
  shows "m_maxNodeStartOffsets (compileNode d i root c) = m_maxNodeStartOffsets c"
    and "m_nodeStartOffsets (compileNode d i root c) =
      (if isKilled (dfa_nodes d ! i) then m_nodeStartOffsets c
       else (m_nodeStartOffsets c)[i := node_start d i root c])"
    and "length (m_bytecode c) \<le> length (m_bytecode (compileNode d i root c))"
    and "length (m_bytecode (compileNode d i root c)) \<le> length (m_bytecode c) + node_max d i"
proof -
  have "m_maxNodeStartOffsets (compileNode d i root c) = m_maxNodeStartOffsets c \<and>
     m_nodeStartOffsets (compileNode d i root c) =
      (if isKilled (dfa_nodes d ! i) then m_nodeStartOffsets c
       else (m_nodeStartOffsets c)[i := node_start d i root c]) \<and>
     length (m_bytecode c) \<le> length (m_bytecode (compileNode d i root c)) \<and>
     length (m_bytecode (compileNode d i root c)) \<le> length (m_bytecode c) + node_max d i"
  proof (cases "isKilled (dfa_nodes d ! i)")
    case True
    then show ?thesis by (simp add: compileNode_killed node_max_killed)
  next
    case False
    then have "grows (nodeTransitionsMaxBytecodeSize d (dfa_nodes d ! i)) (before_transitions d i root c)
        (compileNodeTransitions d i (before_transitions d i root c))"
      using wf_dfa_live(1) [OF assms(1), of i] assms(2)
      by (intro compileNodeTransitions_grows) (simp add: live_def)
    then show ?thesis
      using False by (simp add: compileNode_unkilled grows_def same_offsets_def node_max_unkilled)
  qed
  then show "m_maxNodeStartOffsets (compileNode d i root c) = m_maxNodeStartOffsets c"
    and "m_nodeStartOffsets (compileNode d i root c) =
      (if isKilled (dfa_nodes d ! i) then m_nodeStartOffsets c
       else (m_nodeStartOffsets c)[i := node_start d i root c])"
    and "length (m_bytecode c) \<le> length (m_bytecode (compileNode d i root c))"
    and "length (m_bytecode (compileNode d i root c)) \<le> length (m_bytecode c) + node_max d i"
    by blast+
qed

abbreviation compile_list :: "DFA \<Rightarrow> nat list \<Rightarrow> DFABytecodeCompiler \<Rightarrow> DFABytecodeCompiler" where
  "compile_list d \<equiv> fold (\<lambda>i. compileNode d i False)"

lemma compile_list_effect:
  assumes "wf_dfa d" and "\<forall>i \<in> set xs. i < length (dfa_nodes d)"
  shows "m_maxNodeStartOffsets (compile_list d xs c) = m_maxNodeStartOffsets c \<and>
    length (m_nodeStartOffsets (compile_list d xs c)) = length (m_nodeStartOffsets c) \<and>
    (\<forall>j. j \<notin> set xs \<longrightarrow> m_nodeStartOffsets (compile_list d xs c) ! j = m_nodeStartOffsets c ! j) \<and>
    length (m_bytecode c) \<le> length (m_bytecode (compile_list d xs c)) \<and>
    length (m_bytecode (compile_list d xs c)) \<le> length (m_bytecode c) + sum_list (map (node_max d) xs)"
  using assms(2)
proof (induction xs arbitrary: c)
  case (Cons i xs)
  have "i < length (dfa_nodes d)" using Cons.prems by simp
  note E = compileNode_effect [OF assms(1) this, where root = False and c = c]
  show ?case
    using Cons.IH [of "compileNode d i False c"] Cons.prems E by auto
qed simp

lemma compile_list_start:
  assumes "wf_dfa d" and "\<forall>i \<in> set (ys @ i # zs). i < length (dfa_nodes d)" and "distinct (ys @ i # zs)"
    and "\<not> isKilled (dfa_nodes d ! i)" and "length (m_nodeStartOffsets c) = length (dfa_nodes d)"
  shows "m_nodeStartOffsets (compile_list d (ys @ i # zs) c) ! i = length (m_bytecode (compile_list d ys c))"
proof -
  let ?c1 = "compile_list d ys c"
  have "m_nodeStartOffsets (compile_list d zs (compileNode d i False ?c1)) ! i =
      m_nodeStartOffsets (compileNode d i False ?c1) ! i"
    using compile_list_effect [OF assms(1), of zs "compileNode d i False ?c1"] assms(2,3) by simp
  moreover have "m_nodeStartOffsets (compileNode d i False ?c1) ! i = length (m_bytecode ?c1)"
    using compileNode_effect(2) [OF assms(1), where i = i and root = False and c = ?c1] compile_list_effect [OF assms(1), of ys c]
      assms(2,4,5) by (simp add: node_start_def)
  ultimately show ?thesis by simp
qed

section \<open>Every chosen jump size is large enough\<close>

lemma jump_ok_backward:
  assumes "m_nodeStartOffsets c ! q = offs ! q" and "offs ! q \<le> 2 ^ 30" and "limit \<le> 2 ^ 30"
  shows "jump_ok offs c i limit q"
proof -
  have "jump_fits offs (jump_size c loc i q) loc q" if "loc < limit" for loc
  proof -
    have "longestPossibleJump c loc i q = int (offs ! q) - int loc"
      using assms that by (simp add: longestPossibleJump_def to_s32_id)
    then show ?thesis
      using assms that by (simp add: jump_fits_def jump_size_def smallest_fits)
  qed
  then show ?thesis using assms by (simp add: jump_ok_def)
qed

lemma jump_ok_forward:
  assumes "m_nodeStartOffsets c ! q = 2 ^ 32 - 1" and "offs ! q \<le> 2 ^ 30" and "limit \<le> offs ! q"
    and "m_maxNodeStartOffsets c ! q \<le> 2 ^ 30"
    and "offs ! q + m_maxNodeStartOffsets c ! i \<le> m_maxNodeStartOffsets c ! q + m_nodeStartOffsets c ! i"
  shows "jump_ok offs c i limit q"
proof -
  let ?M = "m_maxNodeStartOffsets c" and ?S = "m_nodeStartOffsets c ! i"
  have "jump_fits offs (jump_size c loc i q) loc q" if loc: "?S \<le> loc" "loc < limit" for loc
  proof -
    let ?longest = "int (?M ! q) - int (?M ! i) - (int ?S - int loc)"
    have b: "- (2 ^ 31) \<le> ?longest" "?longest < 2 ^ 31"
      using assms loc by auto
    then have "longestPossibleJump c loc i q = ?longest"
      using assms(1) by (simp add: longestPossibleJump_def to_s32_id)
    then have "fits (jump_size c loc i q) ?longest"
      using b by (simp add: jump_size_def smallest_fits)
    then show ?thesis
      unfolding jump_fits_def by (rule fits_shorter) (use assms loc in auto)
  qed
  then show ?thesis using assms by (auto simp: jump_ok_def)
qed

section \<open>The compilation of a DFA\<close>

definition compilable :: "DFA \<Rightarrow> byte list \<Rightarrow> bool" where
  "compilable d bs0 \<longleftrightarrow> wf_dfa d \<and> length bs0 + dfa_max_size d \<le> 2 ^ 30"

definition initial_compiler :: "DFA \<Rightarrow> byte list \<Rightarrow> DFABytecodeCompiler" where
  "initial_compiler d bs0 =
     \<lparr>m_bytecode = bs0 @ le_bytes 4 0, m_maxNodeStartOffsets = maxNodeStartOffsets d,
      m_nodeStartOffsets = replicate (length (dfa_nodes d)) (2 ^ 32 - 1), m_linkRecords = []\<rparr>"

definition root_compiled :: "DFA \<Rightarrow> byte list \<Rightarrow> DFABytecodeCompiler" where
  "root_compiled d bs0 = compileNode d (dfa_root d) True (initial_compiler d bs0)"

definition final_offsets :: "DFA \<Rightarrow> byte list \<Rightarrow> nat list" where
  "final_offsets d bs0 = m_nodeStartOffsets (compile_list d (other_nodes d) (root_compiled d bs0))"

lemma initial_compiler_simps [simp]:
  "length (m_bytecode (initial_compiler d bs0)) = length bs0 + 4"
  "m_maxNodeStartOffsets (initial_compiler d bs0) = maxNodeStartOffsets d"
  "m_nodeStartOffsets (initial_compiler d bs0) = replicate (length (dfa_nodes d)) (2 ^ 32 - 1)"
  "m_linkRecords (initial_compiler d bs0) = []"
  "m_bytecode (initial_compiler d bs0) = bs0 @ le_bytes 4 0"
  by (simp_all add: initial_compiler_def)

lemma live_root: "wf_dfa d \<Longrightarrow> live d (dfa_root d)"
  by (simp add: wf_dfa_def live_def)

abbreviation root_actions_size :: "DFA \<Rightarrow> nat" where
  "root_actions_size d \<equiv> length (actions_code (node_actions d (dfa_nodes d ! dfa_root d)))"

lemma root_compiled_effect:
  assumes "wf_dfa d"
  shows "m_maxNodeStartOffsets (root_compiled d bs0) = maxNodeStartOffsets d"
    and "m_nodeStartOffsets (root_compiled d bs0) =
      (replicate (length (dfa_nodes d)) (2 ^ 32 - 1))[dfa_root d := length bs0 + 4 + root_actions_size d]"
    and "length bs0 + 4 \<le> length (m_bytecode (root_compiled d bs0))"
    and "length (m_bytecode (root_compiled d bs0)) \<le> length bs0 + 4 + node_max d (dfa_root d)"
proof -
  have root: "dfa_root d < length (dfa_nodes d)" "\<not> isKilled (dfa_nodes d ! dfa_root d)"
    using assms by (auto simp: wf_dfa_def)
  note E = compileNode_effect [OF assms root(1), where root = True and c = "initial_compiler d bs0"]
  show "m_maxNodeStartOffsets (root_compiled d bs0) = maxNodeStartOffsets d"
    and "m_nodeStartOffsets (root_compiled d bs0) =
      (replicate (length (dfa_nodes d)) (2 ^ 32 - 1))[dfa_root d := length bs0 + 4 + root_actions_size d]"
    and "length bs0 + 4 \<le> length (m_bytecode (root_compiled d bs0))"
    and "length (m_bytecode (root_compiled d bs0)) \<le> length bs0 + 4 + node_max d (dfa_root d)"
    using E root unfolding root_compiled_def by (simp_all add: node_start_def)
qed

text \<open>The size of the code after a prefix of the nodes.\<close>

lemma prefix_size:
  assumes "wf_dfa d" and "other_nodes d = ys @ zs"
  shows "length (m_bytecode (root_compiled d bs0)) \<le> length (m_bytecode (compile_list d ys (root_compiled d bs0)))"
    and "length (m_bytecode (compile_list d ys (root_compiled d bs0))) + sum_list (map (node_max d) zs)
      \<le> length bs0 + dfa_max_size d"
proof -
  have "\<forall>i \<in> set ys. i < length (dfa_nodes d)"
    using other_nodes_simps(2) [of _ d] assms(2) by auto
  note E = compile_list_effect [OF assms(1) this, of "root_compiled d bs0"]
  then show "length (m_bytecode (root_compiled d bs0)) \<le> length (m_bytecode (compile_list d ys (root_compiled d bs0)))"
    by blast
  have "sum_list (map (node_max d) (other_nodes d)) =
      sum_list (map (node_max d) ys) + sum_list (map (node_max d) zs)"
    using assms(2) by simp
  then show "length (m_bytecode (compile_list d ys (root_compiled d bs0))) + sum_list (map (node_max d) zs)
      \<le> length bs0 + dfa_max_size d"
    using E root_compiled_effect(4) [OF assms(1), of bs0] by (simp add: dfa_max_size_def)
qed

lemma offset_root:
  assumes "wf_dfa d"
  shows "final_offsets d bs0 ! dfa_root d = length bs0 + 4 + root_actions_size d"
proof -
  have "dfa_root d < length (dfa_nodes d)" using assms by (simp add: wf_dfa_def)
  then show ?thesis
    using compile_list_effect [OF assms, of "other_nodes d" "root_compiled d bs0"]
      root_compiled_effect(2) [OF assms, of bs0]
    by (simp add: final_offsets_def)
qed

lemma offset_other:
  assumes "wf_dfa d" and "other_nodes d = ys @ i # zs" and "\<not> isKilled (dfa_nodes d ! i)"
  shows "final_offsets d bs0 ! i = length (m_bytecode (compile_list d ys (root_compiled d bs0)))"
  unfolding final_offsets_def assms(2)
proof (rule compile_list_start)
  show "\<forall>i \<in> set (ys @ i # zs). i < length (dfa_nodes d)" "distinct (ys @ i # zs)"
    using other_nodes_simps(1) [of d] other_nodes_simps(2) [of _ d] assms(2) by auto
  show "length (m_nodeStartOffsets (root_compiled d bs0)) = length (dfa_nodes d)"
    by (simp add: root_compiled_effect(2) [OF assms(1)])
qed (use assms in auto)

lemma length_final_offsets:
  assumes "wf_dfa d"
  shows "length (final_offsets d bs0) = length (dfa_nodes d)"
  using compile_list_effect [OF assms, of "other_nodes d" "root_compiled d bs0"]
    root_compiled_effect(2) [OF assms, of bs0]
  by (simp add: final_offsets_def)

lemma live_cases:
  assumes "live d q"
  obtains "q = dfa_root d" | ys zs where "other_nodes d = ys @ q # zs"
  using assms other_nodes_simps(2) [of q d] split_list [of q "other_nodes d"] by (auto simp: live_def)

lemma root_actions_le: "wf_dfa d \<Longrightarrow> root_actions_size d \<le> node_max d (dfa_root d)"
  by (simp add: node_max_unkilled wf_dfa_def)

lemma offset_bound:
  assumes "compilable d bs0" and "live d q"
  shows "final_offsets d bs0 ! q \<le> 2 ^ 30"
  using assms(2)
proof (cases rule: live_cases)
  case 1
  then show ?thesis
    using assms(1) offset_root [of d bs0] root_actions_le [of d] by (simp add: compilable_def dfa_max_size_def)
next
  case (2 ys zs)
  then show ?thesis
    using assms prefix_size(2) [of d ys "q # zs" bs0] offset_other [of d ys q zs bs0]
    by (simp add: compilable_def live_def)
qed

lemma max_bound:
  assumes "compilable d bs0" and "other_nodes d = ys @ q # zs"
  shows "maxNodeStartOffsets d ! q \<le> 2 ^ 30"
  using assms max_other [OF assms(2)] by (simp add: compilable_def dfa_max_size_def)

lemma root_jump_ok:
  assumes comp: "compilable d bs0" and q: "live d q"
  shows "jump_ok (final_offsets d bs0) (before_transitions d (dfa_root d) True (initial_compiler d bs0))
    (dfa_root d) (length (m_bytecode (root_compiled d bs0))) q"
proof -
  let ?b = "before_transitions d (dfa_root d) True (initial_compiler d bs0)"
  let ?limit = "length (m_bytecode (root_compiled d bs0))"
  have wf: "wf_dfa d" using comp by (simp add: compilable_def)
  then have root: "dfa_root d < length (dfa_nodes d)" by (simp add: wf_dfa_def)
  note bound = offset_bound [OF comp q]
  have starts: "m_nodeStartOffsets ?b =
      (replicate (length (dfa_nodes d)) (2 ^ 32 - 1))[dfa_root d := length bs0 + 4 + root_actions_size d]"
    by (simp add: node_start_def)
  have limit: "?limit \<le> 2 ^ 30"
    using prefix_size(2) [OF wf, of "[]" "other_nodes d" bs0] comp by (simp add: compilable_def)
  show ?thesis
    using q
  proof (cases rule: live_cases)
    case 1
    then show ?thesis
      using offset_root [OF wf, of bs0] starts root bound limit by (intro jump_ok_backward) simp_all
  next
    case (2 ys zs)
    have "q < length (dfa_nodes d)" "q \<noteq> dfa_root d" "\<not> isKilled (dfa_nodes d ! q)"
      using q 2 other_nodes_simps(2) [of q d] by (auto simp: live_def)
    moreover note offset_other [OF wf 2, of bs0] prefix_size(1) [OF wf, of ys "q # zs" bs0]
      compile_list_effect [OF wf, of ys "root_compiled d bs0"] max_root [OF root] max_other [OF 2]
      max_bound [OF comp 2] root_compiled_effect(4) [OF wf, of bs0]
    moreover have "\<forall>i \<in> set ys. i < length (dfa_nodes d)"
      using other_nodes_simps(2) [of _ d] 2 by auto
    ultimately show ?thesis
      using bound 2 starts root by (intro jump_ok_forward) auto
  qed
qed

lemma other_jump_ok:
  assumes comp: "compilable d bs0" and i: "other_nodes d = ys @ i # zs" "\<not> isKilled (dfa_nodes d ! i)"
    and q: "live d q"
  defines "c \<equiv> compile_list d ys (root_compiled d bs0)"
  shows "jump_ok (final_offsets d bs0) (before_transitions d i False c) i
    (length (m_bytecode (compileNode d i False c))) q"
proof -
  let ?b = "before_transitions d i False c" and ?c' = "compileNode d i False c"
  have wf: "wf_dfa d" using comp by (simp add: compilable_def)
  note bound = offset_bound [OF comp q]
  have all: "\<forall>j \<in> set (ys @ i # zs). j < length (dfa_nodes d) \<and> j \<noteq> dfa_root d" and dist: "distinct (ys @ i # zs)"
    using other_nodes_simps(2) [of _ d] other_nodes_simps(1) [of d] i(1) by auto
  note E = compile_list_effect [OF wf, of ys "root_compiled d bs0", folded c_def]
  have starts: "m_nodeStartOffsets ?b = (m_nodeStartOffsets c)[i := length (m_bytecode c)]"
    by (simp add: node_start_def)
  have len: "length (m_nodeStartOffsets c) = length (dfa_nodes d)" and
    maxs: "m_maxNodeStartOffsets c = maxNodeStartOffsets d"
    using E all root_compiled_effect(1,2) [OF wf, of bs0] by auto
  have start_i: "m_nodeStartOffsets ?b ! i = length (m_bytecode c)"
    using starts len all by simp
  have off_i: "final_offsets d bs0 ! i = length (m_bytecode c)"
    using offset_other [OF wf i, of bs0] by (simp add: c_def)
  have limit: "length (m_bytecode ?c') \<le> 2 ^ 30"
    using prefix_size(2) [OF wf, of "ys @ [i]" zs bs0] i comp by (simp add: compilable_def c_def)
  have before: ?thesis if "q \<noteq> i" "q \<notin> set zs"
  proof (rule jump_ok_backward)
    have "final_offsets d bs0 = m_nodeStartOffsets (compile_list d (i # zs) c)"
      by (simp add: final_offsets_def i(1) c_def)
    then have "final_offsets d bs0 ! q = m_nodeStartOffsets c ! q"
      using compile_list_effect [OF wf, of "i # zs" c] all that by auto
    then show "m_nodeStartOffsets ?b ! q = final_offsets d bs0 ! q"
      using starts that by simp
  qed (use bound limit in simp_all)
  consider "q = i" | "q \<noteq> i" "q \<notin> set zs" | zs1 zs2 where "zs = zs1 @ q # zs2"
    using split_list by metis
  then show ?thesis
  proof cases
    case 1
    then show ?thesis using start_i off_i bound limit by (intro jump_ok_backward) simp_all
  next
    case 2
    then show ?thesis by (rule before)
  next
    case (3 zs1 zs2)
    have o: "other_nodes d = (ys @ i # zs1) @ q # zs2" using i(1) 3 by simp
    have "q \<notin> set ys" "q \<noteq> i" "q \<noteq> dfa_root d" "q < length (dfa_nodes d)" "\<not> isKilled (dfa_nodes d ! q)"
      using dist all 3 q by (auto simp: live_def)
    moreover have "final_offsets d bs0 ! q = length (m_bytecode (compile_list d zs1 ?c'))"
      using offset_other [OF wf o, of bs0] q by (simp add: live_def c_def)
    moreover have "length (m_bytecode ?c') \<le> length (m_bytecode (compile_list d zs1 ?c'))"
      "length (m_bytecode (compile_list d zs1 ?c')) \<le> length (m_bytecode ?c') + sum_list (map (node_max d) zs1)"
      using compile_list_effect [OF wf, of zs1 ?c'] all 3 by auto
    moreover have "length (m_bytecode ?c') \<le> length (m_bytecode c) + node_max d i"
      using compileNode_effect(4) [OF wf, where i = i and c = c] all by simp
    moreover note max_other [OF i(1)] max_other [OF o] max_bound [OF comp o]
    moreover have "m_nodeStartOffsets ?b ! q = 2 ^ 32 - 1"
      using starts E all root_compiled_effect(2) [OF wf, of bs0] calculation(1-4) by simp
    ultimately show ?thesis
      using bound start_i maxs by (intro jump_ok_forward) simp_all
  qed
qed

section \<open>The layout of the code\<close>

definition node_code :: "DFA \<Rightarrow> nat list \<Rightarrow> nat \<Rightarrow> nat \<Rightarrow> byte list \<Rightarrow> bool" where
  "node_code d offs loc i code \<longleftrightarrow>
     (\<exists>tc. code = actions_code (node_actions d (dfa_nodes d ! i)) @ tc \<and>
        transitions_code offs (loc + length (actions_code (node_actions d (dfa_nodes d ! i))))
          (transitions d (dfa_nodes d ! i)) tc)"

lemma compileNode_emits:
  assumes "wf_dfa d" and "live d i"
    and "\<And>q. live d q \<Longrightarrow> jump_ok offs (before_transitions d i root c) i
      (length (m_bytecode (compileNode d i root c))) q"
    and "length (m_nodeStartOffsets c) = length (dfa_nodes d)"
    and "length (m_bytecode (compileNode d i root c)) \<le> 2 ^ 31"
  shows "\<exists>code. node_code d offs (length (m_bytecode c)) i code \<and> emits offs code c (compileNode d i root c)"
proof -
  let ?b = "before_transitions d i root c"
  have ni: "\<not> isKilled (dfa_nodes d ! i)" using assms(2) by (simp add: live_def)
  note n = compileNode_unkilled [OF ni, of root c]
  have "\<exists>tc. transitions_code offs (length (m_bytecode ?b)) (transitions d (dfa_nodes d ! i)) tc \<and>
      emits offs tc ?b (compileNode d i root c)"
    unfolding n
  proof (rule compileNodeTransitions_emits [where limit = "length (m_bytecode (compileNode d i root c))"])
    show "m_nodeStartOffsets ?b ! i \<le> length (m_bytecode ?b)"
      using assms(2,4) by (simp add: node_start_def live_def)
  qed (use assms wf_dfa_live [OF assms(1,2)] n in auto)
  then obtain tc where tc: "transitions_code offs (length (m_bytecode ?b)) (transitions d (dfa_nodes d ! i)) tc"
    "emits offs tc ?b (compileNode d i root c)" by blast
  have "emits offs (actions_code (node_actions d (dfa_nodes d ! i))) c ?b"
    using emits_bytes by (simp add: emits_def before_transitions_def append_bytes_def)
  from emits_trans [OF this tc(2)] tc(1) show ?thesis
    by (auto simp: node_code_def)
qed

text \<open>In the code emitted for a list of nodes from state \<open>c\<close> on, the code of every node is where the
  compiler stood when it reached the node.\<close>

definition placed :: "DFA \<Rightarrow> nat list \<Rightarrow> nat list \<Rightarrow> DFABytecodeCompiler \<Rightarrow> byte list \<Rightarrow> bool" where
  "placed d offs xs c code \<longleftrightarrow>
     (\<forall>ys i zs. xs = ys @ i # zs \<longrightarrow> \<not> isKilled (dfa_nodes d ! i) \<longrightarrow>
        (\<exists>pre mid post. code = pre @ mid @ post \<and>
           length (m_bytecode (compile_list d ys c)) = length (m_bytecode c) + length pre \<and>
           node_code d offs (length (m_bytecode c) + length pre) i mid))"

definition emits_each :: "DFA \<Rightarrow> nat list \<Rightarrow> nat list \<Rightarrow> DFABytecodeCompiler \<Rightarrow> bool" where
  "emits_each d offs xs c \<longleftrightarrow>
     (\<forall>ys i zs. xs = ys @ i # zs \<longrightarrow> \<not> isKilled (dfa_nodes d ! i) \<longrightarrow>
        (\<exists>code. node_code d offs (length (m_bytecode (compile_list d ys c))) i code \<and>
           emits offs code (compile_list d ys c) (compileNode d i False (compile_list d ys c))))"

lemma emits_each_Cons:
  assumes "emits_each d offs (x # xs) c"
  shows "emits_each d offs xs (compileNode d x False c)"
    and "\<exists>code. emits offs code c (compileNode d x False c) \<and>
      (\<not> isKilled (dfa_nodes d ! x) \<longrightarrow> node_code d offs (length (m_bytecode c)) x code)"
proof -
  have each: "\<exists>code. node_code d offs (length (m_bytecode (compile_list d ys c))) i code \<and>
           emits offs code (compile_list d ys c) (compileNode d i False (compile_list d ys c))"
    if "x # xs = ys @ i # zs" "\<not> isKilled (dfa_nodes d ! i)" for ys i zs
    using assms that unfolding emits_each_def by blast
  show "emits_each d offs xs (compileNode d x False c)"
    unfolding emits_each_def using each [of "x # _"] by simp
  show "\<exists>code. emits offs code c (compileNode d x False c) \<and>
      (\<not> isKilled (dfa_nodes d ! x) \<longrightarrow> node_code d offs (length (m_bytecode c)) x code)"
    using each [of "[]" x xs] emits_refl [of c c offs] compileNode_killed [of d x False c]
    by (cases "isKilled (dfa_nodes d ! x)") auto
qed

lemma placed_Cons:
  assumes a: "emits offs a c (compileNode d x False c)"
    "\<not> isKilled (dfa_nodes d ! x) \<Longrightarrow> node_code d offs (length (m_bytecode c)) x a"
    and b: "placed d offs xs (compileNode d x False c) b"
  shows "placed d offs (x # xs) c (a @ b)"
  unfolding placed_def
proof (intro allI impI)
  fix ys i zs assume xs: "x # xs = ys @ i # zs" and k: "\<not> isKilled (dfa_nodes d ! i)"
  let ?c1 = "compileNode d x False c"
  show "\<exists>pre mid post. a @ b = pre @ mid @ post \<and>
         length (m_bytecode (compile_list d ys c)) = length (m_bytecode c) + length pre \<and>
         node_code d offs (length (m_bytecode c) + length pre) i mid"
  proof (cases ys)
    case Nil
    then show ?thesis using xs a(2) k by (intro exI [of _ "[]"] exI [of _ a] exI [of _ b]) auto
  next
    case (Cons y ys')
    then have "xs = ys' @ i # zs" and y: "y = x" using xs by auto
    then obtain pre mid post where "b = pre @ mid @ post"
      "length (m_bytecode (compile_list d ys' ?c1)) = length (m_bytecode ?c1) + length pre"
      "node_code d offs (length (m_bytecode ?c1) + length pre) i mid"
      using b k unfolding placed_def by blast
    then show ?thesis
      using Cons y emits_length [OF a(1)]
      by (intro exI [of _ "a @ pre"] exI [of _ mid] exI [of _ post]) (auto simp: add.assoc)
  qed
qed

lemma compile_list_emits:
  assumes "emits_each d offs xs c"
  shows "\<exists>code. emits offs code c (compile_list d xs c) \<and> placed d offs xs c code"
  using assms
proof (induction xs arbitrary: c)
  case Nil
  then show ?case using emits_refl [of c c] by (auto simp: placed_def)
next
  case (Cons x xs)
  obtain a where a: "emits offs a c (compileNode d x False c)"
    "\<not> isKilled (dfa_nodes d ! x) \<longrightarrow> node_code d offs (length (m_bytecode c)) x a"
    using emits_each_Cons(2) [OF Cons.prems] by blast
  obtain b where b: "emits offs b (compileNode d x False c) (compile_list d xs (compileNode d x False c))"
    "placed d offs xs (compileNode d x False c) b"
    using Cons.IH [OF emits_each_Cons(1) [OF Cons.prems]] by blast
  have "placed d offs (x # xs) c (a @ b)" using placed_Cons [OF a(1) _ b(2)] a(2) by blast
  then show ?case
    using emits_trans [OF a(1) b(1)] by (intro exI [of _ "a @ b"]) simp
qed

text \<open>Where the code of a DFA is in the bytecode: the code at a position.\<close>

definition code_at :: "byte list \<Rightarrow> nat \<Rightarrow> byte list \<Rightarrow> bool" where
  "code_at bs pc code \<longleftrightarrow> (\<exists>pre post. bs = pre @ code @ post \<and> length pre = pc)"

definition layout :: "DFA \<Rightarrow> nat list \<Rightarrow> byte list \<Rightarrow> bool" where
  "layout d offs bs \<longleftrightarrow>
     length offs = length (dfa_nodes d) \<and>
     (\<forall>i. live d i \<longrightarrow>
        (\<exists>code. code_at bs (offs ! i)
             ((if i = dfa_root d then [] else actions_code (node_actions d (dfa_nodes d ! i))) @ code) \<and>
           transitions_code offs
             (offs ! i + (if i = dfa_root d then 0 else length (actions_code (node_actions d (dfa_nodes d ! i)))))
             (transitions d (dfa_nodes d ! i)) code))"

lemma root_emits:
  assumes "compilable d bs0"
  shows "\<exists>code. node_code d (final_offsets d bs0) (length bs0 + 4) (dfa_root d) code \<and>
    emits (final_offsets d bs0) code (initial_compiler d bs0) (root_compiled d bs0)"
proof -
  have wf: "wf_dfa d" using assms by (simp add: compilable_def)
  have "length (m_bytecode (root_compiled d bs0)) \<le> 2 ^ 31"
    using prefix_size(2) [OF wf, of "[]" "other_nodes d" bs0] assms by (simp add: compilable_def)
  then show ?thesis
    using compileNode_emits [OF wf live_root [OF wf], of "final_offsets d bs0" True "initial_compiler d bs0"]
      root_jump_ok [OF assms] by (simp add: root_compiled_def)
qed

lemma others_emit:
  assumes "compilable d bs0"
  shows "emits_each d (final_offsets d bs0) (other_nodes d) (root_compiled d bs0)"
  unfolding emits_each_def
proof (intro allI impI)
  fix ys i zs assume i: "other_nodes d = ys @ i # zs" "\<not> isKilled (dfa_nodes d ! i)"
  let ?c = "compile_list d ys (root_compiled d bs0)"
  have wf: "wf_dfa d" using assms by (simp add: compilable_def)
  have all: "\<forall>j \<in> set (ys @ i # zs). j < length (dfa_nodes d)"
    using other_nodes_simps(2) [of _ d] i(1) by auto
  have "length (m_bytecode (compileNode d i False ?c)) \<le> 2 ^ 31"
    using prefix_size(2) [OF wf, of "ys @ [i]" zs bs0] i assms by (simp add: compilable_def)
  moreover have "length (m_nodeStartOffsets ?c) = length (dfa_nodes d)"
    using compile_list_effect [OF wf, of ys "root_compiled d bs0"] root_compiled_effect(2) [OF wf, of bs0] all
    by simp
  ultimately show "\<exists>code. node_code d (final_offsets d bs0) (length (m_bytecode ?c)) i code \<and>
           emits (final_offsets d bs0) code ?c (compileNode d i False ?c)"
    using compileNode_emits [OF wf, of i "final_offsets d bs0" False ?c] other_jump_ok [OF assms i] i all
    by (simp add: live_def)
qed

lemma layoutI:
  assumes comp: "compilable d bs0"
    and rc: "node_code d (final_offsets d bs0) (length bs0 + 4) (dfa_root d) rc"
      "length (m_bytecode (root_compiled d bs0)) = length bs0 + 4 + length rc"
    and oc: "placed d (final_offsets d bs0) (other_nodes d) (root_compiled d bs0) oc"
    and header: "length header = 4"
  shows "layout d (final_offsets d bs0) (bs0 @ header @ rc @ oc @ rest)"
  unfolding layout_def
proof (intro allI impI conjI)
  show "length (final_offsets d bs0) = length (dfa_nodes d)"
    using comp by (intro length_final_offsets) (simp add: compilable_def)
  fix i assume i: "live d i"
  let ?offs = "final_offsets d bs0" and ?bs = "bs0 @ header @ rc @ oc @ rest"
  have wf: "wf_dfa d" using comp by (simp add: compilable_def)
  show "\<exists>code. code_at ?bs (?offs ! i)
           ((if i = dfa_root d then [] else actions_code (node_actions d (dfa_nodes d ! i))) @ code) \<and>
         transitions_code ?offs
           (?offs ! i + (if i = dfa_root d then 0 else length (actions_code (node_actions d (dfa_nodes d ! i)))))
           (transitions d (dfa_nodes d ! i)) code"
    using i
  proof (cases rule: live_cases)
    case 1
    obtain tc where tc: "rc = actions_code (node_actions d (dfa_nodes d ! dfa_root d)) @ tc"
      "transitions_code ?offs (length bs0 + 4 + root_actions_size d) (transitions d (dfa_nodes d ! dfa_root d)) tc"
      using rc(1) by (auto simp: node_code_def)
    have "code_at ?bs (?offs ! dfa_root d) tc"
      unfolding code_at_def offset_root [OF wf] tc(1) using header
      by (intro exI [of _ "bs0 @ header @ actions_code (node_actions d (dfa_nodes d ! dfa_root d))"]
          exI [of _ "oc @ rest"]) simp
    then show ?thesis using 1 tc(2) offset_root [OF wf, of bs0] by (intro exI [of _ tc]) simp
  next
    case (2 ys zs)
    have ni: "\<not> isKilled (dfa_nodes d ! i)" "i \<noteq> dfa_root d"
      using i 2 other_nodes_simps(2) [of i d] by (auto simp: live_def)
    obtain pre mid post where p: "oc = pre @ mid @ post"
      "length (m_bytecode (compile_list d ys (root_compiled d bs0))) =
        length (m_bytecode (root_compiled d bs0)) + length pre"
      "node_code d ?offs (length (m_bytecode (root_compiled d bs0)) + length pre) i mid"
      using oc 2 ni unfolding placed_def by blast
    have o: "?offs ! i = length (m_bytecode (root_compiled d bs0)) + length pre"
      using offset_other [OF wf 2 ni(1), of bs0] p(2) by simp
    have "code_at ?bs (?offs ! i) mid"
      unfolding code_at_def o rc(2) p(1) using header
      by (intro exI [of _ "bs0 @ header @ rc @ pre"] exI [of _ "post @ rest"]) simp
    then show ?thesis
      using p(3) ni(2) unfolding node_code_def o by auto
  qed
qed

text \<open>\<open>compile\<close> succeeds, keeps what was in the buffer, and appends a length header and the code.\<close>

lemma compile_layout:
  assumes comp: "compilable d bs0"
  shows "\<exists>tc. let code = actions_code (node_actions d (dfa_nodes d ! dfa_root d)) @ tc in
    compile d bs0 = Inr (bs0 @ le_bytes 4 (int (4 + length code)) @ code) \<and>
    4 + length code \<le> dfa_max_size d \<and> tc \<noteq> [] \<and>
    final_offsets d bs0 ! dfa_root d = length bs0 + 4 + root_actions_size d \<and>
    (\<forall>rest. layout d (final_offsets d bs0) (bs0 @ le_bytes 4 (int (4 + length code)) @ code @ rest))"
proof -
  let ?offs = "final_offsets d bs0" and ?cf = "compile_list d (other_nodes d) (root_compiled d bs0)"
  have wf: "wf_dfa d" using comp by (simp add: compilable_def)
  obtain rc where rc: "node_code d ?offs (length bs0 + 4) (dfa_root d) rc"
    "emits ?offs rc (initial_compiler d bs0) (root_compiled d bs0)"
    using root_emits [OF comp] by blast
  obtain oc where oc: "emits ?offs oc (root_compiled d bs0) ?cf"
    "placed d ?offs (other_nodes d) (root_compiled d bs0) oc"
    using compile_list_emits [OF others_emit [OF comp]] by blast
  have e: "emits ?offs (rc @ oc) (initial_compiler d bs0) ?cf"
    by (rule emits_trans [OF rc(2) oc(1)])
  then obtain bs lrs where l: "m_bytecode ?cf = (bs0 @ le_bytes 4 0) @ bs" "m_linkRecords ?cf = lrs"
    "link ?offs lrs ((bs0 @ le_bytes 4 0) @ bs @ []) = Inr ((bs0 @ le_bytes 4 0) @ (rc @ oc) @ [])"
    unfolding emits_def initial_compiler_simps append_Nil by blast
  obtain tc0 where tc0: "rc = actions_code (node_actions d (dfa_nodes d ! dfa_root d)) @ tc0"
    "transitions_code ?offs (length bs0 + 4 + root_actions_size d) (transitions d (dfa_nodes d ! dfa_root d)) tc0"
    using rc(1) by (auto simp: node_code_def)
  have "tc0 \<noteq> []" using tc0(2) by (auto simp: transitions_code_def final_code_def split: if_splits)
  have cn: "compileNodes d (initial_compiler d bs0) = ?cf"
    by (simp add: compileNodes_other_nodes root_compiled_def)
  have "compile d bs0 = rbind (link ?offs lrs (m_bytecode ?cf))
      (\<lambda>bytecode. setBits 4 (length bs0) (int (length bytecode - length bs0)) bytecode)"
    unfolding compile_def Let_def initial_compiler_def [symmetric] cn l(2) [symmetric] final_offsets_def
    by (rule refl)
  then have "compile d bs0 = setBits 4 (length bs0) (int (4 + length (rc @ oc))) (bs0 @ le_bytes 4 0 @ rc @ oc)"
    using l(1,3) by simp
  then have "compile d bs0 = Inr (bs0 @ le_bytes 4 (int (4 + length (rc @ oc))) @ rc @ oc)"
    by (simp add: setBits_middle)
  moreover have "4 + length (rc @ oc) \<le> dfa_max_size d"
    using emits_length [OF e] prefix_size(2) [OF wf, of "other_nodes d" "[]" bs0] by simp
  moreover have "length (m_bytecode (root_compiled d bs0)) = length bs0 + 4 + length rc"
    using emits_length [OF rc(2)] by simp
  ultimately show ?thesis
    using layoutI [OF comp rc(1) _ oc(2)] offset_root [OF wf, of bs0] \<open>tc0 \<noteq> []\<close> tc0(1)
    by (intro exI [of _ "tc0 @ oc"]) (simp add: Let_def)
qed

end
