(* ===== verification/Bytecode_Interpreter.thy ===== *)
theory Bytecode_Interpreter
  imports Bytecode Resource_Info
begin

text \<open>
  \<^verbatim>\<open>DFABytecodeInterpreter.h\<close> and \<^verbatim>\<open>DFABytecodeInterpreter.cpp\<close>. The URL is the list of
  its characters; \<open>url_at\<close> reads the C string, whose terminator is part of it, and a read past the
  terminator is \<open>OutOfBounds\<close>, as is a read past the end of the bytecode. The \<^verbatim>\<open>while (true)\<close> loop
  is a \<^theory_text>\<open>partial_function\<close>: \<open>None\<close> is a loop that does not end.
\<close>

section \<open>Reading the bytecode and the URL\<close>

definition getBits :: "nat \<Rightarrow> byte list \<Rightarrow> nat \<Rightarrow> byte list result" where
  "getBits n bytecode index =
     (if index + n \<le> length bytecode then Inr (take n (drop index bytecode)) else Inl OutOfBounds)"

definition getBits_u8 :: "byte list \<Rightarrow> nat \<Rightarrow> nat result" where
  "getBits_u8 bytecode index = rbind (getBits 1 bytecode index) (\<lambda>bs. Inr (nat (le_uint bs)))"

definition getInstruction :: "byte list \<Rightarrow> nat \<Rightarrow> DFABytecodeInstruction option result" where
  "getInstruction bytecode index =
     rbind (getBits 1 bytecode index)
       (\<lambda>bs. Inr (instruction_of (unat (hd bs AND DFABytecodeInstructionMask))))"

definition getJumpSize :: "byte list \<Rightarrow> nat \<Rightarrow> DFABytecodeJumpSize option result" where
  "getJumpSize bytecode index =
     rbind (getBits 1 bytecode index)
       (\<lambda>bs. Inr (jumpSize_of (unat (hd bs AND DFABytecodeJumpSizeMask))))"

fun jumpSizeInBytes :: "DFABytecodeJumpSize option \<Rightarrow> nat result" where
  "jumpSizeInBytes (Some Int8) = Inr 1"
| "jumpSizeInBytes (Some Int16) = Inr 2"
| "jumpSizeInBytes (Some Int24) = Inr (2 + 1)"
| "jumpSizeInBytes (Some Int32) = Inr 4"
| "jumpSizeInBytes None = Inl ReleaseAssert"

fun getJumpDistance :: "byte list \<Rightarrow> nat \<Rightarrow> DFABytecodeJumpSize option \<Rightarrow> int result" where
  "getJumpDistance bytecode index (Some Int8) =
     rbind (getBits 1 bytecode index) (\<lambda>bs. Inr (le_sint bs))"
| "getJumpDistance bytecode index (Some Int16) =
     rbind (getBits 2 bytecode index) (\<lambda>bs. Inr (le_sint bs))"
| "getJumpDistance bytecode index (Some Int24) =
     rbind (getBits 2 bytecode index) (\<lambda>lo.
     rbind (getBits 1 bytecode (index + 2)) (\<lambda>hi.
       Inr (le_uint lo OR push_bit 16 (le_sint hi))))"
| "getJumpDistance bytecode index (Some Int32) =
     rbind (getBits 4 bytecode index) (\<lambda>bs. Inr (le_sint bs))"
| "getJumpDistance bytecode index None = Inl ReleaseAssert"

definition url_at :: "nat list \<Rightarrow> nat \<Rightarrow> nat result" where
  "url_at url i = (if i < length url then Inr (url ! i)
                   else if i = length url then Inr 0 else Inl OutOfBounds)"

section \<open>Actions\<close>

type_synonym Actions = "u64 list"

definition matchesCondition :: "u64 \<Rightarrow> Actions \<Rightarrow> bool" where
  "matchesCondition actionAndFlags conditionActions \<longleftrightarrow>
     (actionAndFlags AND IfConditionFlag \<noteq> 0) = (actionAndFlags \<in> set conditionActions)"

definition passes_condition :: "Actions option \<Rightarrow> u64 \<Rightarrow> bool" where
  "passes_condition topURLActions action \<longleftrightarrow>
     (case topURLActions of None \<Rightarrow> True | Some conditions \<Rightarrow> matchesCondition action conditions)"

definition interpretAppendAction ::
  "byte list \<Rightarrow> Actions option \<Rightarrow> nat \<Rightarrow> Actions \<Rightarrow> bool \<Rightarrow> (nat \<times> Actions) result" where
  "interpretAppendAction bytecode topURLActions programCounter actions ifCondition =
     rbind (getBits 4 bytecode (programCounter + 1)) (\<lambda>bs.
       let action = (if ifCondition then IfConditionFlag else 0) OR word_of_int (le_uint bs);
           actions' = (if passes_condition topURLActions action then hs_add action actions else actions)
       in rbind (instructionSizeWithArguments AppendAction) (\<lambda>n.
            Inr (to_u32 (int programCounter + int n), actions')))"

definition interpretTestFlagsAndAppendAction ::
  "byte list \<Rightarrow> Actions option \<Rightarrow> nat \<Rightarrow> u16 \<Rightarrow> Actions \<Rightarrow> bool \<Rightarrow> (nat \<times> Actions) result" where
  "interpretTestFlagsAndAppendAction bytecode topURLActions programCounter flags actions ifCondition =
     rbind (getBits 2 bytecode (programCounter + 1)) (\<lambda>fs.
       let flagsToCheck = word_of_int (le_uint fs) :: u16;
           loadTypeFlags = flagsToCheck AND LoadTypeMask;
           resourceTypeFlags = flagsToCheck AND ResourceTypeMask;
           loadTypeMatches = (if loadTypeFlags \<noteq> 0 then loadTypeFlags AND flags \<noteq> 0 else True);
           resourceTypeMatches =
             (if resourceTypeFlags \<noteq> 0 then resourceTypeFlags AND flags \<noteq> 0 else True)
       in rbind
            (if loadTypeMatches \<and> resourceTypeMatches
             then rbind (getBits 4 bytecode (programCounter + 1 + 2)) (\<lambda>bs.
                    let actionAndFlags = ((if ifCondition then IfConditionFlag else 0)
                          OR push_bit 32 (ucast flagsToCheck)) OR word_of_int (le_uint bs)
                    in Inr (if passes_condition topURLActions actionAndFlags
                            then hs_add actionAndFlags actions else actions))
             else Inr actions)
            (\<lambda>actions'. rbind (instructionSizeWithArguments TestFlagsAndAppendAction) (\<lambda>n.
               Inr (to_u32 (int programCounter + int n), actions'))))"

text \<open>\<open>actionsMatchingEverything\<close>: the actions without flags at the head of the first DFA.\<close>

partial_function (option) matchingEverythingLoop ::
  "byte list \<Rightarrow> Actions option \<Rightarrow> nat \<Rightarrow> nat \<Rightarrow> Actions \<Rightarrow> Actions result option" where
  "matchingEverythingLoop bytecode topURLActions dfaBytecodeLength programCounter actions =
     (if programCounter < dfaBytecodeLength
      then
        (case getInstruction bytecode programCounter of
           Inl e \<Rightarrow> Some (Inl e)
         | Inr instruction \<Rightarrow>
             if instruction = Some AppendAction \<or> instruction = Some AppendActionWithIfCondition
             then
               (case interpretAppendAction bytecode topURLActions programCounter actions
                       (instruction = Some AppendActionWithIfCondition) of
                  Inl e \<Rightarrow> Some (Inl e)
                | Inr (pc, actions') \<Rightarrow>
                    matchingEverythingLoop bytecode topURLActions dfaBytecodeLength pc actions')
             else if instruction = Some TestFlagsAndAppendAction
                  \<or> instruction = Some TestFlagsAndAppendActionWithIfCondition
             then matchingEverythingLoop bytecode topURLActions dfaBytecodeLength
                    (to_u32 (int programCounter + 7)) actions
             else Some (Inr actions))
      else Some (Inr actions))"

definition actionsMatchingEverything :: "byte list \<Rightarrow> Actions result option" where
  "actionsMatchingEverything bytecode =
     (case getBits 4 bytecode 0 of
        Inl e \<Rightarrow> Some (Inl e)
      | Inr bs \<Rightarrow> matchingEverythingLoop bytecode None (nat (le_uint bs)) 4 [])"

section \<open>One instruction\<close>

record istate =
  programCounter :: nat
  urlIndex :: nat
  urlIndexIsAfterEndOfString :: bool
  iactions :: Actions

text \<open>The outcome of one pass through the \<^verbatim>\<open>switch\<close>: \<open>Inl\<close> for \<^verbatim>\<open>goto nextDFA\<close>, \<open>Inr\<close> for another
  pass.\<close>

type_synonym step_outcome = "(istate + istate) result"

definition take_edge :: "int \<Rightarrow> nat \<Rightarrow> istate \<Rightarrow> istate" where
  "take_edge distance character s =
     s\<lparr>programCounter := to_u32 (int (programCounter s) + distance),
       urlIndexIsAfterEndOfString := (if character = 0 then True else urlIndexIsAfterEndOfString s),
       urlIndex := urlIndex s + 1\<rparr>"

definition skip_bytes :: "nat \<Rightarrow> istate \<Rightarrow> istate" where
  "skip_bytes n s = s\<lparr>programCounter := to_u32 (int (programCounter s) + int n)\<rparr>"

definition read_character :: "bool \<Rightarrow> nat list \<Rightarrow> nat \<Rightarrow> nat result" where
  "read_character caseSensitive url i =
     rbind (url_at url i) (\<lambda>c. Inr (if caseSensitive then c else toASCIILower c))"

definition interpretCheckValue ::
  "bool \<Rightarrow> byte list \<Rightarrow> nat list \<Rightarrow> istate \<Rightarrow> step_outcome" where
  "interpretCheckValue caseSensitive bytecode url s =
     (if urlIndexIsAfterEndOfString s then Inr (Inl s)
      else
        rbind (read_character caseSensitive url (urlIndex s)) (\<lambda>character.
        rbind (getJumpSize bytecode (programCounter s)) (\<lambda>jumpSize.
        rbind (getBits_u8 bytecode (programCounter s + 1)) (\<lambda>value.
          if character = value
          then rbind (getJumpDistance bytecode (programCounter s + 1 + 1) jumpSize) (\<lambda>distance.
                 Inr (Inr (take_edge distance character s)))
          else rbind (jumpSizeInBytes jumpSize) (\<lambda>n.
                 Inr (Inr (skip_bytes (1 + 1 + n) s)))))))"

definition interpretCheckValueRange ::
  "bool \<Rightarrow> byte list \<Rightarrow> nat list \<Rightarrow> istate \<Rightarrow> step_outcome" where
  "interpretCheckValueRange caseSensitive bytecode url s =
     (if urlIndexIsAfterEndOfString s then Inr (Inl s)
      else
        rbind (read_character caseSensitive url (urlIndex s)) (\<lambda>character.
        rbind (getJumpSize bytecode (programCounter s)) (\<lambda>jumpSize.
        rbind (getBits_u8 bytecode (programCounter s + 1)) (\<lambda>low.
        rbind (getBits_u8 bytecode (programCounter s + 1 + 1)) (\<lambda>high.
          if character \<ge> low \<and> character \<le> high
          then rbind (getJumpDistance bytecode (programCounter s + 1 + 2 * 1) jumpSize) (\<lambda>distance.
                 Inr (Inr (take_edge distance character s)))
          else rbind (jumpSizeInBytes jumpSize) (\<lambda>n.
                 Inr (Inr (skip_bytes (1 + 2 * 1 + n) s))))))))"

definition interpetJumpTable ::
  "bool \<Rightarrow> byte list \<Rightarrow> nat list \<Rightarrow> istate \<Rightarrow> step_outcome" where
  "interpetJumpTable caseSensitive bytecode url s =
     rbind (getJumpSize bytecode (programCounter s)) (\<lambda>jumpSize.
     rbind (read_character caseSensitive url (urlIndex s)) (\<lambda>character.
     rbind (getBits_u8 bytecode (programCounter s + 1)) (\<lambda>firstCharacter.
     rbind (getBits_u8 bytecode (programCounter s + 1 + 1)) (\<lambda>lastCharacter.
     rbind (jumpSizeInBytes jumpSize) (\<lambda>n.
       if character \<ge> firstCharacter \<and> character \<le> lastCharacter
       then
         (let startOffset = programCounter s + 1 + 2 * 1;
              jumpLocation = startOffset + (character - firstCharacter) * n
          in rbind (getJumpDistance bytecode jumpLocation jumpSize) (\<lambda>distance.
               Inr (Inr (take_edge distance character s))))
       else Inr (Inr (s\<lparr>programCounter :=
              to_u32 (int (programCounter s) + 1 + 2 * 1
                      + int n * (int lastCharacter - int firstCharacter + 1))\<rparr>)))))))"

text \<open>The fallback: the character is read before the end-of-string flag is tested.\<close>

definition interpretJump :: "byte list \<Rightarrow> nat list \<Rightarrow> istate \<Rightarrow> step_outcome" where
  "interpretJump bytecode url s =
     rbind (url_at url (urlIndex s)) (\<lambda>character.
       if character = 0 \<or> urlIndexIsAfterEndOfString s then Inr (Inl s)
       else
         rbind (getJumpSize bytecode (programCounter s)) (\<lambda>jumpSize.
         rbind (getJumpDistance bytecode (programCounter s + 1) jumpSize) (\<lambda>distance.
           Inr (Inr (s\<lparr>programCounter := to_u32 (int (programCounter s) + distance),
                       urlIndex := urlIndex s + 1\<rparr>)))))"

definition after_action :: "istate \<Rightarrow> (nat \<times> Actions) result \<Rightarrow> step_outcome" where
  "after_action s r =
     rbind r (\<lambda>(pc, actions). Inr (Inr (s\<lparr>programCounter := pc, iactions := actions\<rparr>)))"

definition interpretStep ::
  "byte list \<Rightarrow> nat list \<Rightarrow> u16 \<Rightarrow> Actions option \<Rightarrow> istate \<Rightarrow> step_outcome" where
  "interpretStep bytecode url flags topURLActions s =
     rbind (getInstruction bytecode (programCounter s)) (\<lambda>instruction.
       case instruction of
         None \<Rightarrow> Inl ReleaseAssert
       | Some i \<Rightarrow>
          (case i of
             Terminate \<Rightarrow> Inr (Inl s)
           | CheckValueCaseSensitive \<Rightarrow> interpretCheckValue True bytecode url s
           | CheckValueCaseInsensitive \<Rightarrow> interpretCheckValue False bytecode url s
           | JumpTableCaseInsensitive \<Rightarrow>
               if urlIndexIsAfterEndOfString s then Inr (Inl s)
               else interpetJumpTable False bytecode url s
           | JumpTableCaseSensitive \<Rightarrow>
               if urlIndexIsAfterEndOfString s then Inr (Inl s)
               else interpetJumpTable True bytecode url s
           | CheckValueRangeCaseSensitive \<Rightarrow> interpretCheckValueRange True bytecode url s
           | CheckValueRangeCaseInsensitive \<Rightarrow> interpretCheckValueRange False bytecode url s
           | Jump \<Rightarrow> interpretJump bytecode url s
           | AppendAction \<Rightarrow> after_action s
               (interpretAppendAction bytecode topURLActions (programCounter s) (iactions s) False)
           | AppendActionWithIfCondition \<Rightarrow> after_action s
               (interpretAppendAction bytecode topURLActions (programCounter s) (iactions s) True)
           | TestFlagsAndAppendAction \<Rightarrow> after_action s
               (interpretTestFlagsAndAppendAction bytecode topURLActions (programCounter s) flags
                  (iactions s) False)
           | TestFlagsAndAppendActionWithIfCondition \<Rightarrow> after_action s
               (interpretTestFlagsAndAppendAction bytecode topURLActions (programCounter s) flags
                  (iactions s) True)))"

section \<open>The loops\<close>

partial_function (option) interpretDFA ::
  "byte list \<Rightarrow> nat list \<Rightarrow> u16 \<Rightarrow> Actions option \<Rightarrow> istate \<Rightarrow> Actions result option" where
  "interpretDFA bytecode url flags topURLActions s =
     (case interpretStep bytecode url flags topURLActions s of
        Inl e \<Rightarrow> Some (Inl e)
      | Inr (Inl s') \<Rightarrow> Some (Inr (iactions s'))
      | Inr (Inr s') \<Rightarrow> interpretDFA bytecode url flags topURLActions s')"

text \<open>The actions at the head of the first DFA: those without flags are skipped, those with flags
  are tested.\<close>

partial_function (option) skipRootActions ::
  "byte list \<Rightarrow> u16 \<Rightarrow> Actions option \<Rightarrow> nat \<Rightarrow> nat \<Rightarrow> Actions \<Rightarrow> (nat \<times> Actions) result option" where
  "skipRootActions bytecode flags topURLActions dfaBytecodeLength pc actions =
     (if pc < dfaBytecodeLength
      then
        (case getInstruction bytecode pc of
           Inl e \<Rightarrow> Some (Inl e)
         | Inr instruction \<Rightarrow>
             if instruction = Some AppendAction \<or> instruction = Some AppendActionWithIfCondition
             then skipRootActions bytecode flags topURLActions dfaBytecodeLength
                    (to_u32 (int pc + 5)) actions
             else if instruction = Some TestFlagsAndAppendAction
                  \<or> instruction = Some TestFlagsAndAppendActionWithIfCondition
             then
               (case interpretTestFlagsAndAppendAction bytecode topURLActions pc flags actions
                       (instruction = Some TestFlagsAndAppendActionWithIfCondition) of
                  Inl e \<Rightarrow> Some (Inl e)
                | Inr (pc', actions') \<Rightarrow>
                    skipRootActions bytecode flags topURLActions dfaBytecodeLength pc' actions')
             else Some (Inr (pc, actions)))
      else Some (Inr (pc, actions)))"

text \<open>\<open>interpret\<close> (here \<open>interpretUrl\<close>) from the header of one DFA on: \<open>dfaStart\<close> is the program counter at the head of the
  outer loop.\<close>

partial_function (option) interpretFrom ::
  "byte list \<Rightarrow> nat list \<Rightarrow> u16 \<Rightarrow> Actions option \<Rightarrow> nat \<Rightarrow> Actions \<Rightarrow> Actions result option" where
  "interpretFrom bytecode url flags topURLActions dfaStart actions =
     (if dfaStart < length bytecode
      then
        (case getBits 4 bytecode dfaStart of
           Inl e \<Rightarrow> Some (Inl e)
         | Inr header \<Rightarrow>
             (let dfaBytecodeLength = nat (le_uint header) in
              Option.bind
                (if dfaStart = 0
                 then skipRootActions bytecode flags topURLActions dfaBytecodeLength
                        (to_u32 (int dfaStart + 4)) actions
                 else Some (Inr (to_u32 (int dfaStart + 4), actions)))
                (\<lambda>r. case r of
                   Inl e \<Rightarrow> Some (Inl e)
                 | Inr (pc, actions1) \<Rightarrow>
                     if dfaStart = 0 \<and> pc \<ge> length bytecode then Some (Inr actions1)
                     else
                       Option.bind
                         (interpretDFA bytecode url flags topURLActions
                            \<lparr>programCounter = pc, urlIndex = 0, urlIndexIsAfterEndOfString = False,
                             iactions = actions1\<rparr>)
                         (\<lambda>r2. case r2 of
                            Inl e \<Rightarrow> Some (Inl e)
                          | Inr actions2 \<Rightarrow>
                              interpretFrom bytecode url flags topURLActions
                                (to_u32 (int dfaStart + int dfaBytecodeLength)) actions2))))
      else Some (Inr actions))"

definition interpretUrl :: "byte list \<Rightarrow> nat list \<Rightarrow> u16 \<Rightarrow> Actions result option" where
  "interpretUrl bytecode url flags = interpretFrom bytecode url flags None 0 []"

definition interpretWithConditions ::
  "byte list \<Rightarrow> nat list \<Rightarrow> u16 \<Rightarrow> Actions \<Rightarrow> Actions result option" where
  "interpretWithConditions bytecode url flags topURLActions =
     interpretFrom bytecode url flags (Some topURLActions) 0 []"

declare matchingEverythingLoop.simps [code] interpretDFA.simps [code] skipRootActions.simps [code]
  interpretFrom.simps [code]

end
