(* ===== verification/Bytecode_Correct.thy ===== *)
theory Bytecode_Correct
  imports Code_Offsets Bytecode_Interpreter
begin

text \<open>
  Interpreting compiled bytecode is running the DFA: the interpreter, started on the code of a node,
  adds the actions of every state the DFA enters while it reads the URL and its end, filtered by the
  flags of the load and by the conditions, and then stops. In particular it returns, and it reads
  neither outside the bytecode nor outside the URL.
\<close>

section \<open>Reading code\<close>

lemma code_atD:
  assumes "code_at bs pc code"
  shows "pc + length code \<le> length bs" and "take (length code) (drop pc bs) = code"
  using assms by (auto simp: code_at_def)

lemma code_at_append:
  assumes "code_at bs pc (a @ b)"
  shows "code_at bs pc a" and "code_at bs (pc + length a) b"
proof -
  obtain pre post where p: "bs = pre @ (a @ b) @ post" "length pre = pc"
    using assms by (auto simp: code_at_def)
  show "code_at bs pc a" unfolding code_at_def using p by (intro exI [of _ pre] exI [of _ "b @ post"]) simp
  show "code_at bs (pc + length a) b"
    unfolding code_at_def using p by (intro exI [of _ "pre @ a"] exI [of _ post]) simp
qed

lemma code_at_Cons:
  assumes "code_at bs pc (x # xs)"
  shows "code_at bs pc [x]" and "code_at bs (Suc pc) xs"
  using code_at_append [of bs pc "[x]" xs] assms by auto

lemma getBits_code: "code_at bs pc xs \<Longrightarrow> length xs = n \<Longrightarrow> getBits n bs pc = Inr xs"
  using code_atD [of bs pc xs] by (auto simp: getBits_def)

lemma getInstruction_code:
  "code_at bs pc [opcode i s] \<Longrightarrow> getInstruction bs pc = Inr (Some i)"
  "code_at bs pc [plain_opcode i] \<Longrightarrow> getInstruction bs pc = Inr (Some i)"
  by (simp_all add: getInstruction_def getBits_code opcode_instruction plain_opcode_instruction)

lemma getJumpSize_code: "code_at bs pc [opcode i s] \<Longrightarrow> getJumpSize bs pc = Inr (Some s)"
  by (simp add: getJumpSize_def getBits_code opcode_jumpSize)

lemma getBits_u8_code: "code_at bs pc [char_byte c] \<Longrightarrow> c < 256 \<Longrightarrow> getBits_u8 bs pc = Inr c"
  by (simp add: getBits_u8_def getBits_code char_byte_def del: of_int_of_nat_eq)

lemma jumpSizeInBytes_width: "jumpSizeInBytes (Some s) = Inr (jump_width s)"
  by (cases s) auto

lemma le_sint_byte: "- 128 \<le> v \<Longrightarrow> v < 128 \<Longrightarrow> le_sint (le_bytes 1 v) = v"
  by (rule le_sint_le_bytes) auto

lemma int24_decode:
  assumes "fits Int24 v"
  shows "le_uint (le_bytes 2 v) OR push_bit 16 (le_sint (le_bytes 1 (drop_bit 16 v))) = v"
proof -
  have "- 128 \<le> drop_bit 16 v" "drop_bit 16 v < 128"
    using assms by (auto simp: fits_simps Int24Min_def Int24Max_def drop_bit_eq_div)
  then have hi: "le_sint (le_bytes 1 (drop_bit 16 v)) = drop_bit 16 v" by (rule le_sint_byte)
  have lo: "le_uint (le_bytes 2 v) = take_bit 16 v"
    by (simp add: le_uint_le_bytes take_bit_eq_mod)
  have "take_bit 16 v OR push_bit 16 (drop_bit 16 v) = concat_bit 16 v (drop_bit 16 v)"
    by (simp add: concat_bit_def)
  also have "\<dots> = v" using bits_ident [of 16 v] by (simp add: concat_bit_eq add.commute)
  finally show ?thesis using hi lo by simp
qed

lemma getJumpDistance_code:
  assumes "code_at bs pc (le_bytes (jump_width s) v)" and "fits s v"
  shows "getJumpDistance bs pc (Some s) = Inr v"
proof (cases s)
  case Int24
  then have c: "code_at bs pc (le_bytes 2 v @ le_bytes 1 (drop_bit 16 v))"
    using assms(1) by (simp only: le_bytes_3 jump_width.simps)
  from code_at_append [OF this] have "code_at bs pc (le_bytes 2 v)" "code_at bs (pc + 2) (le_bytes 1 (drop_bit 16 v))"
    by auto
  then show ?thesis
    using Int24 int24_decode [of v] assms(2) by (simp add: getBits_code)
next
  case Int8
  then show ?thesis
    using assms le_sint_le_bytes [of 1 v] by (simp add: getBits_code fits_def)
next
  case Int16
  then show ?thesis
    using assms le_sint_le_bytes [of 2 v] by (simp add: getBits_code fits_def)
next
  case Int32
  then show ?thesis
    using assms le_sint_le_bytes [of 4 v] by (simp add: getBits_code fits_def)
qed

lemma getJumpDistance_jump:
  assumes "code_at bs pc (jump_bytes offs s loc q)" and "jump_fits offs s loc q"
  shows "getJumpDistance bs pc (Some s) = Inr (int (offs ! q) - int loc)"
  using assms getJumpDistance_code by (simp add: jump_bytes_def jump_fits_def)

section \<open>Actions\<close>

lemma IfConditionFlag_bits: "IfConditionFlag = push_bit 48 1"
  by (simp add: IfConditionFlag_def push_bit_eq_mult)

lemma ActionFlagMask_bits: "ActionFlagMask = push_bit 32 (mask 16)"
  by (simp add: ActionFlagMask_def push_bit_eq_mult mask_eq_exp_minus_1)

lemma bit_IfConditionFlag: "bit IfConditionFlag n \<longleftrightarrow> n = 48"
  unfolding IfConditionFlag_bits bit_push_bit_iff by (auto simp: bit_1_iff)

lemma bit_ActionFlagMask: "bit ActionFlagMask n \<longleftrightarrow> 32 \<le> n \<and> n < 48"
  unfolding ActionFlagMask_bits bit_push_bit_iff by (auto simp: bit_mask_iff)

lemma and_IfConditionFlag: "a AND IfConditionFlag \<noteq> 0 \<longleftrightarrow> bit a 48"
  using bit_imp_le_length [of a 48] by (auto simp: word_bits_eq_iff bit_and_iff bit_IfConditionFlag)

lemma and_ActionFlagMask: "a AND ActionFlagMask = 0 \<longleftrightarrow> (\<forall>n. 32 \<le> n \<and> n < 48 \<longrightarrow> \<not> bit a n)"
proof -
  have "a AND ActionFlagMask = 0 \<longleftrightarrow> (\<forall>n < 64. 32 \<le> n \<and> n < 48 \<longrightarrow> \<not> bit a n)"
    by (auto simp: word_bits_eq_iff bit_and_iff bit_ActionFlagMask)
  moreover have "n < 64" if "n < 48" for n :: nat using that by simp
  ultimately show ?thesis by blast
qed

lemma action_ok_bits: "action_ok a \<Longrightarrow> bit a n \<Longrightarrow> n < 49"
proof (rule ccontr)
  assume "action_ok a" "bit a n" "\<not> n < 49"
  then have "bit (drop_bit 49 a) (n - 49)" by (simp add: bit_drop_bit_eq)
  with \<open>action_ok a\<close> show False by (simp add: action_ok_def)
qed

lemma low_word: "word_of_int (le_uint (le_bytes 4 (uint a))) = take_bit 32 (a :: u64)"
proof -
  have "le_uint (le_bytes 4 (uint a)) = take_bit 32 (uint a)"
    by (simp add: le_uint_le_bytes take_bit_eq_mod)
  then show ?thesis by (simp add: word_bits_eq_iff bit_word_of_int_iff bit_take_bit_iff bit_uint_iff)
qed

lemma flags_word: "word_of_int (le_uint (le_bytes 2 (uint (drop_bit 32 a)))) = action_flags a"
proof -
  have "le_uint (le_bytes 2 (uint (drop_bit 32 a))) = take_bit 16 (uint (drop_bit 32 a))"
    by (simp add: le_uint_le_bytes take_bit_eq_mod)
  then show ?thesis
    by (auto simp: word_bits_eq_iff action_flags_def bit_word_of_int_iff bit_take_bit_iff bit_uint_iff bit_ucast_iff)
qed

lemma action_reassembled:
  assumes "action_ok a"
  shows "(if bit a 48 then IfConditionFlag else 0) OR push_bit 32 (ucast (action_flags a)) OR take_bit 32 a = a"
proof (rule bit_word_eqI)
  fix n assume n: "n < LENGTH(64)"
  have "bit (action_flags a) (n - 32) \<longleftrightarrow> n < 48 \<and> bit a n" if "32 \<le> n"
    using that n by (auto simp: action_flags_def bit_ucast_iff bit_drop_bit_eq)
  then show "bit ((if bit a 48 then IfConditionFlag else 0) OR push_bit 32 (ucast (action_flags a)) OR take_bit 32 a) n
      = bit a n"
    using action_ok_bits [OF assms, of n] n
    by (cases "n = 48") (auto simp: bit_or_iff bit_IfConditionFlag bit_push_bit_iff bit_ucast_iff bit_take_bit_iff)
qed

lemma action_flags_zero: "a AND ActionFlagMask = 0 \<longleftrightarrow> action_flags a = 0"
proof -
  have "action_flags a = 0 \<longleftrightarrow> (\<forall>n < 16. \<not> bit a (32 + n))"
    by (auto simp: word_bits_eq_iff action_flags_def bit_ucast_iff bit_drop_bit_eq)
  also have "\<dots> \<longleftrightarrow> (\<forall>n::nat. 32 \<le> n \<and> n < 48 \<longrightarrow> \<not> bit a n)"
  proof (intro iffI allI impI)
    fix n :: nat assume "\<forall>n < 16. \<not> bit a (32 + n)" "32 \<le> n \<and> n < 48"
    moreover from this have "n - 32 < 16" by auto
    ultimately have "\<not> bit a (32 + (n - 32))" by blast
    with \<open>32 \<le> n \<and> n < 48\<close> show "\<not> bit a n" by simp
  qed auto
  finally show ?thesis by (simp add: and_ActionFlagMask)
qed

text \<open>When an action's flags admit a load.\<close>

definition flags_match :: "u16 \<Rightarrow> u16 \<Rightarrow> bool" where
  "flags_match flagsToCheck flags \<longleftrightarrow>
     (flagsToCheck AND LoadTypeMask \<noteq> 0 \<longrightarrow> flagsToCheck AND LoadTypeMask AND flags \<noteq> 0) \<and>
     (flagsToCheck AND ResourceTypeMask \<noteq> 0 \<longrightarrow> flagsToCheck AND ResourceTypeMask AND flags \<noteq> 0)"

definition action_passes :: "u16 \<Rightarrow> Actions option \<Rightarrow> u64 \<Rightarrow> bool" where
  "action_passes flags topURLActions a \<longleftrightarrow>
     flags_match (action_flags a) flags \<and> passes_condition topURLActions a"

lemma flags_match_zero [simp]: "flags_match 0 flags"
  by (simp add: flags_match_def)

lemma interpretAppendAction_code:
  assumes "code_at bs pc (action_code a)" and "action_ok a" and "action_flags a = 0"
    and "length bs < 2 ^ 32"
  shows "interpretAppendAction bs cond pc acts (bit a 48) =
    Inr (pc + 5, if action_passes flags cond a then hs_add a acts else acts)"
proof -
  have a: "(if bit a 48 then IfConditionFlag else 0) OR take_bit 32 a = a"
    using action_reassembled [OF assms(2)] assms(3) by simp
  have "action_code a = plain_opcode (if bit a 48 then AppendActionWithIfCondition else AppendAction)
      # le_bytes 4 (uint a)"
    using assms(3) by (simp add: action_code_def action_flags_zero and_IfConditionFlag)
  then have "code_at bs (Suc pc) (le_bytes 4 (uint a))" "pc + 5 \<le> length bs"
    using code_at_Cons [of bs pc _ "le_bytes 4 (uint a)"] code_atD(1) [OF assms(1)] assms(1) by auto
  then show ?thesis
    using assms(3,4) a
    by (simp add: interpretAppendAction_def getBits_code low_word Let_def action_passes_def to_u32_def)
qed

lemma interpretTestFlagsAndAppendAction_code:
  assumes "code_at bs pc (action_code a)" and "action_ok a" and "action_flags a \<noteq> 0"
    and "length bs < 2 ^ 32"
  shows "interpretTestFlagsAndAppendAction bs cond pc flags acts (bit a 48) =
    Inr (pc + 7, if action_passes flags cond a then hs_add a acts else acts)"
proof -
  have "action_code a = plain_opcode (if bit a 48 then TestFlagsAndAppendActionWithIfCondition
        else TestFlagsAndAppendAction) # le_bytes 2 (uint (drop_bit 32 a)) @ le_bytes 4 (uint a)"
    using assms(3) by (simp add: action_code_def action_flags_zero and_IfConditionFlag)
  then have c: "code_at bs (Suc pc) (le_bytes 2 (uint (drop_bit 32 a)) @ le_bytes 4 (uint a))" and
    len: "pc + 7 \<le> length bs"
    using code_at_Cons [of bs pc _ "le_bytes 2 (uint (drop_bit 32 a)) @ le_bytes 4 (uint a)"]
      code_atD(1) [OF assms(1)] assms(1) by auto
  from code_at_append [OF c] have r: "getBits 2 bs (pc + 1) = Inr (le_bytes 2 (uint (drop_bit 32 a)))"
    "getBits 4 bs (pc + 1 + 2) = Inr (le_bytes 4 (uint a))" by (simp_all add: getBits_code)
  let ?f = "action_flags a"
  have m: "(if ?f AND LoadTypeMask \<noteq> 0 then (?f AND LoadTypeMask) AND flags \<noteq> 0 else True) \<and>
      (if ?f AND ResourceTypeMask \<noteq> 0 then (?f AND ResourceTypeMask) AND flags \<noteq> 0 else True)
      \<longleftrightarrow> flags_match ?f flags"
    by (simp add: flags_match_def and.assoc)
  have pc: "to_u32 (int pc + 7) = pc + 7"
    using len assms(4) to_u32_of_nat [of "pc + 7"] by simp
  have a: "((if bit a 48 then IfConditionFlag else 0) OR push_bit 32 (ucast ?f)) OR take_bit 32 a = a"
    using action_reassembled [OF assms(2)] by (simp add: or.assoc)
  show ?thesis
    unfolding interpretTestFlagsAndAppendAction_def r rbind_simps Let_def flags_word low_word m a
    by (simp add: action_passes_def pc)
qed

section \<open>Single instructions\<close>

lemma interpretDFA_step:
  assumes "interpretStep bs url flags cond s = Inr (Inr s')"
  shows "interpretDFA bs url flags cond s = interpretDFA bs url flags cond s'"
  using assms by (subst interpretDFA.simps) simp

lemma interpretDFA_stop:
  assumes "interpretStep bs url flags cond s = Inr (Inl s')"
  shows "interpretDFA bs url flags cond s = Some (Inr (iactions s'))"
  using assms by (subst interpretDFA.simps) simp

text \<open>Taking the edge of a character into a node.\<close>

definition enter :: "nat list \<Rightarrow> nat \<Rightarrow> nat \<Rightarrow> istate \<Rightarrow> istate" where
  "enter offs q c s = s\<lparr>programCounter := offs ! q, urlIndexIsAfterEndOfString := (c = 0),
     urlIndex := urlIndex s + 1\<rparr>"

definition at_pc :: "nat \<Rightarrow> istate \<Rightarrow> istate" where
  "at_pc pc s = s\<lparr>programCounter := pc\<rparr>"

definition reading :: "nat list \<Rightarrow> nat \<Rightarrow> istate \<Rightarrow> bool" where
  "reading url c s \<longleftrightarrow> \<not> urlIndexIsAfterEndOfString s \<and> url_at url (urlIndex s) = Inr c"

lemma at_pc_simps [simp]:
  "programCounter (at_pc pc s) = pc" "urlIndex (at_pc pc s) = urlIndex s"
  "urlIndexIsAfterEndOfString (at_pc pc s) = urlIndexIsAfterEndOfString s" "iactions (at_pc pc s) = iactions s"
  "at_pc pc (at_pc pc' s) = at_pc pc s" "enter offs q c (at_pc pc s) = enter offs q c s"
  "reading url c (at_pc pc s) = reading url c s" "at_pc (programCounter s) s = s"
  by (simp_all add: at_pc_def enter_def reading_def)

lemma read_character_key: "reading url c s \<Longrightarrow> read_character cs url (urlIndex s) = Inr (char_key cs c)"
  by (simp add: reading_def read_character_def char_key_def)

lemma char_key_zero: "char_key cs c = 0 \<longleftrightarrow> c = 0"
  by (simp add: char_key_def toASCIILower_eq isASCIIUpper_def)

lemma take_edge_enter:
  assumes "reading url c s" and "offs ! q < 2 ^ 32"
  shows "take_edge (int (offs ! q) - int (programCounter s)) (char_key cs c) s = enter offs q c s"
  using assms by (cases s) (simp add: take_edge_def enter_def reading_def char_key_zero)

lemma skip_bytes_pc: "programCounter s + n < 2 ^ 32 \<Longrightarrow> skip_bytes n s = at_pc (programCounter s + n) s"
  using to_u32_of_nat [of "programCounter s + n"] by (simp add: skip_bytes_def at_pc_def)

lemma interpretStep_range:
  assumes code: "code_at bs (programCounter s) code" "range_code offs (programCounter s) r code"
    and read: "reading url c s" and bounds: "length bs < 2 ^ 32" "offs ! range_destination r < 2 ^ 32"
      "range_min r \<le> range_max r" "range_max r < 128"
  shows "interpretStep bs url flags cond s = Inr (Inr (if range_covers r c then enter offs (range_destination r) c s
    else at_pc (programCounter s + length code) s))"
proof -
  let ?pc = "programCounter s" and ?q = "range_destination r" and ?cs = "range_caseSensitive r"
  have after: "\<not> urlIndexIsAfterEndOfString s" using read by (simp add: reading_def)
  obtain j where j: "jump_fits offs j ?pc ?q" "code = range_header r j @ jump_bytes offs j ?pc ?q"
    using code(2) by (auto simp: range_code_def)
  have h: "code_at bs ?pc (range_header r j)" "code_at bs (?pc + length (range_header r j)) (jump_bytes offs j ?pc ?q)"
    using code_at_append code(1) j(2) by auto
  have len: "?pc + length code < 2 ^ 32" "length code = length (range_header r j) + jump_width j"
    using code_atD(1) [OF code(1)] bounds(1) j(2) by (auto simp: jump_bytes_def)
  show ?thesis
  proof (cases "range_min r = range_max r")
    case True
    let ?i = "if ?cs then CheckValueCaseSensitive else CheckValueCaseInsensitive"
    have hd: "range_header r j = [opcode ?i j, char_byte (range_min r)]"
      using True by (simp add: range_header_def)
    have c: "code_at bs ?pc [opcode ?i j]" "code_at bs (Suc ?pc) [char_byte (range_min r)]"
      using code_at_Cons h(1) unfolding hd by blast+
    have "interpretStep bs url flags cond s = interpretCheckValue ?cs bs url s"
      using getInstruction_code(1) [OF c(1)] by (simp add: interpretStep_def)
    moreover have "interpretCheckValue ?cs bs url s = Inr (Inr (if range_covers r c then enter offs ?q c s
        else at_pc (?pc + length code) s))"
      using read_character_key [OF read, of ?cs] getJumpSize_code [OF c(1)] getBits_u8_code [OF c(2)]
        getJumpDistance_jump [OF h(2) j(1)] take_edge_enter [OF read bounds(2)] skip_bytes_pc [of s "length code"]
        after True bounds(3,4) len hd
      by (auto simp: interpretCheckValue_def range_covers_def jumpSizeInBytes_width)
    ultimately show ?thesis by simp
  next
    case False
    let ?i = "if ?cs then CheckValueRangeCaseSensitive else CheckValueRangeCaseInsensitive"
    have hd: "range_header r j = [opcode ?i j, char_byte (range_min r), char_byte (range_max r)]"
      using False by (simp add: range_header_def)
    have c: "code_at bs ?pc [opcode ?i j]" "code_at bs (Suc ?pc) [char_byte (range_min r)]"
      "code_at bs (Suc (Suc ?pc)) [char_byte (range_max r)]"
      using code_at_Cons h(1) unfolding hd by blast+
    have "interpretStep bs url flags cond s = interpretCheckValueRange ?cs bs url s"
      using getInstruction_code(1) [OF c(1)] by (simp add: interpretStep_def)
    moreover have "interpretCheckValueRange ?cs bs url s = Inr (Inr (if range_covers r c then enter offs ?q c s
        else at_pc (?pc + length code) s))"
      using read_character_key [OF read, of ?cs] getJumpSize_code [OF c(1)] getBits_u8_code [OF c(2)]
        getBits_u8_code [OF c(3)]
        getJumpDistance_jump [OF h(2) j(1)] take_edge_enter [OF read bounds(2)] skip_bytes_pc [of s "length code"]
        after bounds(3,4) len hd
      by (auto simp: interpretCheckValueRange_def range_covers_def jumpSizeInBytes_width numeral_3_eq_3)
    ultimately show ?thesis by simp
  qed
qed

lemma concat_code_at:
  assumes "code_at bs pc (concat (map f xs))" and "\<forall>x \<in> set xs. length (f x) = n" and "k < length xs"
  shows "code_at bs (pc + k * n) (f (xs ! k))"
  using assms
proof (induction xs arbitrary: pc k)
  case (Cons x xs)
  have c: "code_at bs pc (f x)" "code_at bs (pc + n) (concat (map f xs))"
    using code_at_append [of bs pc "f x"] Cons.prems(1,2) by auto
  show ?case
  proof (cases k)
    case 0
    then show ?thesis using c by simp
  next
    case (Suc k')
    then show ?thesis using Cons.IH [OF c(2), of k'] Cons.prems by (simp add: add.assoc)
  qed
qed simp

lemma length_concat_const: "\<forall>x \<in> set xs. length (f x) = n \<Longrightarrow> length (concat (map f xs)) = n * length xs"
  by (induction xs) auto

lemma interpretStep_table:
  assumes code: "code_at bs (programCounter s) code" "table_code offs (programCounter s) t code"
    and read: "reading url c s" and bounds: "length bs < 2 ^ 32"
      "\<And>q. q \<in> set (jt_destinations t) \<Longrightarrow> offs ! q < 2 ^ 32" and ok: "table_ok t"
  shows "interpretStep bs url flags cond s = Inr (Inr (case table_lookup c t of
      Some q \<Rightarrow> enter offs q c s | None \<Rightarrow> at_pc (programCounter s + length code) s))"
proof -
  let ?pc = "programCounter s" and ?cs = "jt_caseSensitive t" and ?v = "char_key (jt_caseSensitive t) c"
  let ?i = "if ?cs then JumpTableCaseSensitive else JumpTableCaseInsensitive"
  have after: "\<not> urlIndexIsAfterEndOfString s" using read by (simp add: reading_def)
  obtain j where j: "\<forall>q \<in> set (jt_destinations t). jump_fits offs j ?pc q"
    "code = table_header t j @ concat (map (jump_bytes offs j ?pc) (jt_destinations t))"
    using code(2) by (auto simp: table_code_def)
  have w: "\<forall>q \<in> set (jt_destinations t). length (jump_bytes offs j ?pc q) = jump_width j"
    by (simp add: jump_bytes_def)
  have len_t: "length (jt_destinations t) = jt_max t - jt_min t + 1" "jt_min t \<le> jt_max t" "jt_max t < 128"
    using ok by (cases "jt_destinations t"; auto simp: table_ok_def)+
  have h: "code_at bs ?pc (table_header t j)"
    "code_at bs (?pc + 3) (concat (map (jump_bytes offs j ?pc) (jt_destinations t)))"
    using code_at_append [of bs ?pc "table_header t j"] code(1) j(2) by (auto simp: table_header_def numeral_3_eq_3)
  have len: "length code = 3 + jump_width j * (jt_max t - jt_min t + 1)" "?pc + length code < 2 ^ 32"
    using code_atD(1) [OF code(1)] bounds(1) length_concat_const [OF w] len_t(1)
    unfolding j(2) by (auto simp: table_header_def)
  have c: "code_at bs ?pc [opcode ?i j]" "code_at bs (Suc ?pc) [char_byte (jt_min t)]"
    "code_at bs (Suc (Suc ?pc)) [char_byte (jt_max t)]"
    using code_at_Cons h(1) unfolding table_header_def by blast+
  have "interpretStep bs url flags cond s = interpetJumpTable ?cs bs url s"
    using getInstruction_code(1) [OF c(1)] after by (simp add: interpretStep_def)
  moreover have "interpetJumpTable ?cs bs url s = Inr (Inr (case table_lookup c t of
      Some q \<Rightarrow> enter offs q c s | None \<Rightarrow> at_pc (?pc + length code) s))"
  proof (cases "jt_min t \<le> ?v \<and> ?v \<le> jt_max t")
    case True
    let ?q = "jt_destinations t ! (?v - jt_min t)"
    have q: "?q \<in> set (jt_destinations t)" by (rule nth_mem) (use True len_t(1,2) in linarith)
    have "code_at bs (?pc + 3 + (?v - jt_min t) * jump_width j) (jump_bytes offs j ?pc ?q)"
      using True len_t(1,2) by (intro concat_code_at [OF h(2) w]) linarith
    note getJumpDistance_jump [OF this] bounds(2) [OF q]
    then show ?thesis
      using read_character_key [OF read, of ?cs] getJumpSize_code [OF c(1)] getBits_u8_code [OF c(2)]
        getBits_u8_code [OF c(3)] take_edge_enter [OF read, of offs ?q ?cs] q j(1) True len_t(2,3)
      by (simp add: interpetJumpTable_def table_lookup_def jumpSizeInBytes_width Let_def numeral_3_eq_3)
  next
    case False
    obtain k where "jt_max t = jt_min t + k" using le_Suc_ex [OF len_t(2)] by blast
    then have "int ?pc + 3 + int (jump_width j) * (int (jt_max t) - int (jt_min t) + 1) = int (?pc + length code)"
      unfolding len(1) by (simp add: algebra_simps)
    then have "to_u32 (int ?pc + 3 + int (jump_width j) * (int (jt_max t) - int (jt_min t) + 1)) = ?pc + length code"
      using to_u32_of_nat [OF len(2)] by (simp only:)
    then show ?thesis
      using read_character_key [OF read, of ?cs] getJumpSize_code [OF c(1)] getBits_u8_code [OF c(2)]
        getBits_u8_code [OF c(3)] False len_t(2,3)
      by (auto simp: interpetJumpTable_def table_lookup_def jumpSizeInBytes_width Let_def add.assoc at_pc_def)
  qed
  ultimately show ?thesis by simp
qed

section \<open>The code of a node\<close>

lemma ranges_run:
  assumes "seq_code (range_code offs) (programCounter s) rs code" and "code_at bs (programCounter s) code"
    and "reading url c s" and "length bs < 2 ^ 32"
    and "\<And>r. r \<in> set rs \<Longrightarrow> offs ! range_destination r < 2 ^ 32 \<and> range_min r \<le> range_max r \<and> range_max r < 128"
  shows "interpretDFA bs url flags cond s =
    (case first_some (range_lookup c) rs of
       Some q \<Rightarrow> interpretDFA bs url flags cond (enter offs q c s)
     | None \<Rightarrow> interpretDFA bs url flags cond (at_pc (programCounter s + length code) s))"
  using assms
proof (induction rs arbitrary: s code)
  case Nil
  then show ?case by simp
next
  case (Cons r rs)
  obtain a b where ab: "code = a @ b" "range_code offs (programCounter s) r a"
    "seq_code (range_code offs) (programCounter s + length a) rs b"
    using Cons.prems(1) by auto
  have c: "code_at bs (programCounter s) a" "code_at bs (programCounter s + length a) b"
    using code_at_append Cons.prems(2) ab(1) by auto
  let ?s = "at_pc (programCounter s + length a) s"
  have step: "interpretDFA bs url flags cond s =
      interpretDFA bs url flags cond (if range_covers r c then enter offs (range_destination r) c s else ?s)"
    using Cons.prems(5) [of r] Cons.prems(3,4)
    by (intro interpretDFA_step interpretStep_range [OF c(1) ab(2)]) simp_all
  show ?case
  proof (cases "range_covers r c")
    case True
    then show ?thesis using step by (simp add: range_lookup_def)
  next
    case False
    have "interpretDFA bs url flags cond ?s =
      (case first_some (range_lookup c) rs of
         Some q \<Rightarrow> interpretDFA bs url flags cond (enter offs q c ?s)
       | None \<Rightarrow> interpretDFA bs url flags cond (at_pc (programCounter ?s + length b) ?s))"
      using Cons.prems(3,4,5) ab(3) c(2) by (intro Cons.IH) simp_all
    then show ?thesis
      using range_lookup_def [of c r] False step ab(1) by (simp add: add.assoc split: option.split)
  qed
qed

lemma tables_run:
  assumes "seq_code (table_code offs) (programCounter s) ts code" and "code_at bs (programCounter s) code"
    and "reading url c s" and "length bs < 2 ^ 32"
    and "\<And>t q. t \<in> set ts \<Longrightarrow> q \<in> set (jt_destinations t) \<Longrightarrow> offs ! q < 2 ^ 32" and "\<forall>t \<in> set ts. table_ok t"
  shows "interpretDFA bs url flags cond s =
    (case first_some (table_lookup c) ts of
       Some q \<Rightarrow> interpretDFA bs url flags cond (enter offs q c s)
     | None \<Rightarrow> interpretDFA bs url flags cond (at_pc (programCounter s + length code) s))"
  using assms
proof (induction ts arbitrary: s code)
  case Nil
  then show ?case by simp
next
  case (Cons t ts)
  obtain a b where ab: "code = a @ b" "table_code offs (programCounter s) t a"
    "seq_code (table_code offs) (programCounter s + length a) ts b"
    using Cons.prems(1) by auto
  have c: "code_at bs (programCounter s) a" "code_at bs (programCounter s + length a) b"
    using code_at_append Cons.prems(2) ab(1) by auto
  let ?s = "at_pc (programCounter s + length a) s"
  have step: "interpretDFA bs url flags cond s =
      interpretDFA bs url flags cond (case table_lookup c t of Some q \<Rightarrow> enter offs q c s | None \<Rightarrow> ?s)"
    using Cons.prems(5) [of t] Cons.prems(3,4,6)
    by (intro interpretDFA_step interpretStep_table [OF c(1) ab(2)]) simp_all
  show ?case
  proof (cases "table_lookup c t")
    case (Some q)
    then show ?thesis using step by simp
  next
    case None
    have "interpretDFA bs url flags cond ?s =
      (case first_some (table_lookup c) ts of
         Some q \<Rightarrow> interpretDFA bs url flags cond (enter offs q c ?s)
       | None \<Rightarrow> interpretDFA bs url flags cond (at_pc (programCounter ?s + length b) ?s))"
      using Cons.prems(3,4,6) ab(3) c(2) Cons.prems(5) [OF list.set_intros(2)] by (intro Cons.IH) simp_all
    then show ?thesis
      using None step ab(1) by (simp add: add.assoc split: option.split)
  qed
qed

lemma final_run:
  assumes "final_code offs (programCounter s) t code" and "code_at bs (programCounter s) code"
    and "reading url c s" and "useFallbackTransition t \<Longrightarrow> offs ! fallbackTransitionTarget t < 2 ^ 32"
  shows "interpretDFA bs url flags cond s =
    (if useFallbackTransition t \<and> c \<noteq> 0
     then interpretDFA bs url flags cond (enter offs (fallbackTransitionTarget t) c s)
     else Some (Inr (iactions s)))"
proof (cases "useFallbackTransition t")
  case False
  then have "code_at bs (programCounter s) [plain_opcode Terminate]"
    using assms(1,2) by (simp add: final_code_def)
  from getInstruction_code(2) [OF this] show ?thesis
    using False by (simp add: interpretDFA_stop interpretStep_def)
next
  case True
  let ?q = "fallbackTransitionTarget t" and ?pc = "programCounter s"
  obtain j where j: "jump_fits offs j ?pc ?q" "code = opcode Jump j # jump_bytes offs j ?pc ?q"
    using assms(1) True by (auto simp: final_code_def)
  have c: "code_at bs ?pc [opcode Jump j]" "code_at bs (Suc ?pc) (jump_bytes offs j ?pc ?q)"
    using code_at_Cons assms(2) j(2) by auto
  have step: "interpretStep bs url flags cond s = interpretJump bs url s"
    using getInstruction_code(1) [OF c(1)] by (simp add: interpretStep_def)
  show ?thesis
  proof (cases "c = 0")
    case c0: True
    then have "interpretStep bs url flags cond s = Inr (Inl s)"
      using step assms(3) by (simp add: interpretJump_def reading_def)
    then show ?thesis using c0 by (simp add: interpretDFA_stop)
  next
    case False
    then have "interpretStep bs url flags cond s = Inr (Inr (enter offs ?q c s))"
      using step assms(3,4) True getJumpSize_code [OF c(1)] getJumpDistance_jump [OF c(2) j(1)]
      by (cases s) (simp add: interpretJump_def reading_def enter_def)
    then show ?thesis using True False by (simp add: interpretDFA_step)
  qed
qed

lemma transitions_run:
  assumes "transitions_code offs (programCounter s) t code" and "code_at bs (programCounter s) code"
    and "reading url c s" and "length bs < 2 ^ 32" and "\<And>q. q \<in> jump_targets t \<Longrightarrow> offs ! q < 2 ^ 32"
    and "\<forall>table \<in> set (jumpTables t). table_ok table"
    and "\<forall>r \<in> set (ranges t). range_min r \<le> range_max r \<and> range_max r < 128"
  shows "interpretDFA bs url flags cond s =
    (case transition_lookup t c of
       Some q \<Rightarrow> interpretDFA bs url flags cond (enter offs q c s)
     | None \<Rightarrow> Some (Inr (iactions s)))"
proof -
  let ?pc = "programCounter s"
  obtain a b e where code: "code = a @ b @ e" "seq_code (table_code offs) ?pc (jumpTables t) a"
    "seq_code (range_code offs) (?pc + length a) (ranges t) b" "final_code offs (?pc + length a + length b) t e"
    using assms(1) by (auto simp: transitions_code_def)
  have c: "code_at bs ?pc a" "code_at bs (?pc + length a) b" "code_at bs (?pc + length a + length b) e"
    using code_at_append [of bs ?pc a "b @ e"] code_at_append [of bs "?pc + length a" b e] assms(2) code(1) by auto
  let ?s1 = "at_pc (?pc + length a) s" and ?s2 = "at_pc (?pc + length a + length b) s"
  have read: "reading url c ?s1" "reading url c ?s2" using assms(3) by simp_all
  have 1: "interpretDFA bs url flags cond s =
    (case first_some (table_lookup c) (jumpTables t) of
       Some q \<Rightarrow> interpretDFA bs url flags cond (enter offs q c s)
     | None \<Rightarrow> interpretDFA bs url flags cond ?s1)"
    using assms(5) by (intro tables_run [OF code(2) c(1) assms(3,4) _ assms(6)]) (auto simp: jump_targets_def)
  have 2: "interpretDFA bs url flags cond ?s1 =
    (case first_some (range_lookup c) (ranges t) of
       Some q \<Rightarrow> interpretDFA bs url flags cond (enter offs q c s)
     | None \<Rightarrow> interpretDFA bs url flags cond ?s2)"
    using ranges_run [of offs ?s1 "ranges t" b bs url c flags cond] code(3) c(2) read(1) assms(4,5,7)
    by (simp add: jump_targets_def add.assoc split: option.split)
  have 3: "interpretDFA bs url flags cond ?s2 =
    (if useFallbackTransition t \<and> c \<noteq> 0
     then interpretDFA bs url flags cond (enter offs (fallbackTransitionTarget t) c s)
     else Some (Inr (iactions s)))"
    using final_run [of offs ?s2 t e bs url c flags cond] code(4) c(3) read(2) assms(5)
    by (simp add: jump_targets_def)
  show ?thesis
    using 1 2 3 by (simp add: transition_lookup_def checked_lookup_def split: option.split)
qed

text \<open>After the end of the string the code of a node stops, unless it is a fallback alone.\<close>

text \<open>The first instruction of a node's transitions.\<close>

definition checks :: "DFABytecodeInstruction set" where
  "checks = {CheckValueCaseSensitive, CheckValueCaseInsensitive, CheckValueRangeCaseSensitive,
     CheckValueRangeCaseInsensitive, JumpTableCaseSensitive, JumpTableCaseInsensitive}"

lemma table_code_head: "table_code offs loc t code \<Longrightarrow> \<exists>i \<in> checks. \<exists>j xs. code = opcode i j # xs"
  by (cases "jt_caseSensitive t") (auto simp: table_code_def table_header_def checks_def)

lemma range_code_head: "range_code offs loc r code \<Longrightarrow> \<exists>i \<in> checks. \<exists>j xs. code = opcode i j # xs"
  by (cases "range_caseSensitive r"; cases "range_min r = range_max r")
    (auto simp: range_code_def range_header_def checks_def)

lemma transitions_head:
  assumes "transitions_code offs loc t code"
  shows "\<exists>x xs. code = x # xs \<and> (x = plain_opcode Terminate \<or> (\<exists>i \<in> checks. \<exists>j. x = opcode i j) \<or>
    only_fallback t \<and> (\<exists>j. x = opcode Jump j))"
proof -
  obtain a b e where code: "code = a @ b @ e" "seq_code (table_code offs) loc (jumpTables t) a"
    "seq_code (range_code offs) (loc + length a) (ranges t) b" "final_code offs (loc + length a + length b) t e"
    using assms by (auto simp: transitions_code_def)
  consider (table) table ts where "jumpTables t = table # ts" | (range) r rs where "jumpTables t = []" "ranges t = r # rs"
    | (final) "jumpTables t = []" "ranges t = []"
    by (cases "jumpTables t"; cases "ranges t") auto
  then show ?thesis
  proof cases
    case table
    then obtain a1 a2 where "a = a1 @ a2" "table_code offs loc table a1" using code(2) by auto
    then show ?thesis using table_code_head code(1) by fastforce
  next
    case range
    then obtain b1 b2 where "b = b1 @ b2" "range_code offs (loc + length a) r b1" using code(3) by auto
    then show ?thesis using range_code_head code(1,2) range(1) by fastforce
  next
    case final
    then show ?thesis
      using code by (cases "useFallbackTransition t") (auto simp: only_fallback_def final_code_def)
  qed
qed

lemma after_end_stop:
  assumes "transitions_code offs (programCounter s) t code" and "code_at bs (programCounter s) code"
    and "urlIndexIsAfterEndOfString s" and "\<not> only_fallback t"
  shows "interpretDFA bs url flags cond s = Some (Inr (iactions s))"
proof -
  obtain x xs where x: "code = x # xs" "x = plain_opcode Terminate \<or> (\<exists>i \<in> checks. \<exists>j. x = opcode i j)"
    using transitions_head [OF assms(1)] assms(4) by blast
  have "code_at bs (programCounter s) [x]" using code_at_Cons(1) assms(2) x(1) by blast
  then have "interpretStep bs url flags cond s = Inr (Inl s)"
    using x(2) assms(3) getInstruction_code
    by (auto simp: interpretStep_def interpretCheckValue_def interpretCheckValueRange_def checks_def)
  then show ?thesis by (simp add: interpretDFA_stop)
qed

section \<open>The actions of a node\<close>

lemma hs_add_all_simps [simp]:
  "hs_add_all [] A = A" "hs_add_all (x # xs) A = hs_add_all xs (hs_add x A)"
  "hs_add_all (xs @ ys) A = hs_add_all ys (hs_add_all xs A)"
  by (simp_all add: hs_add_all_def)

definition add_actions :: "u64 list \<Rightarrow> istate \<Rightarrow> istate" where
  "add_actions as s = s\<lparr>iactions := hs_add_all as (iactions s)\<rparr>"

lemma add_actions_simps [simp]:
  "programCounter (add_actions as s) = programCounter s" "urlIndex (add_actions as s) = urlIndex s"
  "urlIndexIsAfterEndOfString (add_actions as s) = urlIndexIsAfterEndOfString s"
  "iactions (add_actions as s) = hs_add_all as (iactions s)"
  "reading url c (add_actions as s) = reading url c s" "add_actions [] s = s"
  "add_actions bs (add_actions as s) = add_actions (as @ bs) s"
  "at_pc pc (add_actions as s) = add_actions as (at_pc pc s)"
  by (simp_all add: add_actions_def reading_def at_pc_def)

lemma action_step:
  assumes "code_at bs (programCounter s) (action_code a)" and "action_ok a" and "length bs < 2 ^ 32"
  shows "interpretStep bs url flags cond s =
    Inr (Inr (add_actions (filter (action_passes flags cond) [a])
      (at_pc (programCounter s + length (action_code a)) s)))"
proof (cases "action_flags a = 0")
  case True
  let ?i = "if bit a 48 then AppendActionWithIfCondition else AppendAction"
  have c: "action_code a = plain_opcode ?i # le_bytes 4 (uint a)"
    using True by (simp add: action_code_def action_flags_zero and_IfConditionFlag)
  then have "getInstruction bs (programCounter s) = Inr (Some ?i)"
    using assms(1) code_at_Cons(1) getInstruction_code(2) by metis
  then show ?thesis
    using interpretAppendAction_code [OF assms(1,2) True assms(3), of cond "iactions s" flags] c
    by (cases "bit a 48") (auto simp: interpretStep_def after_action_def add_actions_def at_pc_def)
next
  case False
  let ?i = "if bit a 48 then TestFlagsAndAppendActionWithIfCondition else TestFlagsAndAppendAction"
  have c: "action_code a = plain_opcode ?i # le_bytes 2 (uint (drop_bit 32 a)) @ le_bytes 4 (uint a)"
    using False by (simp add: action_code_def action_flags_zero and_IfConditionFlag)
  then have "getInstruction bs (programCounter s) = Inr (Some ?i)"
    using assms(1) code_at_Cons(1) getInstruction_code(2) by metis
  then show ?thesis
    using interpretTestFlagsAndAppendAction_code [OF assms(1,2) False assms(3), of cond flags "iactions s"] c
    by (cases "bit a 48") (auto simp: interpretStep_def after_action_def add_actions_def at_pc_def)
qed

lemma actions_run:
  assumes "code_at bs (programCounter s) (actions_code as)" and "\<forall>a \<in> set as. action_ok a" and "length bs < 2 ^ 32"
  shows "interpretDFA bs url flags cond s =
    interpretDFA bs url flags cond (add_actions (filter (action_passes flags cond) as)
      (at_pc (programCounter s + length (actions_code as)) s))"
  using assms
proof (induction as arbitrary: s)
  case Nil
  then show ?case by (simp add: actions_code_def)
next
  case (Cons a as)
  have code: "actions_code (a # as) = action_code a @ actions_code as" by (simp add: actions_code_def)
  have c: "code_at bs (programCounter s) (action_code a)"
    "code_at bs (programCounter s + length (action_code a)) (actions_code as)"
    using code_at_append Cons.prems(1) unfolding code by blast+
  let ?s = "add_actions (filter (action_passes flags cond) [a]) (at_pc (programCounter s + length (action_code a)) s)"
  have "interpretDFA bs url flags cond s = interpretDFA bs url flags cond ?s"
    using Cons.prems by (intro interpretDFA_step action_step c) auto
  also have "\<dots> = interpretDFA bs url flags cond (add_actions (filter (action_passes flags cond) as)
      (at_pc (programCounter ?s + length (actions_code as)) ?s))"
    using Cons.prems c by (intro Cons.IH) auto
  also have "\<dots> = interpretDFA bs url flags cond (add_actions (filter (action_passes flags cond) (a # as))
      (at_pc (programCounter s + length (actions_code (a # as))) s))"
    by (simp add: code add.assoc)
  finally show ?case .
qed

text \<open>A fallback alone reads the character behind the end of the string.\<close>

lemma after_end_out_of_bounds:
  assumes "transitions_code offs (programCounter s) t code" and "code_at bs (programCounter s) code"
    and "urlIndex s = length url + 1" and "only_fallback t"
  shows "interpretDFA bs url flags cond s = Some (Inl OutOfBounds)"
proof -
  have "final_code offs (programCounter s) t code"
    using assms(1,4) by (auto simp: transitions_code_def only_fallback_def)
  then obtain j xs where "code = opcode Jump j # xs"
    using assms(4) by (auto simp: final_code_def only_fallback_def)
  then have "code_at bs (programCounter s) [opcode Jump j]" using code_at_Cons(1) assms(2) by blast
  from getInstruction_code(1) [OF this] have "interpretStep bs url flags cond s = Inl OutOfBounds"
    using assms(3) by (simp add: interpretStep_def interpretJump_def url_at_def)
  then show ?thesis by (subst interpretDFA.simps) simp
qed

section \<open>Running a DFA\<close>

text \<open>The actions of a node that its code adds. The code of the root starts behind its actions: they are
  handled once, before the first character.\<close>

definition entry_actions :: "DFA \<Rightarrow> nat \<Rightarrow> u64 list" where
  "entry_actions d q = (if q = dfa_root d then [] else node_actions d (dfa_nodes d ! q))"

text \<open>The transition that the compiled code takes: an end-of-line transition into the fallback target is
  not there.\<close>

definition compiled_step :: "DFA \<Rightarrow> nat \<Rightarrow> nat \<Rightarrow> nat option" where
  "compiled_step d q c =
     (case dfa_step d q c of
        None \<Rightarrow> None
      | Some t \<Rightarrow>
          if c = 0 \<and> canUseFallbackTransition d (dfa_nodes d ! q) \<and> bestFallbackTarget d (dfa_nodes d ! q) = t
          then None else Some t)"

text \<open>The actions added while the code reads the rest of a URL, from the code of a node on.\<close>

primrec visited_actions :: "DFA \<Rightarrow> nat \<Rightarrow> nat list \<Rightarrow> u64 list result" where
  "visited_actions d q [] =
     (case compiled_step d q 0 of
        None \<Rightarrow> Inr []
      | Some t \<Rightarrow> if pure_fallback d (dfa_nodes d ! t) then Inl OutOfBounds else Inr (entry_actions d t))"
| "visited_actions d q (c # w) =
     (case compiled_step d q c of
        None \<Rightarrow> Inr []
      | Some t \<Rightarrow> rbind (visited_actions d t w) (\<lambda>as. Inr (entry_actions d t @ as)))"

text \<open>When the end-of-line transitions are compiled as they are: none goes into the fallback target of its
  node, and none goes into a node whose code is a fallback alone.\<close>

definition eol_ok :: "DFA \<Rightarrow> bool" where
  "eol_ok d \<longleftrightarrow>
     list_all (\<lambda>q. isKilled (dfa_nodes d ! q) \<or>
       (case dfa_step d q 0 of
          None \<Rightarrow> True
        | Some t \<Rightarrow>
            \<not> (canUseFallbackTransition d (dfa_nodes d ! q) \<and> bestFallbackTarget d (dfa_nodes d ! q) = t) \<and>
            \<not> pure_fallback d (dfa_nodes d ! t)))
       [0 ..< length (dfa_nodes d)]"

lemma eol_okD:
  assumes "eol_ok d" and "live d q"
  shows "compiled_step d q c = dfa_step d q c"
    and "dfa_step d q 0 = Some t \<Longrightarrow> \<not> pure_fallback d (dfa_nodes d ! t)"
  using assms by (auto simp: eol_ok_def live_def list_all_iff compiled_step_def split: option.splits)

lemma live_step: "wf_dfa d \<Longrightarrow> live d q \<Longrightarrow> dfa_step d q c = Some t \<Longrightarrow> live d t"
  using dfa_step_target by (auto simp: live_def)

lemma set_visited_actions:
  assumes "eol_ok d" and "wf_dfa d" and "live d q"
  shows "\<exists>as. visited_actions d q w = Inr as \<and>
    set as \<union> dfa_acts d (dfa_root d) = dfa_visit d q (w @ [0]) \<union> dfa_acts d (dfa_root d)"
  using assms(3)
proof (induction w arbitrary: q)
  case Nil
  then show ?case
    using eol_okD [OF assms(1) Nil] by (auto simp: entry_actions_def dfa_acts_def split: option.splits)
next
  case (Cons c w)
  show ?case
  proof (cases "dfa_step d q c")
    case None
    then show ?thesis using eol_okD(1) [OF assms(1) Cons.prems] by simp
  next
    case (Some t)
    obtain as where as: "visited_actions d t w = Inr as"
      "set as \<union> dfa_acts d (dfa_root d) = dfa_visit d t (w @ [0]) \<union> dfa_acts d (dfa_root d)"
      using Cons.IH [OF live_step [OF assms(2) Cons.prems Some]] by blast
    have "set (entry_actions d t) \<union> dfa_acts d (dfa_root d) = dfa_acts d t \<union> dfa_acts d (dfa_root d)"
      by (auto simp: entry_actions_def dfa_acts_def)
    with as Some show ?thesis
      using eol_okD(1) [OF assms(1) Cons.prems, of c] by (simp add: Un_assoc) blast
  qed
qed

definition actions_ok :: "DFA \<Rightarrow> bool" where
  "actions_ok d \<longleftrightarrow> list_all action_ok (dfa_actions d)"

lemma node_actions_ok:
  assumes "wf_dfa d" and "live d q" and "actions_ok d"
  shows "\<forall>a \<in> set (node_actions d (dfa_nodes d ! q)). action_ok a"
proof -
  have "wf_node d (dfa_nodes d ! q)" using assms by (auto simp: wf_dfa_def live_def)
  then show ?thesis
    using assms(3) by (auto simp: wf_node_def node_actions_def actions_ok_def list_all_length)
qed

lemma live_node:
  assumes "wf_dfa d" and "live d q"
  shows "sorted_from 0 (node_transitions d (dfa_nodes d ! q))"
    and "\<forall>(r, t) \<in> set (node_transitions d (dfa_nodes d ! q)). t < noDestination"
proof -
  have n: "wf_node d (dfa_nodes d ! q)" using assms by (auto simp: wf_dfa_def live_def)
  show "sorted_from 0 (node_transitions d (dfa_nodes d ! q))" using n by (simp add: wf_node_def)
  have "length (dfa_nodes d) < noDestination" using assms by (simp add: wf_dfa_def noDestination_def)
  then show "\<forall>(r, t) \<in> set (node_transitions d (dfa_nodes d ! q)). t < noDestination"
    using n by (auto simp: wf_node_def)
qed

lemma live_transition_lookup:
  assumes "wf_dfa d" and "live d q" and "c < 128"
  shows "transition_lookup (transitions d (dfa_nodes d ! q)) c = compiled_step d q c"
proof (cases "c = 0")
  case True
  then show ?thesis
    using transition_lookup_zero [OF live_node [OF assms(1,2)]]
    by (simp add: compiled_step_def dfa_step_def split: option.split)
next
  case False
  then show ?thesis
    using transition_lookup_step [OF live_node [OF assms(1,2)] assms(3)]
    by (simp add: compiled_step_def dfa_step_def split: option.split)
qed

lemma compiled_step_live: "wf_dfa d \<Longrightarrow> live d q \<Longrightarrow> compiled_step d q c = Some t \<Longrightarrow> live d t"
  using live_step by (auto simp: compiled_step_def split: option.splits if_splits)

lemma layoutD:
  assumes "layout d offs bs" and "live d q"
  shows "offs ! q \<le> length bs"
    and "\<exists>code. code_at bs (offs ! q) (actions_code (entry_actions d q) @ code) \<and>
      transitions_code offs (offs ! q + length (actions_code (entry_actions d q))) (transitions d (dfa_nodes d ! q)) code"
proof -
  show code: "\<exists>code. code_at bs (offs ! q) (actions_code (entry_actions d q) @ code) \<and>
      transitions_code offs (offs ! q + length (actions_code (entry_actions d q))) (transitions d (dfa_nodes d ! q)) code"
    using assms(1) [unfolded layout_def, THEN conjunct2, rule_format, OF assms(2)]
    by (cases "q = dfa_root d") (simp_all add: entry_actions_def actions_code_def)
  then show "offs ! q \<le> length bs" using code_atD(1) by fastforce
qed

lemma entry_actions_ok:
  "wf_dfa d \<Longrightarrow> live d q \<Longrightarrow> actions_ok d \<Longrightarrow> \<forall>a \<in> set (entry_actions d q). action_ok a"
  using node_actions_ok by (simp add: entry_actions_def)

text \<open>The interpreter from the code of a node on: its actions, then its transitions.\<close>

lemma node_transitions_run:
  assumes "layout d offs bs" and "wf_dfa d" and "live d q" and "length bs < 2 ^ 32"
    and "code_at bs (programCounter s) code"
    and "transitions_code offs (programCounter s) (transitions d (dfa_nodes d ! q)) code"
    and "reading url c s" and "c < 128"
  shows "interpretDFA bs url flags cond s =
    (case compiled_step d q c of
       Some q' \<Rightarrow> interpretDFA bs url flags cond (enter offs q' c s)
     | None \<Rightarrow> Some (Inr (iactions s)))"
proof -
  let ?T = "transitions d (dfa_nodes d ! q)"
  have "offs ! q' < 2 ^ 32" if "q' \<in> jump_targets ?T" for q'
    using layoutD(1) [OF assms(1) wf_dfa_live(2) [OF assms(2,3) that]] assms(4) by simp
  from transitions_run [OF assms(6,5,7,4) this transitions_ok(1,2) [OF live_node(1) [OF assms(2,3)]]]
  show ?thesis using live_transition_lookup [OF assms(2,3,8)] by simp
qed

definition behind_actions :: "u16 \<Rightarrow> Actions option \<Rightarrow> DFA \<Rightarrow> nat list \<Rightarrow> nat \<Rightarrow> istate \<Rightarrow> istate" where
  "behind_actions flags cond d offs q s =
     add_actions (filter (action_passes flags cond) (entry_actions d q))
       (at_pc (offs ! q + length (actions_code (entry_actions d q))) s)"

lemma node_actions_run:
  assumes "layout d offs bs" and "wf_dfa d" and "actions_ok d" and "length bs < 2 ^ 32" and "live d q"
    and "programCounter s = offs ! q"
  shows "interpretDFA bs url flags cond s = interpretDFA bs url flags cond (behind_actions flags cond d offs q s)"
    and "\<exists>code. code_at bs (programCounter (behind_actions flags cond d offs q s)) code \<and>
      transitions_code offs (programCounter (behind_actions flags cond d offs q s)) (transitions d (dfa_nodes d ! q)) code"
proof -
  obtain code where code: "code_at bs (offs ! q) (actions_code (entry_actions d q) @ code)"
    "transitions_code offs (offs ! q + length (actions_code (entry_actions d q))) (transitions d (dfa_nodes d ! q)) code"
    using layoutD(2) [OF assms(1,5)] by blast
  show "interpretDFA bs url flags cond s = interpretDFA bs url flags cond (behind_actions flags cond d offs q s)"
    using actions_run [of bs s "entry_actions d q"] code_at_append(1) [OF code(1)] assms(4,6)
      entry_actions_ok [OF assms(2,5,3)] by (simp add: behind_actions_def)
  show "\<exists>code. code_at bs (programCounter (behind_actions flags cond d offs q s)) code \<and>
      transitions_code offs (programCounter (behind_actions flags cond d offs q s)) (transitions d (dfa_nodes d ! q)) code"
    using code_at_append(2) [OF code(1)] code(2) by (auto simp: behind_actions_def)
qed

lemma behind_actions_simps [simp]:
  "reading url c (behind_actions flags cond d offs q s) = reading url c s"
  "iactions (behind_actions flags cond d offs q s) =
     hs_add_all (filter (action_passes flags cond) (entry_actions d q)) (iactions s)"
  "urlIndex (behind_actions flags cond d offs q s) = urlIndex s"
  "urlIndexIsAfterEndOfString (behind_actions flags cond d offs q s) = urlIndexIsAfterEndOfString s"
  by (simp_all add: behind_actions_def)

lemma enter_simps [simp]:
  "programCounter (enter offs q c s) = offs ! q" "iactions (enter offs q c s) = iactions s"
  "urlIndexIsAfterEndOfString (enter offs q c s) = (c = 0)" "urlIndex (enter offs q c s) = urlIndex s + 1"
  by (simp_all add: enter_def)

text \<open>A node entered by the end-of-line edge.\<close>

lemma after_end_run:
  assumes "layout d offs bs" and "wf_dfa d" and "actions_ok d" and "length bs < 2 ^ 32" and "live d q"
    and "programCounter s = offs ! q" and "urlIndexIsAfterEndOfString s" and "urlIndex s = length url + 1"
  shows "interpretDFA bs url flags cond s =
    Some (if pure_fallback d (dfa_nodes d ! q) then Inl OutOfBounds
          else Inr (hs_add_all (filter (action_passes flags cond) (entry_actions d q)) (iactions s)))"
proof -
  let ?s = "behind_actions flags cond d offs q s"
  note A = node_actions_run(1) [OF assms(1-6), of url flags cond] node_actions_run(2) [OF assms(1-6), of flags cond]
  obtain code where code: "code_at bs (programCounter ?s) code"
    "transitions_code offs (programCounter ?s) (transitions d (dfa_nodes d ! q)) code"
    using A(2) by blast
  show ?thesis
    using after_end_stop [OF code(2,1), of url flags cond] after_end_out_of_bounds [OF code(2,1), of url flags cond]
      only_fallback_iff [OF live_node [OF assms(2,5)]] A(1) assms(7,8) by simp
qed

lemma node_run:
  assumes "layout d offs bs" and "wf_dfa d" and "actions_ok d" and "length bs < 2 ^ 32"
    and "live d q" and "programCounter s = offs ! q"
    and "url = pre @ w" and "urlIndex s = length pre" and "\<not> urlIndexIsAfterEndOfString s"
    and "\<forall>c \<in> set w. 0 < c \<and> c < 128"
  shows "interpretDFA bs url flags cond s =
    Some (rbind (visited_actions d q w) (\<lambda>as.
      Inr (hs_add_all (filter (action_passes flags cond) (entry_actions d q @ as)) (iactions s))))"
  using assms(5-)
proof (induction w arbitrary: pre q s)
  case Nil
  let ?s = "behind_actions flags cond d offs q s"
  note A = node_actions_run(1) [OF assms(1-4) Nil(1,2), of url flags cond] node_actions_run(2) [OF assms(1-4) Nil(1,2), of flags cond]
  obtain code where code: "code_at bs (programCounter ?s) code"
    "transitions_code offs (programCounter ?s) (transitions d (dfa_nodes d ! q)) code"
    using A(2) by blast
  have T: "interpretDFA bs url flags cond ?s = (case compiled_step d q 0 of
       Some q' \<Rightarrow> interpretDFA bs url flags cond (enter offs q' 0 ?s)
     | None \<Rightarrow> Some (Inr (iactions ?s)))"
    using Nil(3-5) by (intro node_transitions_run [OF assms(1,2) Nil(1) assms(4) code])
      (auto simp: reading_def url_at_def)
  show ?case
  proof (cases "compiled_step d q 0")
    case (Some q')
    show ?thesis
      using after_end_run [OF assms(1-4) compiled_step_live [OF assms(2) Nil(1) Some], of "enter offs q' 0 ?s" url]
        A(1) T Some Nil(3,4) by simp
  qed (use A(1) T in simp)
next
  case (Cons c w)
  let ?s = "behind_actions flags cond d offs q s"
  note A = node_actions_run(1) [OF assms(1-4) Cons.prems(1,2), of url flags cond] node_actions_run(2) [OF assms(1-4) Cons.prems(1,2), of flags cond]
  obtain code where code: "code_at bs (programCounter ?s) code"
    "transitions_code offs (programCounter ?s) (transitions d (dfa_nodes d ! q)) code"
    using A(2) by blast
  have T: "interpretDFA bs url flags cond ?s = (case compiled_step d q c of
       Some q' \<Rightarrow> interpretDFA bs url flags cond (enter offs q' c ?s)
     | None \<Rightarrow> Some (Inr (iactions ?s)))"
    using Cons.prems(3-6) by (intro node_transitions_run [OF assms(1,2) Cons.prems(1) assms(4) code])
      (auto simp: reading_def url_at_def nth_append)
  show ?case
  proof (cases "compiled_step d q c")
    case (Some q')
    have "interpretDFA bs url flags cond (enter offs q' c ?s) =
      Some (rbind (visited_actions d q' w) (\<lambda>as. Inr (hs_add_all (filter (action_passes flags cond)
        (entry_actions d q' @ as)) (iactions (enter offs q' c ?s)))))"
      using Cons.prems(3-6) compiled_step_live [OF assms(2) Cons.prems(1) Some]
      by (intro Cons.IH [where pre = "pre @ [c]"]) auto
    then show ?thesis using A(1) T Some by (simp add: rbind_def split: sum.split)
  qed (use A(1) T in simp)
qed

end
