(* ===== verification/Bytecode_Program.thy ===== *)
theory Bytecode_Program
  imports Bytecode_Correct
begin

text \<open>
  Several DFAs: \<^verbatim>\<open>compileToBytecode\<close> compiles every DFA into a buffer of its own and hands the
  buffers to the client, which stores them one behind the other. The jumps are relative, so a program
  works at any position. The root of the first DFA carries the actions that match everything: those without
  flags are skipped by \<open>interpret\<close> and collected by \<open>actionsMatchingEverything\<close>.
\<close>

definition compileAll :: "DFA list \<Rightarrow> byte list result" where
  "compileAll ds = fold (\<lambda>d acc. rbind acc (\<lambda>bs. rbind (compile d []) (\<lambda>b. Inr (bs @ b)))) ds (Inr [])"

section \<open>Code can be moved\<close>

definition shift :: "nat \<Rightarrow> nat list \<Rightarrow> nat list" where
  "shift k offs = map ((+) k) offs"

lemma jump_shift:
  assumes "q < length offs"
  shows "jump_bytes (shift k offs) s (k + loc) q = jump_bytes offs s loc q"
    and "jump_fits (shift k offs) s (k + loc) q = jump_fits offs s loc q"
  using assms by (simp_all add: jump_bytes_def jump_fits_def shift_def)

lemma table_code_shift:
  assumes "table_code offs loc t code" and "set (jt_destinations t) \<subseteq> {..< length offs}"
  shows "table_code (shift k offs) (k + loc) t code"
proof -
  obtain s where s: "\<forall>q \<in> set (jt_destinations t). jump_fits offs s loc q"
    "code = table_header t s @ concat (map (jump_bytes offs s loc) (jt_destinations t))"
    using assms(1) by (auto simp: table_code_def)
  have m: "map (jump_bytes (shift k offs) s (k + loc)) (jt_destinations t) = map (jump_bytes offs s loc) (jt_destinations t)"
    using assms(2) jump_shift(1) by auto
  have "\<forall>q \<in> set (jt_destinations t). jump_fits (shift k offs) s (k + loc) q"
    using s(1) assms(2) jump_shift(2) by auto
  then show ?thesis
    unfolding table_code_def s(2) m [symmetric] by blast
qed

lemma range_code_shift:
  assumes "range_code offs loc r code" and "range_destination r < length offs"
  shows "range_code (shift k offs) (k + loc) r code"
  using assms jump_shift [OF assms(2)] by (simp add: range_code_def)

lemma seq_code_shift:
  assumes "seq_code P loc xs code" and "\<And>loc x code. x \<in> set xs \<Longrightarrow> P loc x code \<Longrightarrow> Q (k + loc) x code"
  shows "seq_code Q (k + loc) xs code"
  using assms
proof (induction xs arbitrary: loc code)
  case (Cons x xs)
  then obtain a b where "code = a @ b" "P loc x a" "seq_code P (loc + length a) xs b" by auto
  moreover have "seq_code Q (k + (loc + length a)) xs b"
    using Cons.IH [of "loc + length a" b] Cons.prems(2) calculation(3) by simp
  moreover have "Q (k + loc) x a" using Cons.prems(2) calculation(2) by simp
  ultimately show ?case
    unfolding seq_code.simps by (intro exI [of _ a] exI [of _ b]) (simp add: add.assoc)
qed simp

lemma transitions_code_shift:
  assumes "transitions_code offs loc t code" and "jump_targets t \<subseteq> {..< length offs}"
  shows "transitions_code (shift k offs) (k + loc) t code"
proof -
  obtain a b e where c: "code = a @ b @ e" "seq_code (table_code offs) loc (jumpTables t) a"
    "seq_code (range_code offs) (loc + length a) (ranges t) b" "final_code offs (loc + length a + length b) t e"
    using assms(1) by (auto simp: transitions_code_def)
  have "seq_code (table_code (shift k offs)) (k + loc) (jumpTables t) a"
    using assms(2) by (intro seq_code_shift [OF c(2)] table_code_shift) (auto simp: jump_targets_def)
  moreover have "seq_code (range_code (shift k offs)) (k + (loc + length a)) (ranges t) b"
    using assms(2) by (intro seq_code_shift [OF c(3)] range_code_shift) (auto simp: jump_targets_def)
  moreover have "final_code (shift k offs) (k + (loc + length a + length b)) t e"
    using c(4) assms(2) jump_shift [of "fallbackTransitionTarget t" offs k]
    by (auto simp: final_code_def jump_targets_def split: if_splits)
  ultimately show ?thesis
    unfolding transitions_code_def using c(1)
    by (intro exI [of _ a] exI [of _ b] exI [of _ e]) (simp add: add.assoc)
qed

lemma code_at_shift: "code_at bs pc code \<Longrightarrow> length pre = k \<Longrightarrow> code_at (pre @ bs @ post) (k + pc) code"
  unfolding code_at_def by (metis append.assoc length_append)

lemma layout_shift:
  assumes "layout d offs bs" and "wf_dfa d" and "length pre = k"
  shows "layout d (shift k offs) (pre @ bs @ post)"
  unfolding layout_def
proof (intro conjI allI impI)
  show "length (shift k offs) = length (dfa_nodes d)" using assms(1) by (simp add: layout_def shift_def)
  fix i assume i: "live d i"
  let ?acts = "if i = dfa_root d then [] else actions_code (node_actions d (dfa_nodes d ! i))"
  let ?n = "if i = dfa_root d then 0 else length (actions_code (node_actions d (dfa_nodes d ! i)))"
  have len: "length offs = length (dfa_nodes d)" using assms(1) by (simp add: layout_def)
  then have off: "shift k offs ! i = k + offs ! i" using i by (simp add: shift_def live_def)
  have targets: "jump_targets (transitions d (dfa_nodes d ! i)) \<subseteq> {..< length offs}"
    using wf_dfa_live(2) [OF assms(2) i] len by (auto simp: live_def)
  obtain code where code: "code_at bs (offs ! i) (?acts @ code)"
    "transitions_code offs (offs ! i + ?n) (transitions d (dfa_nodes d ! i)) code"
    using assms(1) [unfolded layout_def, THEN conjunct2, rule_format, OF i] by blast
  show "\<exists>code. code_at (pre @ bs @ post) (shift k offs ! i) (?acts @ code) \<and>
      transitions_code (shift k offs) (shift k offs ! i + ?n) (transitions d (dfa_nodes d ! i)) code"
    unfolding off add.assoc
    using code_at_shift [OF code(1) assms(3)] transitions_code_shift [OF code(2) targets] by blast
qed

section \<open>One DFA at a position\<close>

text \<open>What a good DFA is for the compiler and the interpreter.\<close>

definition good_dfa :: "DFA \<Rightarrow> bool" where
  "good_dfa d \<longleftrightarrow> wf_dfa d \<and> dfa_size_bound d \<le> 2 ^ 30 \<and> actions_ok d"

definition root_actions :: "DFA \<Rightarrow> u64 list" where
  "root_actions d = node_actions d (dfa_nodes d ! dfa_root d)"

text \<open>A compiled DFA somewhere in a bytecode buffer: its header, the actions of the root, its nodes.\<close>

definition program_at :: "byte list \<Rightarrow> nat \<Rightarrow> nat \<Rightarrow> DFA \<Rightarrow> nat list \<Rightarrow> bool" where
  "program_at bs start sz d offs \<longleftrightarrow>
     start + sz \<le> length bs \<and> sz < 2 ^ 32 \<and>
     code_at bs start (le_bytes 4 (int sz)) \<and> code_at bs (start + 4) (actions_code (root_actions d)) \<and>
     offs ! dfa_root d = start + 4 + length (actions_code (root_actions d)) \<and>
     offs ! dfa_root d < start + sz \<and>
     layout d offs bs"

lemma good_dfa_size:
  assumes "good_dfa d"
  shows "dfa_max_size d \<le> dfa_size_bound d" and "dfa_max_size d \<le> 2 ^ 30"
proof -
  show "dfa_max_size d \<le> dfa_size_bound d"
    using assms by (intro dfa_max_size_bound) (simp add: good_dfa_def wf_dfa_def)
  with assms show "dfa_max_size d \<le> 2 ^ 30" by (simp add: good_dfa_def)
qed

lemma compile_program:
  assumes "good_dfa d"
  shows "\<exists>code. compile d [] = Inr code \<and> length code \<le> dfa_max_size d \<and> 4 \<le> length code \<and>
    (\<forall>pre post. \<exists>offs. program_at (pre @ code @ post) (length pre) (length code) d offs)"
proof -
  have comp: "compilable d []" using assms good_dfa_size(2) by (simp add: good_dfa_def compilable_def)
  have wf: "wf_dfa d" using assms by (simp add: good_dfa_def)
  obtain tc where tc: "compile d [] = Inr (le_bytes 4 (int (4 + length (actions_code (root_actions d) @ tc)))
        @ actions_code (root_actions d) @ tc)"
    "4 + length (actions_code (root_actions d) @ tc) \<le> dfa_max_size d" "tc \<noteq> []"
    "final_offsets d [] ! dfa_root d = 4 + length (actions_code (root_actions d))"
    "layout d (final_offsets d []) (le_bytes 4 (int (4 + length (actions_code (root_actions d) @ tc)))
       @ actions_code (root_actions d) @ tc)"
    using compile_layout [OF comp] unfolding Let_def root_actions_def
    by (metis append_Nil append_Nil2 add_0 list.size(3))
  let ?n = "4 + length (actions_code (root_actions d) @ tc)"
  let ?code = "le_bytes 4 (int ?n) @ actions_code (root_actions d) @ tc"
  have len: "length ?code = ?n" by simp
  have "program_at (pre @ ?code @ post) (length pre) (length ?code) d (shift (length pre) (final_offsets d []))"
    for pre post
  proof -
    have "dfa_root d < length (dfa_nodes d)" using wf by (simp add: wf_dfa_def)
    then have "shift (length pre) (final_offsets d []) ! dfa_root d =
        length pre + 4 + length (actions_code (root_actions d))"
      using tc(4) length_final_offsets [OF wf, of "[]"] by (simp add: shift_def)
    moreover have "code_at (pre @ ?code @ post) (length pre) (le_bytes 4 (int ?n))"
      unfolding code_at_def by (intro exI [of _ pre] exI [of _ "(actions_code (root_actions d) @ tc) @ post"]) simp
    moreover have "code_at (pre @ ?code @ post) (length pre + 4) (actions_code (root_actions d))"
      unfolding code_at_def
      by (intro exI [of _ "pre @ le_bytes 4 (int ?n)"] exI [of _ "tc @ post"]) simp
    moreover have "?n < 2 ^ 32" using tc(2) good_dfa_size(2) [OF assms] by simp
    ultimately show ?thesis
      unfolding program_at_def len using layout_shift [OF tc(5) wf refl] tc(3) by simp
  qed
  then show ?thesis using tc(1,2) by (intro exI [of _ ?code]) auto
qed

section \<open>The actions of the root\<close>

abbreviation flagged :: "u64 \<Rightarrow> bool" where
  "flagged a \<equiv> action_flags a \<noteq> 0"

lemma action_code_instruction:
  assumes "code_at bs pc (action_code a)"
  shows "getInstruction bs pc = Inr (Some (if flagged a
    then (if bit a 48 then TestFlagsAndAppendActionWithIfCondition else TestFlagsAndAppendAction)
    else (if bit a 48 then AppendActionWithIfCondition else AppendAction)))"
  using assms code_at_Cons(1) getInstruction_code(2)
  by (cases "flagged a"; cases "bit a 48")
    (fastforce simp: action_code_def action_flags_zero and_IfConditionFlag)+

definition no_action :: "byte list \<Rightarrow> nat \<Rightarrow> bool" where
  "no_action bs pc \<longleftrightarrow> (\<exists>i. getInstruction bs pc = Inr (Some i) \<and> i \<notin> {AppendAction, AppendActionWithIfCondition,
     TestFlagsAndAppendAction, TestFlagsAndAppendActionWithIfCondition})"

lemma transitions_no_action:
  assumes "transitions_code offs pc t code" and "code_at bs pc code"
  shows "no_action bs pc"
proof -
  obtain x xs where x: "code = x # xs" "x = plain_opcode Terminate \<or> (\<exists>i \<in> checks. \<exists>j. x = opcode i j) \<or>
      (\<exists>j. x = opcode Jump j)"
    using transitions_head [OF assms(1)] by blast
  have "code_at bs pc [x]" using code_at_Cons(1) assms(2) x(1) by blast
  then show ?thesis using x(2) getInstruction_code by (auto simp: no_action_def checks_def)
qed

lemma length_action_code_flagged: "length (action_code a) = (if flagged a then 7 else 5)"
  by (simp add: length_action_code appendActionBytecodeSize_def action_flags_zero)

lemma skipRootActions_code:
  assumes "code_at bs pc (actions_code as)" and "no_action bs (pc + length (actions_code as))"
    and "pc + length (actions_code as) < n" and "\<forall>a \<in> set as. action_ok a" and "length bs < 2 ^ 32"
  shows "skipRootActions bs flags cond n pc A =
    Some (Inr (pc + length (actions_code as), hs_add_all (filter (action_passes flags cond) (filter flagged as)) A))"
  using assms
proof (induction as arbitrary: pc A)
  case Nil
  then show ?case by (subst skipRootActions.simps) (auto simp: actions_code_def no_action_def)
next
  case (Cons a as)
  have code: "actions_code (a # as) = action_code a @ actions_code as" by (simp add: actions_code_def)
  have c: "code_at bs pc (action_code a)" "code_at bs (pc + length (action_code a)) (actions_code as)"
    using code_at_append Cons.prems(1) unfolding code by blast+
  have len: "pc + length (action_code a) \<le> length bs" using code_atD(1) [OF c(1)] .
  let ?A = "hs_add_all (filter (action_passes flags cond) (filter flagged [a])) A"
  have "skipRootActions bs flags cond n pc A = skipRootActions bs flags cond n (pc + length (action_code a)) ?A"
  proof (cases "flagged a")
    case True
    then show ?thesis
      using action_code_instruction [OF c(1)] Cons.prems(3,4,5)
        interpretTestFlagsAndAppendAction_code [OF c(1) _ True, of cond flags A]
      by (subst skipRootActions.simps) (cases "bit a 48"; simp add: length_action_code_flagged)
  next
    case False
    have "to_u32 (int pc + 5) = pc + 5"
      using len Cons.prems(5) False to_u32_of_nat [of "pc + 5"] by (simp add: length_action_code_flagged)
    then show ?thesis
      using False action_code_instruction [OF c(1)] Cons.prems(3)
      by (subst skipRootActions.simps) (simp add: length_action_code_flagged)
  qed
  also have "\<dots> = Some (Inr (pc + length (action_code a) + length (actions_code as),
      hs_add_all (filter (action_passes flags cond) (filter flagged as)) ?A))"
    using Cons.prems c(2) code by (intro Cons.IH) (auto simp: add.assoc)
  finally show ?case by (simp add: code add.assoc)
qed

lemma matchingEverythingLoop_code:
  assumes "code_at bs pc (actions_code as)" and "no_action bs (pc + length (actions_code as))"
    and "pc + length (actions_code as) < n" and "\<forall>a \<in> set as. action_ok a" and "length bs < 2 ^ 32"
  shows "matchingEverythingLoop bs None n pc A = Some (Inr (hs_add_all (filter (\<lambda>a. \<not> flagged a) as) A))"
  using assms
proof (induction as arbitrary: pc A)
  case Nil
  then show ?case by (subst matchingEverythingLoop.simps) (auto simp: actions_code_def no_action_def)
next
  case (Cons a as)
  have code: "actions_code (a # as) = action_code a @ actions_code as" by (simp add: actions_code_def)
  have c: "code_at bs pc (action_code a)" "code_at bs (pc + length (action_code a)) (actions_code as)"
    using code_at_append Cons.prems(1) unfolding code by blast+
  have len: "pc + length (action_code a) \<le> length bs" using code_atD(1) [OF c(1)] .
  let ?A = "hs_add_all (filter (\<lambda>a. \<not> flagged a) [a]) A"
  have "matchingEverythingLoop bs None n pc A = matchingEverythingLoop bs None n (pc + length (action_code a)) ?A"
  proof (cases "flagged a")
    case False
    then show ?thesis
      using action_code_instruction [OF c(1)] Cons.prems(3,4,5)
        interpretAppendAction_code [OF c(1) _ _ Cons.prems(5), of None A 0]
      by (subst matchingEverythingLoop.simps)
        (cases "bit a 48"; simp add: length_action_code_flagged action_passes_def passes_condition_def)
  next
    case True
    have "to_u32 (int pc + 7) = pc + 7"
      using len Cons.prems(5) True to_u32_of_nat [of "pc + 7"] by (simp add: length_action_code_flagged)
    then show ?thesis
      using True action_code_instruction [OF c(1)] Cons.prems(3)
      by (subst matchingEverythingLoop.simps) (simp add: length_action_code_flagged)
  qed
  also have "\<dots> = Some (Inr (hs_add_all (filter (\<lambda>a. \<not> flagged a) as) ?A))"
    using Cons.prems c(2) code by (intro Cons.IH) (auto simp: add.assoc)
  finally show ?case by simp
qed

section \<open>Interpreting the program of one DFA\<close>

lemma program_root:
  assumes "program_at bs start n d offs" and "good_dfa d"
  shows "live d (dfa_root d)" and "no_action bs (offs ! dfa_root d)"
proof -
  show root: "live d (dfa_root d)" using assms(2) by (simp add: good_dfa_def live_root)
  have "layout d offs bs" using assms(1) by (simp add: program_at_def)
  from layoutD(2) [OF this root] show "no_action bs (offs ! dfa_root d)"
    using transitions_no_action by (auto simp: entry_actions_def actions_code_def)
qed

lemma root_actions_ok: "good_dfa d \<Longrightarrow> \<forall>a \<in> set (root_actions d). action_ok a"
  unfolding good_dfa_def root_actions_def using node_actions_ok live_root by blast

lemma header_code:
  assumes "program_at bs start n d offs"
  shows "getBits 4 bs start = Inr (le_bytes 4 (int n)) \<and> nat (le_uint (le_bytes 4 (int n))) = n"
  using assms by (simp add: program_at_def getBits_code le_uint_le_bytes_id)

text \<open>The actions a DFA contributes: those of its root, without the unflagged ones if it is the first
  DFA, and those of the states it enters.\<close>

definition dfa_result :: "bool \<Rightarrow> DFA \<Rightarrow> nat list \<Rightarrow> u64 list result" where
  "dfa_result first d url =
     rbind (visited_actions d (dfa_root d) url) (\<lambda>as.
       Inr ((if first then filter flagged (root_actions d) else root_actions d) @ as))"

lemma interpretDFA_program:
  assumes prog: "program_at bs start n d offs" and good: "good_dfa d" and len: "length bs < 2 ^ 32"
    and url: "\<forall>c \<in> set url. 0 < c \<and> c < 128"
  shows "interpretDFA bs url flags cond
      \<lparr>programCounter = offs ! dfa_root d, urlIndex = 0, urlIndexIsAfterEndOfString = False, iactions = A\<rparr> =
    Some (rbind (visited_actions d (dfa_root d) url) (\<lambda>as.
      Inr (hs_add_all (filter (action_passes flags cond) as) A)))"
  using node_run [where d = d and offs = offs and bs = bs and q = "dfa_root d" and pre = "[]" and w = url and url = url
      and s = "\<lparr>programCounter = offs ! dfa_root d, urlIndex = 0, urlIndexIsAfterEndOfString = False, iactions = A\<rparr>"]
    prog good len url program_root(1) [OF prog good]
  by (simp add: program_at_def good_dfa_def entry_actions_def)

lemma interpretDFA_with_root:
  assumes prog: "program_at bs start n d offs" and good: "good_dfa d" and len: "length bs < 2 ^ 32"
    and url: "\<forall>c \<in> set url. 0 < c \<and> c < 128"
  shows "interpretDFA bs url flags cond
      \<lparr>programCounter = start + 4, urlIndex = 0, urlIndexIsAfterEndOfString = False, iactions = A\<rparr> =
    Some (rbind (dfa_result False d url) (\<lambda>as. Inr (hs_add_all (filter (action_passes flags cond) as) A)))"
proof -
  let ?s = "\<lparr>programCounter = start + 4, urlIndex = 0, urlIndexIsAfterEndOfString = False, iactions = A\<rparr>"
  let ?A = "hs_add_all (filter (action_passes flags cond) (root_actions d)) A"
  have code: "code_at bs (programCounter ?s) (actions_code (root_actions d))"
    and off: "offs ! dfa_root d = start + 4 + length (actions_code (root_actions d))"
    using prog by (simp_all add: program_at_def)
  have "interpretDFA bs url flags cond ?s = interpretDFA bs url flags cond
      \<lparr>programCounter = offs ! dfa_root d, urlIndex = 0, urlIndexIsAfterEndOfString = False, iactions = ?A\<rparr>"
    using actions_run [OF code root_actions_ok [OF good] len] off by (simp add: add_actions_def at_pc_def)
  then show ?thesis
    using interpretDFA_program [OF prog good len url] by (simp add: dfa_result_def rbind_def split: sum.split)
qed

lemma interpretFrom_program:
  assumes prog: "program_at bs start n d offs" and good: "good_dfa d" and len: "length bs < 2 ^ 32"
    and url: "\<forall>c \<in> set url. 0 < c \<and> c < 128"
  shows "interpretFrom bs url flags cond start A =
    (case dfa_result (start = 0) d url of
       Inl e \<Rightarrow> Some (Inl e)
     | Inr as \<Rightarrow> interpretFrom bs url flags cond (start + n)
         (hs_add_all (filter (action_passes flags cond) as) A))"
proof -
  note h = header_code [OF prog]
  have n: "start < length bs" "start + 4 < 2 ^ 32" "start + n < 2 ^ 32" "offs ! dfa_root d < length bs"
    and off: "offs ! dfa_root d = start + 4 + length (actions_code (root_actions d))" "offs ! dfa_root d < start + n"
    and code: "code_at bs (start + 4) (actions_code (root_actions d))"
    using prog len by (auto simp: program_at_def)
  have u: "to_u32 (int start + 4) = start + 4" "to_u32 (int start + int n) = start + n"
    using n to_u32_of_nat [of "start + 4"] to_u32_of_nat [of "start + n"] by simp_all
  show ?thesis
  proof (cases "start = 0")
    case True
    have "skipRootActions bs flags cond n 4 A = Some (Inr (offs ! dfa_root d,
        hs_add_all (filter (action_passes flags cond) (filter flagged (root_actions d))) A))"
      using skipRootActions_code [of bs 4 "root_actions d" n flags cond A] code off True len
        program_root(2) [OF prog good] root_actions_ok [OF good] by simp
    then show ?thesis
      using True h n(1,4) u interpretDFA_program [OF prog good len url]
      by (subst interpretFrom.simps) (simp add: dfa_result_def rbind_def split: sum.split)
  next
    case False
    then show ?thesis
      using h n(1) u interpretDFA_with_root [OF prog good len url]
      by (subst interpretFrom.simps) (simp add: rbind_def split: sum.split)
  qed
qed

section \<open>Interpreting a list of programs\<close>

fun program_result :: "bool \<Rightarrow> DFA list \<Rightarrow> nat list \<Rightarrow> u64 list result" where
  "program_result first [] url = Inr []"
| "program_result first (d # ds) url =
     rbind (dfa_result first d url) (\<lambda>as. rbind (program_result False ds url) (\<lambda>bs. Inr (as @ bs)))"

definition is_program :: "DFA \<Rightarrow> byte list \<Rightarrow> bool" where
  "is_program d code \<longleftrightarrow> compile d [] = Inr code \<and> length code \<le> dfa_max_size d \<and> 4 \<le> length code \<and>
     (\<forall>pre post. \<exists>offs. program_at (pre @ code @ post) (length pre) (length code) d offs)"

lemma compileAll_append: "compileAll (ds @ [d]) = rbind (compileAll ds) (\<lambda>bs. rbind (compile d []) (\<lambda>b. Inr (bs @ b)))"
  by (simp add: compileAll_def)

lemma compileAll_programs:
  assumes "\<forall>d \<in> set ds. good_dfa d"
  shows "\<exists>codes. compileAll ds = Inr (concat codes) \<and> list_all2 is_program ds codes"
  using assms
proof (induction ds rule: rev_induct)
  case Nil
  then show ?case by (simp add: compileAll_def)
next
  case (snoc d ds)
  then obtain codes where codes: "compileAll ds = Inr (concat codes)" "list_all2 is_program ds codes" by auto
  obtain code where code: "is_program d code"
    using compile_program [of d] snoc.prems by (auto simp: is_program_def)
  then have "compileAll (ds @ [d]) = Inr (concat (codes @ [code]))"
    using codes(1) by (simp add: compileAll_append is_program_def)
  moreover have "list_all2 is_program (ds @ [d]) (codes @ [code])"
    using codes(2) code by (simp add: list_all2_appendI)
  ultimately show ?case by blast
qed

lemma programs_length:
  assumes "list_all2 is_program ds codes" and "\<forall>d \<in> set ds. good_dfa d"
  shows "length (concat codes) \<le> sum_list (map dfa_size_bound ds)"
  using assms
proof (induction rule: list_all2_induct)
  case (Cons d ds code codes)
  have "length code \<le> dfa_size_bound d"
    using Cons.hyps(1) good_dfa_size(1) [of d] Cons.prems by (simp add: is_program_def)
  then show ?case using Cons by simp
qed simp

lemma interpretFrom_end: "length bs \<le> start \<Longrightarrow> interpretFrom bs url flags cond start A = Some (Inr A)"
  by (subst interpretFrom.simps) simp

lemma interpretFrom_programs:
  assumes "list_all2 is_program ds codes" and "length (pre @ concat codes) < 2 ^ 32"
    and "\<forall>d \<in> set ds. good_dfa d" and "\<forall>c \<in> set url. 0 < c \<and> c < 128"
  shows "interpretFrom (pre @ concat codes) url flags cond (length pre) A =
    Some (rbind (program_result (pre = []) ds url) (\<lambda>as.
      Inr (hs_add_all (filter (action_passes flags cond) as) A)))"
  using assms(1-3)
proof (induction ds codes arbitrary: pre A rule: list_all2_induct)
  case Nil
  then show ?case by (simp add: interpretFrom_end)
next
  case (Cons d ds code codes)
  have code: "4 \<le> length code" using Cons.hyps(1) by (simp add: is_program_def)
  obtain offs where prog: "program_at (pre @ code @ concat codes) (length pre) (length code) d offs"
    using Cons.hyps(1) unfolding is_program_def by blast
  have "code \<noteq> []" using code by auto
  have I: "interpretFrom (pre @ concat (code # codes)) url flags cond (length pre) A =
      (case dfa_result (pre = []) d url of
         Inl e \<Rightarrow> Some (Inl e)
       | Inr as \<Rightarrow> interpretFrom ((pre @ code) @ concat codes) url flags cond (length (pre @ code))
           (hs_add_all (filter (action_passes flags cond) as) A))"
    using interpretFrom_program [OF prog _ _ assms(4)] Cons.prems by (simp split: sum.split)
  have "interpretFrom ((pre @ code) @ concat codes) url flags cond (length (pre @ code)) B =
      Some (rbind (program_result (pre @ code = []) ds url) (\<lambda>as.
        Inr (hs_add_all (filter (action_passes flags cond) as) B)))" for B
    using Cons.prems by (intro Cons.IH) simp_all
  then show ?case using I \<open>code \<noteq> []\<close> by (simp add: rbind_def split: sum.split)
qed

text \<open>The two entry points on compiled programs.\<close>

lemma interpretFrom_compileAll:
  assumes "\<forall>d \<in> set ds. good_dfa d" and "sum_list (map dfa_size_bound ds) < 2 ^ 32"
    and "\<forall>c \<in> set url. 0 < c \<and> c < 128"
  shows "\<exists>bs. compileAll ds = Inr bs \<and> length bs \<le> sum_list (map dfa_size_bound ds) \<and>
    interpretFrom bs url flags cond 0 [] =
      Some (rbind (program_result True ds url) (\<lambda>as.
        Inr (hs_add_all (filter (action_passes flags cond) as) [])))"
proof -
  obtain codes where codes: "compileAll ds = Inr (concat codes)" "list_all2 is_program ds codes"
    using compileAll_programs [OF assms(1)] by blast
  have "length ([] @ concat codes) < 2 ^ 32" using programs_length [OF codes(2) assms(1)] assms(2) by simp
  from interpretFrom_programs [OF codes(2) this assms(1,3)] show ?thesis
    using codes(1) programs_length [OF codes(2) assms(1)] by simp
qed

lemma actionsMatchingEverything_compileAll:
  assumes "\<forall>d' \<in> set (d # ds). good_dfa d'" and "sum_list (map dfa_size_bound (d # ds)) < 2 ^ 32"
  shows "\<exists>bs. compileAll (d # ds) = Inr bs \<and>
    actionsMatchingEverything bs = Some (Inr (hs_add_all (filter (\<lambda>a. \<not> flagged a) (root_actions d)) []))"
proof -
  obtain codes0 where codes0: "compileAll (d # ds) = Inr (concat codes0)" "list_all2 is_program (d # ds) codes0"
    using compileAll_programs [OF assms(1)] by blast
  then obtain code codes where codes: "codes0 = code # codes" "is_program d code"
    by (auto simp: list_all2_Cons1)
  obtain offs where prog: "program_at ([] @ code @ concat codes) (length ([] :: byte list)) (length code) d offs"
    using codes(2) unfolding is_program_def by blast
  have good: "good_dfa d" using assms(1) by simp
  let ?bs = "code @ concat codes"
  have "length ?bs < 2 ^ 32" using programs_length [OF codes0(2) assms(1)] assms(2) codes(1) by simp
  then have "matchingEverythingLoop ?bs None (length code) 4 [] =
      Some (Inr (hs_add_all (filter (\<lambda>a. \<not> flagged a) (root_actions d)) []))"
    using prog program_root(2) [OF prog good] root_actions_ok [OF good]
    by (intro matchingEverythingLoop_code) (simp_all add: program_at_def)
  then have "actionsMatchingEverything ?bs = Some (Inr (hs_add_all (filter (\<lambda>a. \<not> flagged a) (root_actions d)) []))"
    using header_code [OF prog] by (simp add: actionsMatchingEverything_def)
  then show ?thesis using codes0(1) codes(1) by simp
qed

text \<open>Where the end-of-line transitions are compiled as they are, the actions are those of the DFA.\<close>

lemma set_dfa_result:
  assumes "good_dfa d" and "eol_ok d"
  shows "\<exists>as. dfa_result first d url = Inr as \<and> set as \<union> (if first then {a \<in> set (root_actions d). \<not> flagged a} else {}) =
    dfa_acts d (dfa_root d) \<union> dfa_visit d (dfa_root d) (url @ [0])"
proof -
  have wf: "wf_dfa d" using assms(1) by (simp add: good_dfa_def)
  obtain as where as: "visited_actions d (dfa_root d) url = Inr as"
    "set as \<union> dfa_acts d (dfa_root d) = dfa_visit d (dfa_root d) (url @ [0]) \<union> dfa_acts d (dfa_root d)"
    using set_visited_actions [OF assms(2) wf live_root [OF wf]] by blast
  have root: "set (root_actions d) = dfa_acts d (dfa_root d)" by (simp add: root_actions_def dfa_acts_def)
  show ?thesis
  proof (cases first)
    case True
    have "set (filter flagged (root_actions d) @ as) \<union> {a \<in> set (root_actions d). \<not> flagged a} =
        dfa_acts d (dfa_root d) \<union> dfa_visit d (dfa_root d) (url @ [0])"
      using as(2) root by auto
    with True as(1) show ?thesis by (simp add: dfa_result_def)
  next
    case False
    then show ?thesis using as root by (simp add: dfa_result_def Un_commute)
  qed
qed

lemma set_program_result_False:
  assumes "\<forall>d \<in> set ds. good_dfa d \<and> eol_ok d"
  shows "\<exists>as. program_result False ds url = Inr as \<and>
    set as = (\<Union>d \<in> set ds. dfa_acts d (dfa_root d) \<union> dfa_visit d (dfa_root d) (url @ [0]))"
  using assms
proof (induction ds)
  case (Cons d ds)
  then show ?case using set_dfa_result [of d False url] by auto
qed simp

lemma set_program_result:
  assumes "\<forall>d' \<in> set (d # ds). good_dfa d' \<and> eol_ok d'"
  shows "\<exists>as. program_result True (d # ds) url = Inr as \<and>
    set as \<union> {a \<in> set (root_actions d). \<not> flagged a} =
    (\<Union>d' \<in> set (d # ds). dfa_acts d' (dfa_root d') \<union> dfa_visit d' (dfa_root d') (url @ [0]))"
proof -
  obtain as where as: "dfa_result True d url = Inr as"
    "set as \<union> {a \<in> set (root_actions d). \<not> flagged a} = dfa_acts d (dfa_root d) \<union> dfa_visit d (dfa_root d) (url @ [0])"
    using set_dfa_result [of d True url] assms by auto
  obtain bs where bs: "program_result False ds url = Inr bs"
    "set bs = (\<Union>d \<in> set ds. dfa_acts d (dfa_root d) \<union> dfa_visit d (dfa_root d) (url @ [0]))"
    using set_program_result_False [of ds url] assms by auto
  show ?thesis using as bs by (intro exI [of _ "as @ bs"]) auto
qed

end
