(* ===== verification/Range_List.thy ===== *)
theory Range_List
  imports CE_Prelude "HOL-Library.Monad_Syntax"
begin

text \<open>
  \<open>MutableRange.h\<close> and \<open>MutableRangeList.h\<close>: a list of disjoint character ranges with data, kept as a
  vector whose entries are linked in the order of the ranges (\<open>nextRangeIndex\<close>, 0 for the end; the
  first range is the first entry). \<open>extend\<close> merges the ranges of an iterator into the list; what happens
  to the data is left to a converter. The theory shows that the linked vector implements a function on
  sorted lists of ranges, and that this function combines the data of each character on its own.

  A loop that does not end and a read out of the vector are the value \<^const>\<open>None\<close>. Characters are
  signed (\<open>to_char\<close> writes out the conversion of an \<open>int\<close> expression to \<open>char\<close>).
\<close>

section \<open>The code\<close>

record 'd MutableRange =
  range_data :: 'd
  nextRangeIndex :: nat
  range_first :: int
  range_last :: int

text \<open>What a range iterator delivers: the first and the last character and the data.\<close>

type_synonym 'd item = "int \<times> int \<times> 'd"

definition to_char :: "int \<Rightarrow> int" where
  "to_char x = (x + 128) mod 256 - 128"

definition newRange :: "'d \<Rightarrow> nat \<Rightarrow> int \<Rightarrow> int \<Rightarrow> 'd MutableRange" where
  "newRange d nxt fst_char lst_char =
     \<lparr>range_data = d, nextRangeIndex = nxt, range_first = fst_char, range_last = lst_char\<rparr>"

definition range_item :: "'d MutableRange \<Rightarrow> 'd item" where
  "range_item r = (range_first r, range_last r, range_data r)"

text \<open>The iteration from \<open>begin()\<close> to \<open>end()\<close>. It follows the links at most once per entry.\<close>

primrec walk :: "nat \<Rightarrow> 'd MutableRange list \<Rightarrow> nat \<Rightarrow> 'd item list" where
  "walk 0 m index = []"
| "walk (Suc n) m index =
     range_item (m ! index) #
       (let index' = nextRangeIndex (m ! index) in if index' = 0 then [] else walk n m index')"

definition rangeList_items :: "'d MutableRange list \<Rightarrow> 'd item list" where
  "rangeList_items m = (if m = [] then [] else walk (length m) m 0)"

definition appendRange ::
  "nat \<Rightarrow> int \<Rightarrow> int \<Rightarrow> 'd \<Rightarrow> 'd MutableRange list \<Rightarrow> nat \<times> 'd MutableRange list" where
  "appendRange lastRangeIndex f l d m =
     (let newRangeIndex = length m;
          m1 = m @ [newRange d 0 f l]
      in if newRangeIndex = 0 then (0, m1)
         else (newRangeIndex, m1[lastRangeIndex := (m1 ! lastRangeIndex)\<lparr>nextRangeIndex := newRangeIndex\<rparr>]))"

definition insertBetween ::
  "nat \<Rightarrow> nat \<Rightarrow> int \<Rightarrow> int \<Rightarrow> 'd \<Rightarrow> 'd MutableRange list \<Rightarrow> nat \<times> nat \<times> 'd MutableRange list" where
  "insertBetween leftRangeIndex rightRangeIndex f l d m =
     (if rightRangeIndex = 0
      then let movedRangeIndex = length m
           in (0, movedRangeIndex, (m @ [m ! 0])[0 := newRange d movedRangeIndex f l])
      else let newRangeIndex = length m;
               m1 = m @ [newRange d rightRangeIndex f l]
           in (newRangeIndex, rightRangeIndex,
               m1[leftRangeIndex := (m1 ! leftRangeIndex)\<lparr>nextRangeIndex := newRangeIndex\<rparr>]))"

primrec initializeLoop :: "('e \<Rightarrow> 'd) \<Rightarrow> nat \<Rightarrow> 'e item list \<Rightarrow> 'd MutableRange list" where
  "initializeLoop convert loopCounter [] = []"
| "initializeLoop convert loopCounter (e # es) =
     (case e of (f, l, d) \<Rightarrow>
        newRange (convert d) (loopCounter + 1) f l # initializeLoop convert (loopCounter + 1) es)"

definition initializeFrom :: "('e \<Rightarrow> 'd) \<Rightarrow> 'e item list \<Rightarrow> 'd MutableRange list" where
  "initializeFrom convert others =
     (let m = initializeLoop convert 0 others
      in if m = [] then [] else m[length m - 1 := (last m)\<lparr>nextRangeIndex := 0\<rparr>])"

text \<open>The part of an iteration before the two ranges start at the same character: what lies to the left
  of the other range or of the own range becomes a range of its own.\<close>

definition splitLeft ::
  "('e \<Rightarrow> 'd) \<Rightarrow> 'e item \<Rightarrow> nat \<Rightarrow> nat \<Rightarrow> int \<Rightarrow> 'd MutableRange list
    \<Rightarrow> nat \<times> nat \<times> int \<times> 'd MutableRange list" where
  "splitLeft convert other lastSelf self offset m =
     (case other of (ofirst, olast, od) \<Rightarrow>
        let active = m ! self
        in if range_first active < ofirst + offset
           then let m1 = m[self := active\<lparr>range_first := to_char (ofirst + offset)\<rparr>];
                    (l, s, m2) = insertBetween lastSelf self (range_first active)
                      (to_char (ofirst + offset - 1)) (range_data active) m1
                in (l, s, offset, m2)
           else if ofirst + offset < range_first active
           then let (l, s, m2) = insertBetween lastSelf self (to_char (ofirst + offset))
                      (to_char (range_first active - 1)) (convert od) m
                in (l, s, to_char (range_first (m2 ! s) - ofirst), m2)
           else (lastSelf, self, offset, m))"

partial_function (option) extendLoop ::
  "('e \<Rightarrow> 'd) \<Rightarrow> ('d \<Rightarrow> 'e \<Rightarrow> 'd) \<Rightarrow> bool \<Rightarrow> nat \<Rightarrow> nat \<Rightarrow> int \<Rightarrow> 'e item list \<Rightarrow> 'd MutableRange list
    \<Rightarrow> (nat \<times> int \<times> 'e item list \<times> 'd MutableRange list) option" where
  "extendLoop convert ext reachedSelfEnd lastSelf self offset others m =
     (case others of
        [] \<Rightarrow> Some (lastSelf, offset, [], m)
      | (ofirst, olast, od) # others' \<Rightarrow>
          if reachedSelfEnd then Some (lastSelf, offset, others, m)
          else if \<not> self < length m then None
          else
            let active = m ! self
            in if range_last active < ofirst + offset
               then extendLoop convert ext (nextRangeIndex active = 0) self (nextRangeIndex active) offset others m
               else if olast < range_first active
               then let (l, s, m1) = insertBetween lastSelf self (to_char (ofirst + offset)) olast (convert od) m
                    in extendLoop convert ext False l s 0 others' m1
               else
                 let (l, s, offset1, m1) = splitLeft convert (ofirst, olast, od) lastSelf self offset m;
                     active1 = m1 ! s;
                     merged = ext (range_data active1) od
                 in if range_last active1 = olast
                    then extendLoop convert ext (nextRangeIndex active1 = 0) s (nextRangeIndex active1) 0 others'
                           (m1[s := active1\<lparr>range_data := merged\<rparr>])
                    else if olast < range_last active1
                    then let (l2, s2, m2) = insertBetween l s (range_first active1) olast merged
                               (m1[s := active1\<lparr>range_first := to_char (olast + 1)\<rparr>])
                         in extendLoop convert ext False l2 s2 0 others' m2
                    else extendLoop convert ext (nextRangeIndex active1 = 0) s (nextRangeIndex active1)
                           (to_char (range_last active1 - ofirst + 1)) others
                           (m1[s := active1\<lparr>range_data := merged\<rparr>]))"

primrec appendLoop ::
  "('e \<Rightarrow> 'd) \<Rightarrow> nat \<Rightarrow> int \<Rightarrow> 'e item list \<Rightarrow> 'd MutableRange list \<Rightarrow> 'd MutableRange list" where
  "appendLoop convert lastSelf offset [] m = m"
| "appendLoop convert lastSelf offset (e # es) m =
     (case e of (f, l, d) \<Rightarrow>
        let (lastSelf', m') = appendRange lastSelf (to_char (f + offset)) l (convert d) m
        in appendLoop convert lastSelf' 0 es m')"

definition extendRanges ::
  "('e \<Rightarrow> 'd) \<Rightarrow> ('d \<Rightarrow> 'e \<Rightarrow> 'd) \<Rightarrow> 'e item list \<Rightarrow> 'd MutableRange list \<Rightarrow> 'd MutableRange list option" where
  "extendRanges convert ext others m =
     (if others = [] then Some m
      else if m = [] then Some (initializeFrom convert others)
      else do {
        (lastSelf, offset, others', m') \<leftarrow> extendLoop convert ext False 0 0 0 others m;
        Some (appendLoop convert lastSelf offset others' m')
      })"

declare extendLoop.simps [code]

section \<open>Sorted lists of ranges\<close>

fun items_from :: "int \<Rightarrow> 'd item list \<Rightarrow> bool" where
  "items_from lo [] = True"
| "items_from lo ((f, l, d) # xs) = (lo \<le> f \<and> f \<le> l \<and> l < 128 \<and> items_from (l + 1) xs)"

fun item_lookup :: "'d item list \<Rightarrow> int \<Rightarrow> 'd option" where
  "item_lookup [] c = None"
| "item_lookup ((f, l, d) # xs) c = (if f \<le> c \<and> c \<le> l then Some d else item_lookup xs c)"

text \<open>The merge of two sorted lists; the first range of the second list starts \<open>offset\<close> later.\<close>

function merge_items :: "('e \<Rightarrow> 'd) \<Rightarrow> ('d \<Rightarrow> 'e \<Rightarrow> 'd) \<Rightarrow> 'd item list \<Rightarrow> int \<Rightarrow> 'e item list \<Rightarrow> 'd item list" where
  "merge_items cv ex S off [] = S"
| "merge_items cv ex [] off ((f, l, d) # E) = (f + off, l, cv d) # merge_items cv ex [] 0 E"
| "merge_items cv ex ((sf, sl, sd) # S) off ((f, l, d) # E) =
     (if sl < f + off then (sf, sl, sd) # merge_items cv ex S off ((f, l, d) # E)
      else if l < sf then (f + off, l, cv d) # merge_items cv ex ((sf, sl, sd) # S) 0 E
      else (if sf < f + off then [(sf, f + off - 1, sd)]
            else if f + off < sf then [(f + off, sf - 1, cv d)] else [])
         @ (if sl = l then (max sf (f + off), sl, ex sd d) # merge_items cv ex S 0 E
            else if l < sl
            then (max sf (f + off), l, ex sd d) # merge_items cv ex ((l + 1, sl, sd) # S) 0 E
            else (max sf (f + off), sl, ex sd d) # merge_items cv ex S (sl - f + 1) ((f, l, d) # E)))"
  by pat_completeness auto
termination by (relation "measure (\<lambda>(_, _, S, _, E). length S + length E)") auto

definition combine :: "('e \<Rightarrow> 'd) \<Rightarrow> ('d \<Rightarrow> 'e \<Rightarrow> 'd) \<Rightarrow> 'd option \<Rightarrow> 'e option \<Rightarrow> 'd option" where
  "combine cv ex s e =
     (case e of
        None \<Rightarrow> s
      | Some d \<Rightarrow> Some (case s of None \<Rightarrow> cv d | Some sd \<Rightarrow> ex sd d))"

fun from_offset :: "int \<Rightarrow> 'd item list \<Rightarrow> 'd item list" where
  "from_offset off [] = []"
| "from_offset off ((f, l, d) # E) = (f + off, l, d) # E"

lemma from_offset_0 [simp]: "from_offset 0 E = E"
  by (cases E) auto

lemma items_from_mono: "items_from lo xs \<Longrightarrow> lo' \<le> lo \<Longrightarrow> items_from lo' xs"
  by (cases xs) auto

lemma item_lookup_below: "items_from lo xs \<Longrightarrow> c < lo \<Longrightarrow> item_lookup xs c = None"
  by (induction lo xs rule: items_from.induct) auto

lemma combine_simps [simp]:
  "combine cv ex s None = s" "combine cv ex None (Some d) = Some (cv d)"
  "combine cv ex (Some x) (Some d) = Some (ex x d)"
  by (auto simp: combine_def)

lemma merge_items_sorted:
  assumes "items_from lo S" and "items_from lo (from_offset off E)"
  shows "items_from lo (merge_items cv ex S off E)"
  using assms
proof (induction cv ex S off E arbitrary: lo rule: merge_items.induct)
  case (3 cv ex sf sl sd S off f l d E)
  consider "sl < f + off" | "\<not> sl < f + off" "l < sf" | "\<not> sl < f + off" "\<not> l < sf" "sl = l"
    | "\<not> sl < f + off" "\<not> l < sf" "l < sl" | "\<not> sl < f + off" "\<not> l < sf" "sl < l" by linarith
  then show ?case
  proof cases
    case 1
    then show ?thesis using 3 by auto
  next
    case 2
    then show ?thesis using "3.IH"(2) [OF 2, of "l + 1"] "3.prems" by auto
  next
    case 3
    then show ?thesis using "3.IH"(3) [OF 3, of "sl + 1"] "3.prems" by auto
  next
    case 4
    then show ?thesis using "3.IH"(4) [OF 4(1,2), of "l + 1"] "3.prems" by auto
  next
    case 5
    then show ?thesis using "3.IH"(5) [OF 5(1,2), of "sl + 1"] "3.prems" by auto
  qed
qed auto

lemma merge_items_lookup:
  assumes "items_from lo S" and "items_from lo (from_offset off E)"
  shows "item_lookup (merge_items cv ex S off E) c =
    combine cv ex (item_lookup S c) (item_lookup (from_offset off E) c)"
  using assms
proof (induction cv ex S off E arbitrary: lo rule: merge_items.induct)
  case (2 cv ex off f l d E)
  then show ?case using "2.IH" [of "l + 1"] by auto
next
  case (3 cv ex sf sl sd S off f l d E)
  note S = item_lookup_below [of "sl + 1" S c] and E = item_lookup_below [of "l + 1" E c]
  consider "sl < f + off" | "\<not> sl < f + off" "l < sf" | "\<not> sl < f + off" "\<not> l < sf" "sl = l"
    | "\<not> sl < f + off" "\<not> l < sf" "l < sl" | "\<not> sl < f + off" "\<not> l < sf" "sl < l" by linarith
  then show ?case
  proof cases
    case 1
    then show ?thesis using "3.IH"(1) [OF 1, of "sl + 1"] "3.prems" S E by auto
  next
    case 2
    then show ?thesis using "3.IH"(2) [OF 2, of "l + 1"] "3.prems" S E by auto
  next
    case 3
    then show ?thesis using "3.IH"(3) [OF 3, of "sl + 1"] "3.prems" S E by auto
  next
    case 4
    then show ?thesis using "3.IH"(4) [OF 4(1,2), of "l + 1"] "3.prems" S E by auto
  next
    case 5
    then show ?thesis using "3.IH"(5) [OF 5(1,2), of "sl + 1"] "3.prems" S E by auto
  qed
qed auto

section \<open>The linked vector\<close>

text \<open>The entries \<open>is\<close> are linked in their order, the last one to \<open>e\<close>.\<close>

primrec linked :: "'d MutableRange list \<Rightarrow> nat list \<Rightarrow> nat \<Rightarrow> bool" where
  "linked m [] e = True"
| "linked m (i # is) e = (nextRangeIndex (m ! i) = (if is = [] then e else hd is) \<and> linked m is e)"

definition chain :: "'d MutableRange list \<Rightarrow> nat list \<Rightarrow> bool" where
  "chain m is \<longleftrightarrow> is \<noteq> [] \<and> hd is = 0 \<and> distinct is \<and> set is \<subseteq> {..< length m} \<and> linked m is 0"

definition items :: "'d MutableRange list \<Rightarrow> nat list \<Rightarrow> 'd item list" where
  "items m is = map (\<lambda>i. range_item (m ! i)) is"

lemma items_simps [simp]:
  "items m [] = []" "items m (i # is) = range_item (m ! i) # items m is" "items m (is @ js) = items m is @ items m js"
  by (simp_all add: items_def)

lemma length_items [simp]: "length (items m is) = length is"
  by (simp add: items_def)

lemma items_cong: "(\<And>i. i \<in> set is \<Longrightarrow> m' ! i = m ! i) \<Longrightarrow> items m' is = items m is"
  by (simp add: items_def)

lemma linked_cong:
  "(\<And>i. i \<in> set is \<Longrightarrow> nextRangeIndex (m' ! i) = nextRangeIndex (m ! i)) \<Longrightarrow> linked m' is e = linked m is e"
  by (induction "is") auto

lemma linked_append:
  "linked m (is @ js) e \<longleftrightarrow> linked m is (if js = [] then e else hd js) \<and> linked m js e"
  by (induction "is") auto

lemma walk_linked:
  assumes "linked m (i # is) 0" and "0 \<notin> set is" and "length (i # is) \<le> n"
  shows "walk n m i = items m (i # is)"
  using assms
proof (induction "is" arbitrary: i n)
  case Nil
  then show ?case by (cases n) auto
next
  case (Cons j js)
  then obtain n' where "n = Suc n'" by (cases n) auto
  then show ?case using Cons by simp
qed

lemma rangeList_items_chain:
  assumes "chain m is"
  shows "rangeList_items m = items m is"
proof -
  obtain js where js: "is = 0 # js" using assms by (cases "is") (auto simp: chain_def)
  have "length is \<le> length m"
    using assms distinct_card [of "is"] card_mono [of "{..< length m}" "set is"] by (auto simp: chain_def)
  then show ?thesis
    using assms js walk_linked [of m 0 js "length m"] by (auto simp: rangeList_items_def chain_def)
qed

text \<open>A position in the list: \<open>P\<close> lies behind, \<open>s\<close> is the active range, \<open>Q\<close> is ahead, \<open>l\<close> is the last
  range of \<open>P\<close>.\<close>

definition at :: "'d MutableRange list \<Rightarrow> nat list \<Rightarrow> nat \<Rightarrow> nat list \<Rightarrow> nat \<Rightarrow> bool" where
  "at m P s Q l \<longleftrightarrow> chain m (P @ s # Q) \<and> (P \<noteq> [] \<longrightarrow> l = last P)"

lemma at_bounds:
  assumes "at m P s Q l"
  shows "s < length m" "P \<noteq> [] \<Longrightarrow> l < length m" "s = 0 \<longleftrightarrow> P = []"
proof -
  show "s < length m" using assms by (simp add: at_def chain_def)
  have c: "distinct (P @ s # Q)" "hd (P @ s # Q) = 0" "set P \<subseteq> {..< length m}" "P \<noteq> [] \<longrightarrow> l = last P"
    using assms by (auto simp: at_def chain_def)
  show "s = 0 \<longleftrightarrow> P = []" using c by (cases P) auto
  show "P \<noteq> [] \<Longrightarrow> l < length m" using c(3,4) last_in_set [of P] by blast
qed

lemma at_advance:
  assumes "at m P s Q l"
  shows "Q = [] \<Longrightarrow> nextRangeIndex (m ! s) = 0"
    and "Q = t # R \<Longrightarrow> nextRangeIndex (m ! s) = t \<and> t \<noteq> 0 \<and> at m (P @ [s]) t R s"
proof -
  show "Q = [] \<Longrightarrow> nextRangeIndex (m ! s) = 0" using assms by (simp add: at_def chain_def linked_append)
  assume Q: "Q = t # R"
  have "at m (P @ [s]) t R s" using assms Q by (simp add: at_def)
  moreover from at_bounds(3) [OF this] have "t \<noteq> 0" by simp
  ultimately show "nextRangeIndex (m ! s) = t \<and> t \<noteq> 0 \<and> at m (P @ [s]) t R s"
    using assms Q by (simp add: at_def chain_def linked_append)
qed

lemma at_update:
  assumes "at m P s Q l" and "nextRangeIndex x = nextRangeIndex (m ! s)"
  shows "at (m[s := x]) P s Q l" "items (m[s := x]) P = items m P" "items (m[s := x]) Q = items m Q"
proof -
  have nin: "s \<notin> set P" "s \<notin> set Q" using assms(1) by (auto simp: at_def chain_def)
  have "linked (m[s := x]) (P @ s # Q) 0 = linked m (P @ s # Q) 0"
    using assms(2) at_bounds(1) [OF assms(1)] by (intro linked_cong) (simp add: nth_list_update)
  then show "at (m[s := x]) P s Q l" using assms(1) by (simp add: at_def chain_def)
  show "items (m[s := x]) P = items m P" "items (m[s := x]) Q = items m Q"
    using nin by (auto intro!: items_cong nth_list_update_neq)
qed

lemma insertBetween_at:
  assumes "at m P s Q l" and ins: "insertBetween l s f e d m = (l', s', m')"
  obtains P' where "at m' P' s' Q l'" "items m' P' = items m P @ [(f, e, d)]" "m' ! s' = m ! s" "items m' Q = items m Q"
proof (cases "s = 0")
  case True
  have P: "P = []" using True at_bounds(3) [OF assms(1)] by simp
  have r: "l' = 0" "s' = length m" "m' = (m @ [m ! 0])[0 := newRange d (length m) f e]"
    using ins True by (auto simp: insertBetween_def Let_def)
  have c: "0 \<notin> set Q" "distinct Q" "set Q \<subseteq> {..< length m}" "0 < length m" "linked m (0 # Q) 0"
    using assms(1) True P by (auto simp: at_def chain_def)
  have same: "m' ! i = m ! i" if "i \<in> set Q" for i
    using c that by (cases i) (auto simp: r nth_append)
  have m': "m' ! length m = m ! 0" "m' ! 0 = newRange d (length m) f e"
    using c(4) by (auto simp: r nth_append nth_list_update)
  have "linked m' Q 0 = linked m Q 0" by (rule linked_cong) (simp add: same)
  moreover have "length m' = Suc (length m)" "length m \<notin> set Q" using c(3) r(3) by auto
  then have "distinct ([0] @ length m # Q)" "set ([0] @ length m # Q) \<subseteq> {..< length m'}"
    using c(1-4) less_Suc_eq by auto
  ultimately have "at m' [0] s' Q l'"
    using c(5) m' r(1,2) by (simp add: at_def chain_def newRange_def)
  moreover have "items m' Q = items m Q" by (rule items_cong) (simp add: same)
  ultimately show ?thesis
    using that [of "[0]"] m' True P r(2) by (simp add: range_item_def newRange_def)
next
  case False
  have P: "P \<noteq> []" using False at_bounds(3) [OF assms(1)] by simp
  let ?n = "length m"
  have l: "l < ?n" "l = last P" "s < ?n" using at_bounds [OF assms(1)] assms(1) P by (auto simp: at_def)
  have r: "l' = ?n" "s' = s" "m' = (m @ [newRange d s f e])[l := (m ! l)\<lparr>nextRangeIndex := ?n\<rparr>]"
    using ins False l by (auto simp: insertBetween_def Let_def nth_append)
  have c: "distinct (P @ s # Q)" "set (P @ s # Q) \<subseteq> {..< ?n}" "linked m (P @ s # Q) 0" "hd P = 0"
    using assms(1) P by (auto simp: at_def chain_def)
  have inP: "l \<in> set P" using P l by simp
  obtain P0 where P0: "P = P0 @ [l]" using P l(2) by (metis append_butlast_last_id)
  have same: "m' ! i = m ! i" if "i < ?n" "i \<noteq> l" for i using that by (simp add: r nth_append nth_list_update)
  have m': "m' ! l = (m ! l)\<lparr>nextRangeIndex := ?n\<rparr>" "m' ! ?n = newRange d s f e"
    using l by (auto simp: r nth_append nth_list_update)
  have same': "m' ! i = m ! i" if "i \<in> set (s # Q) \<union> set P0" for i
    using that c(1,2) P0 by (intro same) (auto simp: subset_iff)
  have "linked m' (s # Q) 0 = linked m (s # Q) 0" by (rule linked_cong) (use same' in auto)
  with same' have sQ: "linked m' (s # Q) 0 = linked m (s # Q) 0" "m' ! s = m ! s" by auto
  have Q: "items m' Q = items m Q" using same' by (auto intro!: items_cong)
  have "linked m' P0 l = linked m P0 l" "items m' P0 = items m P0"
    using same' by (auto intro!: linked_cong items_cong)
  then have "linked m' (P @ [?n] @ s # Q) 0" and "items m' P = items m P"
    using c(3) sQ(1) m' P0 by (simp_all add: linked_append newRange_def range_item_def)
  moreover have "length m' = Suc ?n" "?n \<notin> set (P @ s # Q)" using c(2) r(3) by auto
  then have "distinct ((P @ [?n]) @ s # Q)" "set ((P @ [?n]) @ s # Q) \<subseteq> {..< length m'}"
    using c(1,2) less_Suc_eq by auto
  moreover have "hd ((P @ [?n]) @ s # Q) = 0" using c(4) P by simp
  ultimately show ?thesis
    using that [of "P @ [?n]"] sQ Q m' r(1,2) by (simp add: at_def chain_def newRange_def range_item_def)
qed

section \<open>Extending a list\<close>

lemma to_char_id [simp]: "0 \<le> x \<Longrightarrow> x < 128 \<Longrightarrow> to_char x = x"
  by (simp add: to_char_def)

text \<open>The result of the loop and of the appending of what is left of the iterator.\<close>

definition extends_to ::
  "('e \<Rightarrow> 'd) \<Rightarrow> (nat \<times> int \<times> 'e item list \<times> 'd MutableRange list) option \<Rightarrow> 'd item list \<Rightarrow> bool" where
  "extends_to cv r xs \<longleftrightarrow>
     (\<exists>l off E m is. r = Some (l, off, E, m) \<and> chain (appendLoop cv l off E m) is \<and>
        items (appendLoop cv l off E m) is = xs)"

lemma appendRange_chain:
  assumes "chain m is" and "appendRange (last is) f e d m = (l', m')"
  shows "chain m' (is @ [l'])" and "items m' (is @ [l']) = items m is @ [(f, e, d)]"
proof -
  let ?n = "length m"
  have c: "is \<noteq> []" "distinct is" "set is \<subseteq> {..< ?n}" "linked m is 0" "hd is = 0"
    using assms(1) by (auto simp: chain_def)
  obtain js l where js: "is = js @ [l]" using c(1) by (metis append_butlast_last_id)
  have l: "l < ?n" "last is = l" using c(3) js by auto
  then have m0: "m \<noteq> []" by auto
  then have r: "l' = ?n" "m' = (m @ [newRange d 0 f e])[l := (m ! l)\<lparr>nextRangeIndex := ?n\<rparr>]"
    using assms(2) l by (auto simp: appendRange_def Let_def nth_append)
  have m': "m' ! l = (m ! l)\<lparr>nextRangeIndex := ?n\<rparr>" "m' ! ?n = newRange d 0 f e"
    using l by (auto simp: r nth_append nth_list_update)
  have same: "m' ! i = m ! i" if "i \<in> set js" for i
    using that c js by (auto simp: r nth_append nth_list_update)
  have "linked m' js l = linked m js l" "items m' js = items m js"
    using same by (auto intro!: linked_cong items_cong)
  then have "linked m' (is @ [?n]) 0" "items m' (is @ [?n]) = items m is @ [(f, e, d)]"
    using c(4) m' js by (simp_all add: linked_append newRange_def range_item_def)
  moreover have "length m' = Suc ?n" "?n \<notin> set is" using c(3) r by auto
  then have "distinct (is @ [?n])" "set (is @ [?n]) \<subseteq> {..< length m'}"
    using c(2,3) less_Suc_eq by auto
  ultimately show "chain m' (is @ [l'])" "items m' (is @ [l']) = items m is @ [(f, e, d)]"
    using c(1,5) r(1) by (simp_all add: chain_def)
qed

lemma appendLoop_chain:
  assumes "chain m is" and "items_from 0 (from_offset off E)"
  shows "\<exists>is'. chain (appendLoop cv (last is) off E m) is' \<and>
    items (appendLoop cv (last is) off E m) is' = items m is @ merge_items cv ex [] off E"
  using assms
proof (induction E arbitrary: off m "is")
  case (Cons e E)
  obtain f l d where e: "e = (f, l, d)" using prod_cases3 .
  obtain l' m' where ap: "appendRange (last is) (f + off) l (cv d) m = (l', m')" by force
  have E: "items_from 0 (from_offset 0 E)"
    using Cons.prems(2) items_from_mono [of "l + 1" E 0] by (simp add: e)
  have "to_char (f + off) = f + off" using Cons.prems(2) by (simp add: e)
  with Cons.IH [OF appendRange_chain(1) [OF Cons.prems(1) ap] E] ap appendRange_chain(2) [OF Cons.prems(1) ap]
  show ?case by (simp add: e)
qed auto

lemma splitLeft_at:
  assumes A: "at m P s Q l" and m: "m ! s = newRange sd n sf sl"
    and b: "0 \<le> f" "0 \<le> off" "f + off \<le> e" "e < 128" "0 \<le> sf" "sf \<le> sl" "sl < 128" "f + off \<le> sl" "sf \<le> e"
    and sp: "splitLeft cv (f, e, d) l s off m = (l', s', off', m')"
  obtains P' where "at m' P' s' Q l'"
    "items m' P' = items m P @ (if sf < f + off then [(sf, f + off - 1, sd)]
        else if f + off < sf then [(f + off, sf - 1, cv d)] else [])"
    "m' ! s' = newRange sd n (max sf (f + off)) sl" "items m' Q = items m Q"
proof -
  consider "sf < f + off" | "f + off < sf" | "sf = f + off" by linarith
  then show ?thesis
  proof cases
    case 1
    let ?m = "m[s := (m ! s)\<lparr>range_first := f + off\<rparr>]"
    have ins: "insertBetween l s sf (f + off - 1) sd ?m = (l', s', m')"
      using sp 1 b m by (auto simp: splitLeft_def Let_def newRange_def split: prod.splits)
    have U: "at ?m P s Q l" "items ?m P = items m P" "items ?m Q = items m Q"
      using at_update [OF A, of "(m ! s)\<lparr>range_first := f + off\<rparr>"] by simp_all
    obtain P' where P': "at m' P' s' Q l'" "items m' P' = items ?m P @ [(sf, f + off - 1, sd)]"
      "m' ! s' = ?m ! s" "items m' Q = items ?m Q"
      using insertBetween_at [OF U(1) ins] by blast
    then show ?thesis
      using that [of P'] U 1 m at_bounds(1) [OF A] by (simp add: newRange_def)
  next
    case 2
    obtain a b c where ins: "insertBetween l s (f + off) (sf - 1) (cv d) m = (a, b, c)" using prod_cases3 .
    have "l' = a" "s' = b" "m' = c"
      using sp 2 b m ins by (auto simp: splitLeft_def Let_def newRange_def split: prod.splits)
    with ins have ins': "insertBetween l s (f + off) (sf - 1) (cv d) m = (l', s', m')" by simp
    obtain P' where P': "at m' P' s' Q l'" "items m' P' = items m P @ [(f + off, sf - 1, cv d)]"
      "m' ! s' = m ! s" "items m' Q = items m Q"
      using insertBetween_at [OF A ins'] by blast
    then show ?thesis using that [of P'] 2 m by simp
  next
    case 3
    then have "l' = l" "s' = s" "m' = m" using sp m by (auto simp: splitLeft_def Let_def newRange_def)
    then show ?thesis using that [of P] A m 3 by simp
  qed
qed

lemma extendLoop_done:
  assumes "chain m is" and "items_from 0 (from_offset off E)"
  shows "extends_to cv (extendLoop cv ex True (last is) s off E m) (items m is @ merge_items cv ex [] off E)"
proof -
  have "extendLoop cv ex True (last is) s off E m = Some (last is, off, E, m)"
    by (subst extendLoop.simps) (auto split: list.split)
  with appendLoop_chain [OF assms, of cv ex] show ?thesis by (auto simp: extends_to_def)
qed

lemma extendLoop_end:
  assumes "chain m is"
  shows "extends_to cv (extendLoop cv ex r l s off [] m) (items m is)"
  using assms by (subst extendLoop.simps) (auto simp: extends_to_def)

text \<open>One iteration, given what the rest of the loop does.\<close>

definition loop_ok ::
  "('e \<Rightarrow> 'd) \<Rightarrow> ('d \<Rightarrow> 'e \<Rightarrow> 'd) \<Rightarrow> nat \<Rightarrow> bool" where
  "loop_ok cv ex k \<longleftrightarrow>
     (\<forall>m P s Q l lo off E. length Q + length E < k \<longrightarrow> at m P s Q l \<longrightarrow> items_from lo (items m (s # Q)) \<longrightarrow>
        items_from lo (from_offset off E) \<longrightarrow> 0 \<le> lo \<longrightarrow> 0 \<le> off \<longrightarrow> items_from 0 E \<longrightarrow>
        extends_to cv (extendLoop cv ex False l s off E m) (items m P @ merge_items cv ex (items m (s # Q)) off E))"

lemma loop_okD:
  assumes "loop_ok cv ex k" and "length Q + length E < k" and "at m P s Q l" and "items_from lo (items m (s # Q))"
    and "items_from lo (from_offset off E)" and "0 \<le> lo" and "0 \<le> off" and "items_from 0 E"
  shows "extends_to cv (extendLoop cv ex False l s off E m) (items m P @ merge_items cv ex (items m (s # Q)) off E)"
  using assms unfolding loop_ok_def by blast

lemma loop_advance:
  assumes ok: "loop_ok cv ex k" and "length Q + length E \<le> k" and A: "at m P s Q l"
    and "items_from lo (items m Q)" and "items_from lo (from_offset off E)" and "0 \<le> lo" and "0 \<le> off"
    and "items_from 0 E"
  shows "extends_to cv (extendLoop cv ex (nextRangeIndex (m ! s) = 0) s (nextRangeIndex (m ! s)) off E m)
    (items m (P @ [s]) @ merge_items cv ex (items m Q) off E)"
proof (cases Q)
  case Nil
  have "chain m (P @ [s])" "last (P @ [s]) = s" using A Nil by (auto simp: at_def)
  with extendLoop_done [of m "P @ [s]" off E cv ex] show ?thesis
    using at_advance(1) [OF A Nil] Nil assms(5,6) items_from_mono [of lo "from_offset off E" 0] by simp
next
  case (Cons t R)
  have t: "nextRangeIndex (m ! s) = t" "t \<noteq> 0" "at m (P @ [s]) t R s" using at_advance(2) [OF A Cons] by auto
  with loop_okD [OF ok, of R E m "P @ [s]" t s lo off] assms Cons show ?thesis by simp
qed

lemma range_item_newRange [simp]: "range_item (newRange d n f l) = (f, l, d)"
  by (simp add: range_item_def newRange_def)

lemma newRange_simps [simp]:
  "range_data (newRange d n f l) = d" "nextRangeIndex (newRange d n f l) = n"
  "range_first (newRange d n f l) = f" "range_last (newRange d n f l) = l"
  "(newRange d n f l)\<lparr>range_data := d'\<rparr> = newRange d' n f l"
  "(newRange d n f l)\<lparr>range_first := f'\<rparr> = newRange d n f' l"
  by (simp_all add: newRange_def)

lemma newRange_cases: obtains d n f l where "r = newRange d n f l"
  by (cases r) (simp add: newRange_def)

lemma loop_overlap:
  assumes ok: "loop_ok cv ex k" and k: "length Q + length E \<le> k" and A: "at m P s Q l"
    and m: "m ! s = newRange sd n sf sl"
    and b: "0 \<le> f" "0 \<le> off" "f + off \<le> e" "e < 128" "0 \<le> sf" "sf \<le> sl" "sl < 128" "f + off \<le> sl" "sf \<le> e"
    and srt: "items_from (sl + 1) (items m Q)" "items_from (e + 1) E'" and E: "E = (f, e, d) # E'"
  shows "extends_to cv (extendLoop cv ex False l s off E m)
    (items m P @ merge_items cv ex (items m (s # Q)) off E)"
proof -
  obtain l1 s1 off1 m1 where sp: "splitLeft cv (f, e, d) l s off m = (l1, s1, off1, m1)" using prod_cases4 .
  obtain P1 where A1: "at m1 P1 s1 Q l1" and P1: "items m1 P1 = items m P @ (if sf < f + off then [(sf, f + off - 1, sd)]
        else if f + off < sf then [(f + off, sf - 1, cv d)] else [])"
    and m1: "m1 ! s1 = newRange sd n (max sf (f + off)) sl" and Q: "items m1 Q = items m Q"
    using splitLeft_at [OF A m b sp] by blast
  have U: "at (m1[s1 := newRange d' n f' sl]) P1 s1 Q l1" "items (m1[s1 := newRange d' n f' sl]) P1 = items m1 P1"
    "items (m1[s1 := newRange d' n f' sl]) Q = items m Q" for d' f'
    using at_update [OF A1, of "newRange d' n f' sl"] m1 Q by simp_all
  have s: "s < length m" "s1 < length m1" using at_bounds(1) [OF A] at_bounds(1) [OF A1] .
  have E': "items_from 0 E'" using items_from_mono [OF srt(2), of 0] b by simp
  consider "sl = e" | "e < sl" | "sl < e" by linarith
  then show ?thesis
  proof cases
    case 1
    let ?m = "m1[s1 := newRange (ex sd d) n (max sf (f + off)) sl]"
    have "extendLoop cv ex False l s off E m = extendLoop cv ex (n = 0) s1 n 0 E' ?m"
      using s sp m m1 b 1 E by (subst extendLoop.simps) (simp add: Let_def)
    with loop_advance [OF ok _ U(1) [of "ex sd d" "max sf (f + off)"], of E' "sl + 1" 0] show ?thesis
      using U(2,3) srt k E E' b s 1 P1 m by simp
  next
    case 2
    let ?m = "m1[s1 := newRange sd n (e + 1) sl]"
    obtain l2 s2 m2 where ins: "insertBetween l1 s1 (max sf (f + off)) e (ex sd d) ?m = (l2, s2, m2)" using prod_cases3 .
    obtain P2 where A2: "at m2 P2 s2 Q l2" "items m2 P2 = items ?m P1 @ [(max sf (f + off), e, ex sd d)]"
      "m2 ! s2 = ?m ! s1" "items m2 Q = items ?m Q" using insertBetween_at [OF U(1) ins] by blast
    have "extendLoop cv ex False l s off E m = extendLoop cv ex False l2 s2 0 E' m2"
      using s sp m m1 b 2 E ins by (subst extendLoop.simps) (simp add: Let_def)
    with loop_okD [OF ok _ A2(1), of E' "e + 1" 0] show ?thesis
      using U(2,3) A2(2-4) srt k E E' b s 2 P1 m by simp
  next
    case 3
    let ?m = "m1[s1 := newRange (ex sd d) n (max sf (f + off)) sl]"
    have "extendLoop cv ex False l s off E m = extendLoop cv ex (n = 0) s1 n (sl - f + 1) E ?m"
      using s sp m m1 b 3 E by (subst extendLoop.simps) (simp add: Let_def)
    with loop_advance [OF ok _ U(1) [of "ex sd d" "max sf (f + off)"], of E "sl + 1" "sl - f + 1"] show ?thesis
      using U(2,3) srt k E E' b s 3 P1 m by simp
  qed
qed

lemma loop_step:
  assumes ok: "loop_ok cv ex k" and k: "length Q + length E \<le> k" and A: "at m P s Q l"
    and srt: "items_from lo (items m (s # Q))" "items_from lo (from_offset off E)"
    and b: "0 \<le> lo" "0 \<le> off" "items_from 0 E"
  shows "extends_to cv (extendLoop cv ex False l s off E m) (items m P @ merge_items cv ex (items m (s # Q)) off E)"
proof (cases E)
  case Nil
  with A extendLoop_end [of m "P @ s # Q" cv ex False l s off] show ?thesis by (simp add: at_def)
next
  case (Cons x E')
  obtain f e d where x: "x = (f, e, d)" using prod_cases3 .
  obtain sd n sf sl where m: "m ! s = newRange sd n sf sl" using newRange_cases .
  have s: "s < length m" using at_bounds(1) [OF A] .
  have bs: "lo \<le> sf" "sf \<le> sl" "sl < 128" "items_from (sl + 1) (items m Q)" "lo \<le> f + off" "f + off \<le> e"
    "e < 128" "items_from (e + 1) E'" "0 \<le> f" using srt b Cons x m by auto
  consider "sl < f + off" | "\<not> sl < f + off" "e < sf" | "\<not> sl < f + off" "\<not> e < sf" by linarith
  then show ?thesis
  proof cases
    case 1
    have "extendLoop cv ex False l s off E m = extendLoop cv ex (n = 0) s n off E m"
      using s m 1 Cons x by (subst extendLoop.simps) simp
    with loop_advance [OF ok k A bs(4), of off] show ?thesis using m 1 bs b Cons x by simp
  next
    case 2
    obtain l1 s1 m1 where ins: "insertBetween l s (f + off) e (cv d) m = (l1, s1, m1)" using prod_cases3 .
    obtain P1 where A1: "at m1 P1 s1 Q l1" "items m1 P1 = items m P @ [(f + off, e, cv d)]"
      "m1 ! s1 = m ! s" "items m1 Q = items m Q" using insertBetween_at [OF A ins] by blast
    have "extendLoop cv ex False l s off E m = extendLoop cv ex False l1 s1 0 E' m1"
      using s m 2 Cons x ins bs b by (subst extendLoop.simps) simp
    with loop_okD [OF ok _ A1(1), of E' "e + 1" 0] show ?thesis
      using A1(2-4) bs b k m 2 Cons x items_from_mono [OF bs(8), of 0] by simp
  next
    case 3
    then show ?thesis using loop_overlap [OF ok k A m, of f off e E' d] bs b Cons x by simp
  qed
qed

lemma loop_ok_all: "loop_ok cv ex k"
proof (induction k)
  case 0
  show ?case by (simp add: loop_ok_def)
next
  case (Suc k)
  show ?case unfolding loop_ok_def
    using loop_step [OF Suc.IH] by (auto simp: less_Suc_eq_le)
qed

lemma initializeLoop_nth:
  "i < length E \<Longrightarrow> initializeLoop cv k E ! i =
    (case E ! i of (f, l, d) \<Rightarrow> newRange (cv d) (k + i + 1) f l)"
  by (induction E arbitrary: k i) (auto simp: nth_Cons split: nat.split)

lemma length_initializeLoop [simp]: "length (initializeLoop cv k E) = length E"
  by (induction E arbitrary: k) auto

lemma merge_items_Nil: "merge_items cv ex [] 0 E = map (\<lambda>(f, l, d). (f, l, cv d)) E"
  by (induction E) auto

lemma linked_upt:
  assumes "\<And>i. a \<le> i \<Longrightarrow> Suc i < b \<Longrightarrow> nextRangeIndex (m ! i) = Suc i" and "a < b \<Longrightarrow> nextRangeIndex (m ! (b - 1)) = e"
  shows "linked m [a ..< b] e"
  using assms
proof (induction "b - a" arbitrary: a)
  case (Suc n)
  then have ab: "a < b" by simp
  have "linked m [Suc a ..< b] e" using Suc by simp
  moreover have "nextRangeIndex (m ! a) = (if [Suc a ..< b] = [] then e else hd [Suc a ..< b])"
    using Suc.prems ab by (cases "Suc a < b") (auto simp: not_less le_Suc_eq)
  ultimately show ?case using ab by (simp add: upt_conv_Cons)
qed simp

lemma initializeFrom_chain:
  assumes "E \<noteq> []"
  shows "chain (initializeFrom cv E) [0 ..< length E]"
    and "items (initializeFrom cv E) [0 ..< length E] = map (\<lambda>(f, l, d). (f, l, cv d)) E"
proof -
  let ?m = "initializeLoop cv 0 E"
  let ?n = "length E"
  have ne: "?m \<noteq> []" using assms by (metis length_initializeLoop length_0_conv)
  have I: "initializeFrom cv E = ?m[?n - 1 := (last ?m)\<lparr>nextRangeIndex := 0\<rparr>]"
    using ne by (simp add: initializeFrom_def Let_def)
  have nth: "range_item (initializeFrom cv E ! i) = (case E ! i of (f, l, d) \<Rightarrow> (f, l, cv d)) \<and>
      nextRangeIndex (initializeFrom cv E ! i) = (if i = ?n - 1 then 0 else Suc i)" if "i < ?n" for i
    using that ne unfolding I
    by (auto simp: nth_list_update last_conv_nth initializeLoop_nth range_item_def newRange_def split: prod.split)
  show "items (initializeFrom cv E) [0 ..< ?n] = map (\<lambda>(f, l, d). (f, l, cv d)) E"
    using nth by (intro nth_equalityI) (auto simp: items_def)
  have "linked (initializeFrom cv E) [0 ..< ?n] 0"
    using nth by (intro linked_upt) auto
  then show "chain (initializeFrom cv E) [0 ..< ?n]"
    using assms by (auto simp: chain_def I)
qed

section \<open>The contract of a range list\<close>

definition range_list :: "'d MutableRange list \<Rightarrow> bool" where
  "range_list m \<longleftrightarrow> m = [] \<or> (\<exists>is. chain m is \<and> items_from 0 (items m is))"

lemma range_list_Nil [simp]: "range_list []"
  by (simp add: range_list_def)

lemma rangeList_items_Nil [simp]: "rangeList_items [] = []"
  by (simp add: rangeList_items_def)

lemma range_list_sorted: "range_list m \<Longrightarrow> items_from 0 (rangeList_items m)"
  by (auto simp: range_list_def rangeList_items_chain)

lemma chain_at: "chain m is \<Longrightarrow> \<exists>Q. is = 0 # Q \<and> at m [] 0 Q 0"
  by (cases "is") (auto simp: chain_def at_def)

lemma extendRanges_merge:
  assumes "range_list m" and "items_from 0 E"
  shows "\<exists>m'. extendRanges cv ex E m = Some m' \<and> range_list m' \<and>
    rangeList_items m' = merge_items cv ex (rangeList_items m) 0 E"
proof -
  consider "E = []" | "E \<noteq> []" "m = []" | js where "E \<noteq> []" "m \<noteq> []" "chain m js" "items_from 0 (items m js)"
    using assms(1) by (auto simp: range_list_def)
  then show ?thesis
  proof cases
    case 1
    then show ?thesis using assms(1) by (simp add: extendRanges_def)
  next
    case 2
    let ?m = "initializeFrom cv E"
    have "rangeList_items ?m = merge_items cv ex [] 0 E"
      using rangeList_items_chain initializeFrom_chain [OF 2(1), of cv] by (metis merge_items_Nil)
    moreover have "range_list ?m"
      using initializeFrom_chain [OF 2(1), of cv] merge_items_sorted [of 0 "[]" 0 E cv ex] assms(2)
      unfolding range_list_def by (metis from_offset_0 items_from.simps(1) merge_items_Nil)
    ultimately show ?thesis using 2 by (simp add: extendRanges_def)
  next
    case 3
    obtain Q where Q: "js = 0 # Q" "at m [] 0 Q 0" using chain_at [OF 3(3)] by blast
    have "extends_to cv (extendLoop cv ex False 0 0 0 E m) (merge_items cv ex (items m js) 0 E)"
      using loop_okD [OF loop_ok_all lessI Q(2), of 0 0 E] 3(4) Q(1) assms(2) by simp
    then obtain l off E' m' "is" where r: "extendLoop cv ex False 0 0 0 E m = Some (l, off, E', m')"
      "chain (appendLoop cv l off E' m') is" "items (appendLoop cv l off E' m') is = merge_items cv ex (items m js) 0 E"
      unfolding extends_to_def by blast
    have "items_from 0 (merge_items cv ex (items m js) 0 E)"
      using merge_items_sorted 3(4) assms(2) by (metis from_offset_0)
    then show ?thesis
      using r 3 rangeList_items_chain [OF r(2)] rangeList_items_chain [OF 3(3)]
      by (auto simp: extendRanges_def range_list_def)
  qed
qed

lemma extendRanges_lookup:
  assumes "range_list m" and "items_from 0 E"
  shows "\<exists>m'. extendRanges cv ex E m = Some m' \<and> range_list m' \<and>
    (\<forall>c. item_lookup (rangeList_items m') c = combine cv ex (item_lookup (rangeList_items m) c) (item_lookup E c))"
  using extendRanges_merge [OF assms, of cv ex] merge_items_lookup [OF range_list_sorted [OF assms(1)], of 0 E cv ex] assms(2)
  by auto

lemma item_lookup_SomeD: "item_lookup xs c = Some d \<Longrightarrow> \<exists>f l. (f, l, d) \<in> set xs \<and> f \<le> c \<and> c \<le> l"
  by (induction xs c rule: item_lookup.induct) (auto split: if_splits)

lemma item_lookup_mem:
  "items_from lo xs \<Longrightarrow> (f, l, d) \<in> set xs \<Longrightarrow> f \<le> c \<Longrightarrow> c \<le> l \<Longrightarrow> item_lookup xs c = Some d"
proof (induction lo xs rule: items_from.induct)
  case (2 lo f' l' d' xs)
  have "c \<in> {f' .. l'} \<Longrightarrow> item_lookup xs c = None" using "2.prems"(1) item_lookup_below [of "l' + 1" xs c] by auto
  with 2 show ?case by auto
qed simp

lemma items_from_bounds: "items_from lo xs \<Longrightarrow> (f, l, d) \<in> set xs \<Longrightarrow> lo \<le> f \<and> f \<le> l \<and> l < 128"
  by (induction lo xs rule: items_from.induct) force+

lemma item_data_lookup:
  assumes "items_from lo xs"
  shows "(\<forall>(f, l, d) \<in> set xs. J d) \<longleftrightarrow> (\<forall>c d. item_lookup xs c = Some d \<longrightarrow> J d)"
proof
  assume all: "\<forall>c d. item_lookup xs c = Some d \<longrightarrow> J d"
  show "\<forall>(f, l, d) \<in> set xs. J d"
    using all item_lookup_mem [OF assms] items_from_bounds [OF assms] by fastforce
qed (auto dest!: item_lookup_SomeD)

text \<open>The targets of a character, where the data of a range stand for a set of targets.\<close>

definition targets_at :: "('d \<Rightarrow> 'a set) \<Rightarrow> 'd item list \<Rightarrow> int \<Rightarrow> 'a set" where
  "targets_at elems xs c = (case item_lookup xs c of None \<Rightarrow> {} | Some d \<Rightarrow> elems d)"

text \<open>What the users of a range list rely on. The data stand for sets of targets; a converter turns the data
  of the iterator into data of the list, and adds them to data that are there. \<open>I\<close> is what holds of the data
  before, \<open>J\<close> of the data after.\<close>

locale range_data_converter =
  fixes convert :: "'e \<Rightarrow> 'd" and ext :: "'d \<Rightarrow> 'e \<Rightarrow> 'd"
    and I :: "'d \<Rightarrow> bool" and J :: "'d \<Rightarrow> bool" and K :: "'e \<Rightarrow> bool"
    and elems :: "'d \<Rightarrow> 'a set" and targets :: "'e \<Rightarrow> 'a set"
  assumes I_J: "I d \<Longrightarrow> J d"
    and convert_J: "K e \<Longrightarrow> J (convert e)"
    and convert_elems: "K e \<Longrightarrow> elems (convert e) = targets e"
    and ext_J: "I d \<Longrightarrow> K e \<Longrightarrow> J (ext d e)"
    and ext_elems: "I d \<Longrightarrow> K e \<Longrightarrow> elems (ext d e) = elems d \<union> targets e"
begin

lemma extend_targets:
  assumes m: "range_list m" "\<forall>(f, l, d) \<in> set (rangeList_items m). I d"
    and E: "items_from 0 E" "\<forall>(f, l, e) \<in> set E. K e"
  shows "\<exists>m'. extendRanges convert ext E m = Some m' \<and> range_list m' \<and>
    (\<forall>(f, l, d) \<in> set (rangeList_items m'). J d) \<and>
    (\<forall>c. targets_at elems (rangeList_items m') c =
      targets_at elems (rangeList_items m) c \<union> targets_at targets E c) \<and>
    (\<forall>c. item_lookup (rangeList_items m') c = None \<longleftrightarrow>
      item_lookup (rangeList_items m) c = None \<and> item_lookup E c = None)"
proof -
  obtain m' where m': "extendRanges convert ext E m = Some m'" "range_list m'"
    "\<And>c. item_lookup (rangeList_items m') c =
      combine convert ext (item_lookup (rangeList_items m) c) (item_lookup E c)"
    using extendRanges_lookup [OF m(1) E(1)] by blast
  have I: "item_lookup (rangeList_items m) c = Some d \<Longrightarrow> I d" for c d
    using m item_data_lookup [OF range_list_sorted] by blast
  have K: "item_lookup E c = Some e \<Longrightarrow> K e" for c e
    using E item_data_lookup by blast
  have "\<forall>c d. item_lookup (rangeList_items m') c = Some d \<longrightarrow> J d"
    using I K I_J convert_J ext_J by (auto simp: m'(3) combine_def split: option.splits)
  then have "\<forall>(f, l, d) \<in> set (rangeList_items m'). J d"
    using item_data_lookup [OF range_list_sorted [OF m'(2)]] by blast
  moreover have "targets_at elems (rangeList_items m') c =
      targets_at elems (rangeList_items m) c \<union> targets_at targets E c" for c
    using I K convert_elems ext_elems
    by (auto simp: targets_at_def m'(3) combine_def split: option.split)
  moreover have "item_lookup (rangeList_items m') c = None \<longleftrightarrow>
      item_lookup (rangeList_items m) c = None \<and> item_lookup E c = None" for c
    by (auto simp: m'(3) combine_def split: option.split)
  ultimately show ?thesis using m'(1,2) by blast
qed

end

end
