(* ===== verification/Worklist.thy ===== *)
theory Worklist
  imports Dfa Range_List
begin

text \<open>
  The loop that \<open>NFAToDFA::convert\<close> and \<open>DFAMerger::merge\<close> share: take a state from the queue, combine its
  transitions into a range list, get or create the state of each range, and write the transitions of the
  state. What a state stands for, how its transitions are combined and how a state is created are
  arguments; the locale states what they have to promise, and shows that the result is a DFA that runs
  as the abstract states do, and that the loop ends.
\<close>

section \<open>The code\<close>

record 'k build_state =
  out_dfa :: DFA
  node_table :: "('k \<times> nat) list"
  unprocessed :: "('k \<times> nat) list"

definition addRange ::
  "('r \<Rightarrow> 'k build_state \<Rightarrow> (nat \<times> 'k build_state) option) \<Rightarrow> 'r item \<Rightarrow> 'k build_state \<Rightarrow> 'k build_state option" where
  "addRange getOrCreate r st =
     (case r of (f, l, d) \<Rightarrow> do {
        (targetNodeId, st1) \<leftarrow> getOrCreate d st;
        Some (st1\<lparr>out_dfa := (out_dfa st1)
          \<lparr>transitionRanges := transitionRanges (out_dfa st1) @ [\<lparr>rangeFirst = f, rangeLast = l\<rparr>],
           transitionDestinations := transitionDestinations (out_dfa st1) @ [targetNodeId]\<rparr>\<rparr>)
      })"

fun addRanges ::
  "('r \<Rightarrow> 'k build_state \<Rightarrow> (nat \<times> 'k build_state) option) \<Rightarrow> 'r item list \<Rightarrow> 'k build_state \<Rightarrow> 'k build_state option" where
  "addRanges getOrCreate [] st = Some st"
| "addRanges getOrCreate (r # rs) st = do { st1 \<leftarrow> addRange getOrCreate r st; addRanges getOrCreate rs st1 }"

definition processNode ::
  "('k \<Rightarrow> 'r item list option) \<Rightarrow> ('r \<Rightarrow> 'k build_state \<Rightarrow> (nat \<times> 'k build_state) option) \<Rightarrow> 'k \<Rightarrow> nat
    \<Rightarrow> 'k build_state \<Rightarrow> 'k build_state option" where
  "processNode combined getOrCreate k nodeId st = do {
     rs \<leftarrow> combined k;
     let transitionsStart = length (transitionRanges (out_dfa st));
     st1 \<leftarrow> addRanges getOrCreate rs st;
     let transitionsLength = length (transitionRanges (out_dfa st1)) - transitionsStart;
     Some (st1\<lparr>out_dfa := (out_dfa st1)
       \<lparr>dfa_nodes := (dfa_nodes (out_dfa st1))
          [nodeId := setTransitions transitionsStart transitionsLength (dfa_nodes (out_dfa st1) ! nodeId)]\<rparr>\<rparr>)
   }"

partial_function (option) buildLoop ::
  "('k \<Rightarrow> 'r item list option) \<Rightarrow> ('r \<Rightarrow> 'k build_state \<Rightarrow> (nat \<times> 'k build_state) option)
    \<Rightarrow> 'k build_state \<Rightarrow> 'k build_state option" where
  "buildLoop combined getOrCreate st =
     (if unprocessed st = [] then Some st
      else do {
        st1 \<leftarrow> processNode combined getOrCreate (fst (last (unprocessed st))) (snd (last (unprocessed st)))
                 (st\<lparr>unprocessed := butlast (unprocessed st)\<rparr>);
        buildLoop combined getOrCreate st1
      })"

declare buildLoop.simps [code]

section \<open>Tables that grow\<close>

text \<open>A DFA whose tables are extended: the nodes that are there keep their transitions and actions.\<close>

definition in_tables :: "DFA \<Rightarrow> DFANode \<Rightarrow> bool" where
  "in_tables d n \<longleftrightarrow> m_transitionsStart n + m_transitionsLength n \<le> length (transitionRanges d) \<and>
     length (transitionRanges d) = length (transitionDestinations d) \<and>
     m_actionsStart n + m_actionsLength n \<le> length (dfa_actions d)"

definition tables_extend :: "DFA \<Rightarrow> DFA \<Rightarrow> bool" where
  "tables_extend d d' \<longleftrightarrow>
     (\<exists>rs ts as. transitionRanges d' = transitionRanges d @ rs \<and> transitionDestinations d' = transitionDestinations d @ ts \<and>
        dfa_actions d' = dfa_actions d @ as \<and> length rs = length ts)"

lemma tables_extend_refl: "tables_extend d d"
  by (simp add: tables_extend_def)

lemma tables_extend_trans: "tables_extend d d' \<Longrightarrow> tables_extend d' d'' \<Longrightarrow> tables_extend d d''"
  unfolding tables_extend_def by (elim exE conjE) simp

lemma tables_extend_node:
  assumes "tables_extend d d'" and "in_tables d n"
  shows "node_transitions d' n = node_transitions d n" "node_actions d' n = node_actions d n" "in_tables d' n"
  using assms by (auto simp: tables_extend_def in_tables_def node_transitions_def node_actions_def nth_append)

lemma node_transitions_slice:
  assumes "transitionRanges d = rs0 @ rs @ rs1" and "transitionDestinations d = ts0 @ ts @ ts1"
    and "m_transitionsStart n = length rs0" and "length ts0 = length rs0" and "m_transitionsLength n = length rs"
    and "length ts = length rs"
  shows "node_transitions d n = zip rs ts"
  using assms by (intro nth_equalityI) (auto simp: node_transitions_def nth_append)

lemma node_actions_slice:
  assumes "dfa_actions d = as0 @ as @ as1" and "m_actionsStart n = length as0" and "m_actionsLength n = length as"
  shows "node_actions d n = as"
  using assms by (intro nth_equalityI) (auto simp: node_actions_def nth_append)

text \<open>The transitions written for a range list.\<close>

definition item_range :: "'r item \<Rightarrow> CharRange" where
  "item_range r = (case r of (f, l, d) \<Rightarrow> \<lparr>rangeFirst = f, rangeLast = l\<rparr>)"

lemma written_sorted: "length ts = length rs \<Longrightarrow> sorted_from lo (zip (map item_range rs) ts) = items_from lo rs"
  by (induction lo rs arbitrary: ts rule: items_from.induct) (auto simp: item_range_def length_Suc_conv)

lemma written_step:
  "list_all2 (\<lambda>r t. g t = h (snd (snd r))) rs ts \<Longrightarrow>
    map_option g (step_in (zip (map item_range rs) ts) c) = map_option h (item_lookup rs (int c))"
  by (induction rs "int c" arbitrary: ts rule: item_lookup.induct) (auto simp: item_range_def in_range_def list_all2_Cons1)

lemma items_from_length: "items_from lo xs \<Longrightarrow> int (length xs) \<le> max 0 (128 - lo)"
proof (induction lo xs rule: items_from.induct)
  case (2 lo f l d xs)
  then show ?case by auto
qed simp

section \<open>The contract\<close>

text \<open>A new node with its actions, in the table and in the queue.\<close>

definition add_node :: "'k \<Rightarrow> u64 list \<Rightarrow> 'k build_state \<Rightarrow> 'k build_state" where
  "add_node k as st =
     (let d = out_dfa st; n = length (dfa_nodes d)
      in \<lparr>out_dfa = d\<lparr>dfa_actions := dfa_actions d @ as,
                       dfa_nodes := dfa_nodes d @ [setActions (length (dfa_actions d)) (length as) DFANode_default]\<rparr>,
          node_table = node_table st @ [(k, n)], unprocessed = unprocessed st @ [(k, n)]\<rparr>)"

lemma add_node_simps [simp]:
  "node_table (add_node k as st) = node_table st @ [(k, length (dfa_nodes (out_dfa st)))]"
  "unprocessed (add_node k as st) = unprocessed st @ [(k, length (dfa_nodes (out_dfa st)))]"
  "dfa_nodes (out_dfa (add_node k as st)) = dfa_nodes (out_dfa st)
     @ [setActions (length (dfa_actions (out_dfa st))) (length as) DFANode_default]"
  "dfa_actions (out_dfa (add_node k as st)) = dfa_actions (out_dfa st) @ as"
  "transitionRanges (out_dfa (add_node k as st)) = transitionRanges (out_dfa st)"
  "transitionDestinations (out_dfa (add_node k as st)) = transitionDestinations (out_dfa st)"
  "dfa_root (out_dfa (add_node k as st)) = dfa_root (out_dfa st)"
  by (simp_all add: add_node_def Let_def)

lemma add_node_new:
  assumes "length as < 2 ^ 16" and "length (transitionRanges (out_dfa st)) = length (transitionDestinations (out_dfa st))"
  shows "in_tables (out_dfa (add_node k as st)) (setActions (length (dfa_actions (out_dfa st))) (length as) DFANode_default)"
    "node_actions (out_dfa (add_node k as st)) (setActions (length (dfa_actions (out_dfa st))) (length as) DFANode_default) = as"
    "m_flags (setActions (length (dfa_actions (out_dfa st))) (length as) DFANode_default) = 0"
proof -
  show "in_tables (out_dfa (add_node k as st)) (setActions (length (dfa_actions (out_dfa st))) (length as) DFANode_default)"
    "m_flags (setActions (length (dfa_actions (out_dfa st))) (length as) DFANode_default) = 0"
    using assms by (simp_all add: in_tables_def setActions_def DFANode_default_def)
  show "node_actions (out_dfa (add_node k as st)) (setActions (length (dfa_actions (out_dfa st))) (length as) DFANode_default) = as"
    by (rule node_actions_slice [of _ "dfa_actions (out_dfa st)" as "[]"])
      (use assms(1) in \<open>simp_all add: setActions_def DFANode_default_def\<close>)
qed

text \<open>The actions of the abstract states entered while reading a word.\<close>

primrec run_visit :: "('a \<Rightarrow> nat \<Rightarrow> 'a option) \<Rightarrow> ('a \<Rightarrow> u64 set) \<Rightarrow> 'a \<Rightarrow> nat list \<Rightarrow> u64 set" where
  "run_visit step acts a [] = {}"
| "run_visit step acts a (c # w) = (case step a c of None \<Rightarrow> {} | Some b \<Rightarrow> acts b \<union> run_visit step acts b w)"

locale worklist =
  fixes combined :: "'k \<Rightarrow> 'r item list option"
    and getOrCreate :: "'r \<Rightarrow> 'k build_state \<Rightarrow> (nat \<times> 'k build_state) option"
    and key :: "'k \<Rightarrow> 'a" and data :: "'r \<Rightarrow> 'a"
    and okk :: "'k \<Rightarrow> bool" and okr :: "'r \<Rightarrow> bool" and good :: "'a set"
    and step :: "'a \<Rightarrow> nat \<Rightarrow> 'a option" and acts :: "'a \<Rightarrow> u64 set"
  assumes finite_good: "finite good"
    and okk_good: "okk k \<Longrightarrow> key k \<in> good"
    and combined_step: "okk k \<Longrightarrow> \<exists>rs. combined k = Some rs \<and> items_from 0 rs \<and> (\<forall>(f, l, r) \<in> set rs. okr r) \<and>
      (\<forall>c < 128. map_option data (item_lookup rs (int c)) = step (key k) c)"
    and create: "okr r \<Longrightarrow> \<forall>(k, i) \<in> set (node_table st). okk k \<Longrightarrow>
      (\<exists>k i. (k, i) \<in> set (node_table st) \<and> key k = data r \<and> getOrCreate r st = Some (i, st)) \<or>
      (data r \<notin> key ` fst ` set (node_table st) \<and>
       (\<exists>k as. okk k \<and> key k = data r \<and> set as = acts (data r) \<and> length as < 2 ^ 16 \<and>
         getOrCreate r st = Some (length (dfa_nodes (out_dfa st)), add_node k as st)))"
begin

definition node_key :: "'k build_state \<Rightarrow> nat \<Rightarrow> 'a" where
  "node_key st i = key (fst (node_table st ! i))"

definition finished :: "'k build_state \<Rightarrow> nat \<Rightarrow> bool" where
  "finished st i \<longleftrightarrow>
     sorted_from 0 (node_transitions (out_dfa st) (dfa_nodes (out_dfa st) ! i)) \<and>
     (\<forall>(r, t) \<in> set (node_transitions (out_dfa st) (dfa_nodes (out_dfa st) ! i)). t < length (node_table st)) \<and>
     (\<forall>c < 128. map_option (node_key st) (dfa_step (out_dfa st) i c) = step (node_key st i) c)"

definition winv :: "nat set \<Rightarrow> 'k build_state \<Rightarrow> bool" where
  "winv X st \<longleftrightarrow>
     length (node_table st) = length (dfa_nodes (out_dfa st)) \<and>
     length (transitionRanges (out_dfa st)) = length (transitionDestinations (out_dfa st)) \<and>
     (\<forall>i < length (node_table st). snd (node_table st ! i) = i \<and> okk (fst (node_table st ! i))) \<and>
     distinct (map (\<lambda>e. key (fst e)) (node_table st)) \<and>
     set (unprocessed st) \<subseteq> set (node_table st) \<and> distinct (unprocessed st) \<and>
     (\<forall>i < length (node_table st). in_tables (out_dfa st) (dfa_nodes (out_dfa st) ! i) \<and>
        m_flags (dfa_nodes (out_dfa st) ! i) = 0 \<and>
        set (node_actions (out_dfa st) (dfa_nodes (out_dfa st) ! i)) = acts (node_key st i)) \<and>
     (\<forall>i < length (node_table st). i \<notin> X \<longrightarrow> node_table st ! i \<notin> set (unprocessed st) \<longrightarrow> finished st i)"

text \<open>How the state grows: the nodes that are there stay, new nodes are entries of the queue.\<close>

definition extended :: "'k build_state \<Rightarrow> 'k build_state \<Rightarrow> bool" where
  "extended st st' \<longleftrightarrow>
     (\<exists>new ns. node_table st' = node_table st @ new \<and> unprocessed st' = unprocessed st @ new \<and>
        dfa_nodes (out_dfa st') = dfa_nodes (out_dfa st) @ ns) \<and>
     tables_extend (out_dfa st) (out_dfa st') \<and> dfa_root (out_dfa st') = dfa_root (out_dfa st)"

lemma extended_refl: "extended st st"
  by (simp add: extended_def tables_extend_refl)

lemma extended_trans: "extended st st' \<Longrightarrow> extended st' st'' \<Longrightarrow> extended st st''"
  unfolding extended_def by (elim conjE exE) (simp add: tables_extend_trans [of "out_dfa st" "out_dfa st'"])

lemma finished_extended:
  assumes "finished st i" and "extended st st'" and "winv X st" and "i < length (node_table st)"
  shows "finished st' i"
proof -
  have len: "length (node_table st) = length (dfa_nodes (out_dfa st))" and tab: "in_tables (out_dfa st) (dfa_nodes (out_dfa st) ! i)"
    using assms(3,4) by (auto simp: winv_def)
  have node: "dfa_nodes (out_dfa st') ! i = dfa_nodes (out_dfa st) ! i"
    and key: "node_key st' j = node_key st j" and le: "length (node_table st) \<le> length (node_table st')"
    if "j < length (node_table st)" for j
    using assms(2,4) len that by (auto simp: extended_def node_key_def nth_append)
  have tr: "node_transitions (out_dfa st') (dfa_nodes (out_dfa st') ! i) = node_transitions (out_dfa st) (dfa_nodes (out_dfa st) ! i)"
    using assms(2) tables_extend_node(1) [OF _ tab] node [OF assms(4)] by (simp add: extended_def)
  have step: "dfa_step (out_dfa st') i c = dfa_step (out_dfa st) i c" for c by (simp add: dfa_step_def tr)
  have "map_option (node_key st') (dfa_step (out_dfa st) i c) = map_option (node_key st) (dfa_step (out_dfa st) i c)" for c
  proof (cases "dfa_step (out_dfa st) i c")
    case (Some t)
    then obtain r where "(r, t) \<in> set (node_transitions (out_dfa st) (dfa_nodes (out_dfa st) ! i))"
      using step_in_SomeD unfolding dfa_step_def by blast
    then have "t < length (node_table st)" using assms(1) unfolding finished_def by blast
    then show ?thesis using key Some by simp
  qed simp
  moreover have "t < length (node_table st')" if "t < length (node_table st)" for t using that le [OF assms(4)] by simp
  ultimately show ?thesis
    using assms(1) unfolding finished_def tr step key [OF assms(4)] by auto
qed

lemma winv_okk: "winv X st \<Longrightarrow> \<forall>(k, i) \<in> set (node_table st). okk k"
  unfolding winv_def by (fastforce simp: in_set_conv_nth)

lemma add_node_inv:
  assumes I: "winv X st" and k: "okk k" "key k \<notin> key ` fst ` set (node_table st)" and as: "set as = acts (key k)" "length as < 2 ^ 16"
  shows "winv X (add_node k as st)" and "extended st (add_node k as st)"
    and "node_key (add_node k as st) (length (dfa_nodes (out_dfa st))) = key k"
proof -
  let ?n = "length (dfa_nodes (out_dfa st))" and ?st = "add_node k as st" and ?d = "out_dfa st"
  have len: "length (node_table st) = ?n" and rt: "length (transitionRanges ?d) = length (transitionDestinations ?d)"
    using I by (simp_all add: winv_def)
  show ext: "extended st ?st" by (simp add: extended_def tables_extend_def)
  show key: "node_key ?st ?n = key k" using len by (simp add: node_key_def nth_append)
  have tab: "tables_extend ?d (out_dfa ?st)" using ext by (simp add: extended_def)
  have nodes: "in_tables (out_dfa ?st) (dfa_nodes (out_dfa ?st) ! i) \<and> m_flags (dfa_nodes (out_dfa ?st) ! i) = 0 \<and>
      set (node_actions (out_dfa ?st) (dfa_nodes (out_dfa ?st) ! i)) = acts (node_key ?st i)" if "i < Suc ?n" for i
  proof (cases "i = ?n")
    case True
    then show ?thesis using add_node_new(3) [OF as(2) rt] add_node_new(1,2) [OF as(2) rt, of k] as(1) key by simp
  next
    case False
    then have i: "i < ?n" using that by simp
    then have o: "in_tables ?d (dfa_nodes ?d ! i)" "m_flags (dfa_nodes ?d ! i) = 0"
      "set (node_actions ?d (dfa_nodes ?d ! i)) = acts (node_key st i)" using I len by (auto simp: winv_def)
    then show ?thesis
      using tables_extend_node(2,3) [OF tab o(1)] i len by (simp add: nth_append node_key_def)
  qed
  have fin: "finished ?st i" if "i < Suc ?n" "i \<notin> X" "node_table ?st ! i \<notin> set (unprocessed ?st)" for i
  proof -
    have "i \<noteq> ?n" using that(3) len by (auto simp: nth_append)
    then have i: "i < ?n" using that(1) by simp
    then have "node_table st ! i \<notin> set (unprocessed st)" using that(3) len by (auto simp: nth_append)
    then have "finished st i" using I that(2) i len by (auto simp: winv_def)
    then show ?thesis using finished_extended [OF _ ext I] i len by simp
  qed
  have fresh: "(k, ?n) \<notin> set (node_table st)" using k(2) by force
  have "distinct (map (\<lambda>e. key (fst e)) (node_table ?st))" using I k(2) by (auto simp: winv_def image_image)
  moreover have "distinct (unprocessed ?st)" "set (unprocessed ?st) \<subseteq> set (node_table ?st)"
    using I fresh by (auto simp: winv_def)
  moreover have "snd (node_table ?st ! i) = i \<and> okk (fst (node_table ?st ! i))" if "i < Suc ?n" for i
    using I k(1) len that by (cases "i = ?n") (auto simp: winv_def nth_append)
  ultimately show "winv X ?st" unfolding winv_def using len rt nodes fin by simp
qed

lemma create_inv:
  assumes "winv X st" and "okr r"
  obtains i st' where "getOrCreate r st = Some (i, st')" "winv X st'" "extended st st'" "i < length (node_table st')"
    "node_key st' i = data r" "transitionRanges (out_dfa st') = transitionRanges (out_dfa st)"
    "transitionDestinations (out_dfa st') = transitionDestinations (out_dfa st)"
proof (cases "data r \<in> key ` fst ` set (node_table st)")
  case True
  then obtain k i where 1: "(k, i) \<in> set (node_table st)" "key k = data r" "getOrCreate r st = Some (i, st)"
    using create [OF assms(2) winv_okk [OF assms(1)]] by blast
  then obtain j where "j < length (node_table st)" "node_table st ! j = (k, i)" by (auto simp: in_set_conv_nth)
  then have "i < length (node_table st)" "node_key st i = data r"
    using assms(1) 1(2) by (auto simp: winv_def node_key_def)
  then show thesis using that [OF 1(3) assms(1) extended_refl] by blast
next
  case False
  then have "\<exists>k as. okk k \<and> key k = data r \<and> set as = acts (data r) \<and> length as < 2 ^ 16 \<and>
      getOrCreate r st = Some (length (dfa_nodes (out_dfa st)), add_node k as st)"
    using create [OF assms(2) winv_okk [OF assms(1)]] by force
  then obtain k as where 2: "okk k" "key k = data r" "set as = acts (data r)" "length as < 2 ^ 16"
    "getOrCreate r st = Some (length (dfa_nodes (out_dfa st)), add_node k as st)" by blast
  have as: "set as = acts (key k)" and k: "key k \<notin> key ` fst ` set (node_table st)" using 2(2,3) False by simp_all
  have "length (node_table st) = length (dfa_nodes (out_dfa st))" using assms(1) by (simp add: winv_def)
  then show thesis
    using that [OF 2(5) add_node_inv(1,2) [OF assms(1) 2(1) k as 2(4)]] add_node_inv(3) [OF assms(1) 2(1) k as 2(4)] 2(2) by simp
qed

lemma push_transition_inv:
  fixes r :: CharRange and t :: nat
  assumes I: "winv X st"
  defines "st' \<equiv> st\<lparr>out_dfa := (out_dfa st)
    \<lparr>transitionRanges := transitionRanges (out_dfa st) @ [r], transitionDestinations := transitionDestinations (out_dfa st) @ [t]\<rparr>\<rparr>"
  shows "winv X st'" and "extended st st'"
proof -
  show ext: "extended st st'" by (simp add: st'_def extended_def tables_extend_def)
  then have tab: "tables_extend (out_dfa st) (out_dfa st')" by (simp add: extended_def)
  have same: "node_table st' = node_table st" "unprocessed st' = unprocessed st" "dfa_nodes (out_dfa st') = dfa_nodes (out_dfa st)"
    "node_key st' = node_key st"
    by (simp_all add: st'_def node_key_def [abs_def])
  have nodes: "in_tables (out_dfa st') (dfa_nodes (out_dfa st) ! i) \<and>
      set (node_actions (out_dfa st') (dfa_nodes (out_dfa st) ! i)) = acts (node_key st i)" if "i < length (node_table st)" for i
    using I that tables_extend_node(2,3) [OF tab] by (auto simp: winv_def)
  have fin: "finished st' i" if "i < length (node_table st)" "i \<notin> X" "node_table st ! i \<notin> set (unprocessed st)" for i
    using finished_extended [OF _ ext I that(1)] I that by (auto simp: winv_def)
  have "length (transitionRanges (out_dfa st')) = length (transitionDestinations (out_dfa st'))"
    using I by (simp add: st'_def winv_def)
  then show "winv X st'" using I nodes fin unfolding winv_def same by simp
qed

lemma addRanges_inv:
  assumes "winv X st" and "\<forall>(f, l, r) \<in> set rs. okr r"
  shows "\<exists>st' ts. addRanges getOrCreate rs st = Some st' \<and> winv X st' \<and> extended st st' \<and>
    transitionRanges (out_dfa st') = transitionRanges (out_dfa st) @ map item_range rs \<and>
    transitionDestinations (out_dfa st') = transitionDestinations (out_dfa st) @ ts \<and>
    list_all2 (\<lambda>r t. t < length (node_table st') \<and> node_key st' t = data (snd (snd r))) rs ts"
  using assms
proof (induction rs arbitrary: st)
  case Nil
  then show ?case by (simp add: extended_refl)
next
  case (Cons r rs)
  obtain f l d where r: "r = (f, l, d)" using prod_cases3 .
  obtain i st1 where c: "getOrCreate d st = Some (i, st1)" "winv X st1" "extended st st1" "i < length (node_table st1)"
    "node_key st1 i = data d" "transitionRanges (out_dfa st1) = transitionRanges (out_dfa st)"
    "transitionDestinations (out_dfa st1) = transitionDestinations (out_dfa st)"
    using create_inv [OF Cons.prems(1), of d] Cons.prems(2) r by auto
  let ?st = "st1\<lparr>out_dfa := (out_dfa st1)
    \<lparr>transitionRanges := transitionRanges (out_dfa st1) @ [item_range r],
     transitionDestinations := transitionDestinations (out_dfa st1) @ [i]\<rparr>\<rparr>"
  note P = push_transition_inv [OF c(2), where r = "item_range r" and t = i]
  obtain st' ts where I: "addRanges getOrCreate rs ?st = Some st'" "winv X st'" "extended ?st st'"
    "transitionRanges (out_dfa st') = transitionRanges (out_dfa ?st) @ map item_range rs"
    "transitionDestinations (out_dfa st') = transitionDestinations (out_dfa ?st) @ ts"
    "list_all2 (\<lambda>r t. t < length (node_table st') \<and> node_key st' t = data (snd (snd r))) rs ts"
    using Cons.IH [OF P(1)] Cons.prems(2) by auto
  have ext: "extended st st'" using extended_trans [OF extended_trans [OF c(3) P(2)] I(3)] .
  have "i < length (node_table st')" "node_key st' i = data d"
    using I(3) c(4,5) by (auto simp: extended_def node_key_def nth_append)
  then have "list_all2 (\<lambda>r t. t < length (node_table st') \<and> node_key st' t = data (snd (snd r))) (r # rs) (i # ts)"
    using I(6) r by simp
  moreover have "addRanges getOrCreate (r # rs) st = Some st'" using c(1) I(1) by (simp add: addRange_def r item_range_def)
  moreover have "transitionRanges (out_dfa st') = transitionRanges (out_dfa st) @ map item_range (r # rs)"
    "transitionDestinations (out_dfa st') = transitionDestinations (out_dfa st) @ (i # ts)"
    using I(4,5) c(6,7) by simp_all
  ultimately show ?case using I(2) ext by blast
qed

lemma set_transitions_inv:
  assumes I: "winv {i} st" and i: "i < length (node_table st)"
    and tr: "m_transitionsStart n + m_transitionsLength n \<le> length (transitionRanges (out_dfa st))"
    and n: "m_actionsStart n = m_actionsStart (dfa_nodes (out_dfa st) ! i)"
      "m_actionsLength n = m_actionsLength (dfa_nodes (out_dfa st) ! i)" "m_flags n = 0"
    and fin: "sorted_from 0 (node_transitions (out_dfa st) n)"
      "\<forall>(r, t) \<in> set (node_transitions (out_dfa st) n). t < length (node_table st)"
      "\<forall>c < 128. map_option (node_key st) (step_in (node_transitions (out_dfa st) n) c) = step (node_key st i) c"
  shows "winv {} (st\<lparr>out_dfa := (out_dfa st)\<lparr>dfa_nodes := (dfa_nodes (out_dfa st))[i := n]\<rparr>\<rparr>)"
proof -
  let ?st = "st\<lparr>out_dfa := (out_dfa st)\<lparr>dfa_nodes := (dfa_nodes (out_dfa st))[i := n]\<rparr>\<rparr>"
  have len: "length (node_table st) = length (dfa_nodes (out_dfa st))" using I by (simp add: winv_def)
  have same: "node_transitions (out_dfa ?st) = node_transitions (out_dfa st)" "node_actions (out_dfa ?st) = node_actions (out_dfa st)"
    "in_tables (out_dfa ?st) = in_tables (out_dfa st)" "node_key ?st = node_key st" "node_table ?st = node_table st"
    "unprocessed ?st = unprocessed st" "dfa_nodes (out_dfa ?st) = (dfa_nodes (out_dfa st))[i := n]"
    by (simp_all add: fun_eq_iff node_transitions_def node_actions_def in_tables_def node_key_def)
  have nodes: "in_tables (out_dfa st) (dfa_nodes (out_dfa ?st) ! j) \<and> m_flags (dfa_nodes (out_dfa ?st) ! j) = 0 \<and>
      set (node_actions (out_dfa st) (dfa_nodes (out_dfa ?st) ! j)) = acts (node_key st j)" if "j < length (node_table st)" for j
  proof (cases "j = i")
    case True
    have "in_tables (out_dfa st) (dfa_nodes (out_dfa st) ! i)"
      "set (node_actions (out_dfa st) (dfa_nodes (out_dfa st) ! i)) = acts (node_key st i)"
      using I i by (auto simp: winv_def)
    then show ?thesis using True tr n i len by (simp add: in_tables_def node_actions_def)
  next
    case False
    then show ?thesis using I that by (simp add: winv_def)
  qed
  have fins: "finished ?st j" if "j < length (node_table st)" "node_table st ! j \<notin> set (unprocessed st)" for j
  proof (cases "j = i")
    case True
    then show ?thesis using fin i len unfolding finished_def dfa_step_def same by simp
  next
    case False
    then have "finished st j" using I that by (auto simp: winv_def)
    then show ?thesis using False unfolding finished_def dfa_step_def same by simp
  qed
  show ?thesis
    unfolding winv_def same using I nodes fins by (simp add: winv_def)
qed

lemma pop_inv:
  assumes I: "winv {} st" and q: "unprocessed st = q @ [(k, i)]"
  shows "winv {i} (st\<lparr>unprocessed := q\<rparr>)" and "i < length (node_table st)" and "fst (node_table st ! i) = k"
proof -
  have "(k, i) \<in> set (node_table st)" using I q by (auto simp: winv_def)
  then obtain j where "j < length (node_table st)" "node_table st ! j = (k, i)" by (auto simp: in_set_conv_nth)
  then show i: "i < length (node_table st)" and k: "fst (node_table st ! i) = k" using I by (auto simp: winv_def)
  have nk: "node_key (st\<lparr>unprocessed := q\<rparr>) = node_key st" by (simp add: fun_eq_iff node_key_def)
  have e: "finished (st\<lparr>unprocessed := q\<rparr>) = finished st" unfolding finished_def [abs_def] nk by simp
  have "finished st j" if "j < length (node_table st)" "j \<noteq> i" "node_table st ! j \<notin> set q" for j
  proof -
    have "node_table st ! j \<noteq> (k, i)" using I that by (auto simp: winv_def)
    then show ?thesis using I that q by (auto simp: winv_def)
  qed
  then show "winv {i} (st\<lparr>unprocessed := q\<rparr>)" using I q unfolding winv_def e nk by simp
qed

lemma processNode_inv:
  assumes I: "winv {} st" and q: "unprocessed st = q @ [(k, i)]"
  shows "\<exists>st' new. processNode combined getOrCreate k i (st\<lparr>unprocessed := q\<rparr>) = Some st' \<and> winv {} st' \<and>
    node_table st' = node_table st @ new \<and> unprocessed st' = q @ new \<and> dfa_root (out_dfa st') = dfa_root (out_dfa st)"
proof -
  let ?st = "st\<lparr>unprocessed := q\<rparr>"
  note P = pop_inv [OF I q]
  have "okk k" using I P(2,3) by (auto simp: winv_def)
  then obtain rs where rs: "combined k = Some rs" "items_from 0 rs" "\<forall>(f, l, r) \<in> set rs. okr r"
    "\<forall>c < 128. map_option data (item_lookup rs (int c)) = step (key k) c" using combined_step by blast
  obtain st1 ts where A: "addRanges getOrCreate rs ?st = Some st1" "winv {i} st1" "extended ?st st1"
    "transitionRanges (out_dfa st1) = transitionRanges (out_dfa ?st) @ map item_range rs"
    "transitionDestinations (out_dfa st1) = transitionDestinations (out_dfa ?st) @ ts"
    "list_all2 (\<lambda>r t. t < length (node_table st1) \<and> node_key st1 t = data (snd (snd r))) rs ts"
    using addRanges_inv [OF P(1) rs(3)] by blast
  have ts: "length ts = length rs" using list_all2_lengthD [OF A(6)] by simp
  have rt: "length (transitionDestinations (out_dfa st)) = length (transitionRanges (out_dfa st))" using I by (simp add: winv_def)
  have i1: "i < length (node_table st1)" "node_key st1 i = key k"
    using A(3) P(2,3) by (auto simp: extended_def node_key_def nth_append)
  let ?n = "setTransitions (length (transitionRanges (out_dfa st))) (length rs) (dfa_nodes (out_dfa st1) ! i)"
  have "length rs < 256" using items_from_length [OF rs(2)] by simp
  then have nt: "node_transitions (out_dfa st1) ?n = zip (map item_range rs) ts"
    using A(4,5) ts rt
    by (intro node_transitions_slice [of _ "transitionRanges (out_dfa st)" _ "[]" "transitionDestinations (out_dfa st)" _ "[]"])
      (simp_all add: setTransitions_def)
  have tgt: "t < length (node_table st1)" if "(r, t) \<in> set (zip (map item_range rs) ts)" for r t
    using that A(6) by (auto simp: list_all2_conv_all_nth set_zip)
  have "winv {} (st1\<lparr>out_dfa := (out_dfa st1)\<lparr>dfa_nodes := (dfa_nodes (out_dfa st1))[i := ?n]\<rparr>\<rparr>)"
  proof (rule set_transitions_inv [OF A(2) i1(1)])
    show "m_transitionsStart ?n + m_transitionsLength ?n \<le> length (transitionRanges (out_dfa st1))"
      using A(4) \<open>length rs < 256\<close> by (simp add: setTransitions_def)
    show "m_flags ?n = 0" using A(2) i1(1) by (simp add: setTransitions_def winv_def)
    show "sorted_from 0 (node_transitions (out_dfa st1) ?n)" using written_sorted [OF ts] rs(2) nt by simp
    show "\<forall>(r, t) \<in> set (node_transitions (out_dfa st1) ?n). t < length (node_table st1)" using tgt nt by auto
    have "list_all2 (\<lambda>r t. node_key st1 t = data (snd (snd r))) rs ts" using A(6) by (rule list_all2_mono) simp
    from written_step [OF this]
    show "\<forall>c < 128. map_option (node_key st1) (step_in (node_transitions (out_dfa st1) ?n) c) = step (node_key st1 i) c"
      using rs(4) nt i1(2) by simp
  qed (simp_all add: setTransitions_def)
  moreover have "processNode combined getOrCreate k i ?st =
      Some (st1\<lparr>out_dfa := (out_dfa st1)\<lparr>dfa_nodes := (dfa_nodes (out_dfa st1))[i := ?n]\<rparr>\<rparr>)"
    using rs(1) A(1,4) by (simp add: processNode_def Let_def)
  moreover obtain new where "node_table st1 = node_table st @ new" "unprocessed st1 = q @ new"
    "dfa_root (out_dfa st1) = dfa_root (out_dfa st)"
    using A(3) by (auto simp: extended_def)
  ultimately show ?thesis by auto
qed

lemma table_bound:
  assumes "winv X st"
  shows "length (node_table st) \<le> card good"
proof -
  have "(\<lambda>e. key (fst e)) ` set (node_table st) \<subseteq> good"
    using winv_okk [OF assms] okk_good by auto
  then have "card (set (map (\<lambda>e. key (fst e)) (node_table st))) \<le> card good"
    using finite_good card_mono by (metis set_map)
  moreover have "card (set (map (\<lambda>e. key (fst e)) (node_table st))) = length (node_table st)"
    using assms distinct_card [of "map (\<lambda>e. key (fst e)) (node_table st)"] by (simp add: winv_def)
  ultimately show ?thesis by simp
qed

lemma buildLoop_inv:
  assumes "winv {} st"
  shows "\<exists>st' new. buildLoop combined getOrCreate st = Some st' \<and> winv {} st' \<and> unprocessed st' = [] \<and>
    node_table st' = node_table st @ new \<and> dfa_root (out_dfa st') = dfa_root (out_dfa st)"
  using assms
proof (induction "card good + length (unprocessed st) - length (node_table st)" arbitrary: st rule: less_induct)
  case less
  show ?case
  proof (cases "unprocessed st" rule: rev_exhaust)
    case Nil
    then show ?thesis using less.prems by (subst buildLoop.simps) auto
  next
    case (snoc q e)
    obtain k i where e: "e = (k, i)" by force
    obtain st1 new where s: "processNode combined getOrCreate k i (st\<lparr>unprocessed := q\<rparr>) = Some st1" "winv {} st1"
      "node_table st1 = node_table st @ new" "unprocessed st1 = q @ new" "dfa_root (out_dfa st1) = dfa_root (out_dfa st)"
      using processNode_inv [OF less.prems] snoc e by blast
    have "card good + length (unprocessed st1) - length (node_table st1) < card good + length (unprocessed st) - length (node_table st)"
      using s(3,4) snoc table_bound [OF less.prems] by simp
    from less.hyps [OF this s(2)] obtain st' new' where
      "buildLoop combined getOrCreate st1 = Some st'" "winv {} st'" "unprocessed st' = []"
      "node_table st' = node_table st1 @ new'" "dfa_root (out_dfa st') = dfa_root (out_dfa st1)" by blast
    then show ?thesis using s snoc e by (subst buildLoop.simps) simp
  qed
qed

text \<open>The DFA runs as the abstract states do.\<close>

lemma build_visit:
  assumes I: "winv {} st" "unprocessed st = []" and "i < length (node_table st)" and "\<forall>c \<in> set w. c < 128"
  shows "dfa_visit (out_dfa st) i w = run_visit step acts (node_key st i) w"
  using assms(3,4)
proof (induction w arbitrary: i)
  case (Cons c w)
  have fin: "finished st i" using I Cons.prems(1) by (simp add: winv_def)
  have st: "map_option (node_key st) (dfa_step (out_dfa st) i c) = step (node_key st i) c"
    using fin Cons.prems(2) by (simp add: finished_def)
  show ?case
  proof (cases "dfa_step (out_dfa st) i c")
    case None
    then have "step (node_key st i) c = None" using st by simp
    with None show ?thesis by simp
  next
    case (Some t)
    then obtain r where "(r, t) \<in> set (node_transitions (out_dfa st) (dfa_nodes (out_dfa st) ! i))"
      using step_in_SomeD unfolding dfa_step_def by blast
    then have t: "t < length (node_table st)" using fin unfolding finished_def by blast
    have "dfa_acts (out_dfa st) t = acts (node_key st t)" using I(1) t by (simp add: winv_def dfa_acts_def)
    moreover have "step (node_key st i) c = Some (node_key st t)" using st Some by simp
    ultimately show ?thesis using Some Cons.IH [OF t] Cons.prems(2) by simp
  qed
qed simp

lemma build_wf:
  assumes I: "winv {} st" "unprocessed st = []" and "dfa_root (out_dfa st) < length (node_table st)"
    and "length (dfa_nodes (out_dfa st)) < 2 ^ 32 - 1"
  shows "wf_dfa (out_dfa st)"
proof -
  have len: "length (node_table st) = length (dfa_nodes (out_dfa st))" using I(1) by (simp add: winv_def)
  have live: "\<not> isKilled (dfa_nodes (out_dfa st) ! i)" if "i < length (dfa_nodes (out_dfa st))" for i
    using I(1) that len by (simp add: winv_def isKilled_def)
  have "wf_node (out_dfa st) (dfa_nodes (out_dfa st) ! i)" if i: "i < length (dfa_nodes (out_dfa st))" for i
  proof -
    have "finished st i" "in_tables (out_dfa st) (dfa_nodes (out_dfa st) ! i)" "m_flags (dfa_nodes (out_dfa st) ! i) = 0"
      using I i len by (auto simp: winv_def)
    then show ?thesis using live len by (auto simp: wf_node_def finished_def in_tables_def)
  qed
  then show ?thesis using I(1) assms(3,4) live len by (auto simp: wf_dfa_def winv_def in_set_conv_nth)
qed

text \<open>The construction from an empty DFA and one state.\<close>

lemma build_new:
  assumes k: "okk k" and as: "set as = acts (key k)" "length as < 2 ^ 16"
  shows "\<exists>st. buildLoop combined getOrCreate (add_node k as \<lparr>out_dfa = DFA_default, node_table = [], unprocessed = []\<rparr>) = Some st \<and>
    dfa_root (out_dfa st) = 0 \<and> dfa_nodes (out_dfa st) \<noteq> [] \<and>
    (length (dfa_nodes (out_dfa st)) < 2 ^ 32 - 1 \<longrightarrow> wf_dfa (out_dfa st)) \<and>
    (\<forall>w. (\<forall>c \<in> set w. c < 128) \<longrightarrow>
      dfa_acts (out_dfa st) 0 \<union> dfa_visit (out_dfa st) 0 w = acts (key k) \<union> run_visit step acts (key k) w)"
proof -
  define st0 :: "'k build_state" where "st0 = \<lparr>out_dfa = DFA_default, node_table = [], unprocessed = []\<rparr>"
  have "winv {} st0" by (simp add: winv_def DFA_default_def st0_def)
  from add_node_inv(1) [OF this k _ as] have inv: "winv {} (add_node k as st0)" by (simp add: st0_def)
  obtain st new where r: "buildLoop combined getOrCreate (add_node k as st0) = Some st"
    and w: "winv {} st" "unprocessed st = []" "node_table st = (k, 0) # new" "dfa_root (out_dfa st) = 0"
    using buildLoop_inv [OF inv] by (auto simp: DFA_default_def st0_def)
  have z: "0 < length (node_table st)" and key: "node_key st 0 = key k" using w(3) by (simp_all add: node_key_def)
  have len: "length (node_table st) = length (dfa_nodes (out_dfa st))" using w(1) by (simp add: winv_def)
  have "set (node_actions (out_dfa st) (dfa_nodes (out_dfa st) ! 0)) = acts (node_key st 0)"
    using w(1) z by (simp add: winv_def del: One_nat_def)
  then have "dfa_acts (out_dfa st) 0 = acts (key k)" by (simp add: dfa_acts_def key)
  moreover have "dfa_visit (out_dfa st) 0 u = run_visit step acts (key k) u" if "\<forall>c \<in> set u. c < 128" for u
    using build_visit [OF w(1,2) z that] key by simp
  moreover have "wf_dfa (out_dfa st)" if "length (dfa_nodes (out_dfa st)) < 2 ^ 32 - 1"
    using build_wf [OF w(1,2) _ that] z w(4) by simp
  ultimately show ?thesis using r w(4) len z unfolding st0_def by (intro exI [of _ st]) auto
qed

end

end
