(* ===== verification/Bit_Count.thy ===== *)
theory Bit_Count
  imports CE_Prelude
begin

text \<open>
  \<open>WTF::bitCount\<close> (\<open>StdLibExtras.h\<close>), which counts the bits of a word in parallel, with the proof that it is
  the number of the bits that are set.
\<close>

unbundle bit_operations_syntax

definition bitCount32 :: "32 word \<Rightarrow> nat" where
  "bitCount32 bits0 =
     (let bits1 = bits0 - (drop_bit 1 bits0 AND 0x55555555);
          bits2 = (bits1 AND 0x33333333) + (drop_bit 2 bits1 AND 0x33333333)
      in unat (drop_bit 24 (((bits2 + drop_bit 4 bits2) AND 0x0F0F0F0F) * 0x01010101)))"

definition bitCount64 :: "u64 \<Rightarrow> nat" where
  "bitCount64 bits = bitCount32 (ucast bits) + bitCount32 (ucast (drop_bit 32 bits))"

section \<open>Digits\<close>

primrec val :: "nat \<Rightarrow> nat list \<Rightarrow> nat" where
  "val B [] = 0"
| "val B (d # ds) = d + B * val B ds"

fun evens :: "nat list \<Rightarrow> nat list" where
  "evens (a # b # ds) = a # evens ds"
| "evens _ = []"

fun odds :: "nat list \<Rightarrow> nat list" where
  "odds (a # b # ds) = b # odds ds"
| "odds _ = []"

fun pair_sums :: "nat list \<Rightarrow> nat list" where
  "pair_sums (a # b # ds) = (a + b) # pair_sums ds"
| "pair_sums _ = []"

fun next_sums :: "nat list \<Rightarrow> nat list" where
  "next_sums (a # b # ds) = (a + b) # next_sums (b # ds)"
| "next_sums [a] = [a]"
| "next_sums [] = []"

text \<open>The masks of the code: the digit \<open>B - 1\<close> at every other place.\<close>

abbreviation every_other :: "nat \<Rightarrow> nat \<Rightarrow> nat" where
  "every_other j k \<equiv> val (2 ^ j * 2 ^ j) (replicate k (2 ^ j - 1))"

lemma and_chunk:
  fixes a m :: nat
  assumes "a < 2 ^ j" and "m < 2 ^ j"
  shows "(a + 2 ^ j * b) AND (m + 2 ^ j * n) = (a AND m) + 2 ^ j * (b AND n)"
proof -
  let ?X = "a + 2 ^ j * b" and ?Y = "m + 2 ^ j * n"
  have t: "take_bit j ?X = a" "take_bit j ?Y = m" "drop_bit j ?X = b" "drop_bit j ?Y = n"
    using assms by (simp_all add: take_bit_eq_mod drop_bit_eq_div)
  have "?X AND ?Y = take_bit j (?X AND ?Y) + 2 ^ j * drop_bit j (?X AND ?Y)"
    by (simp add: take_bit_eq_mod drop_bit_eq_div)
  then show ?thesis unfolding take_bit_and drop_bit_and t .
qed

lemma and_low: "a < 2 ^ j \<Longrightarrow> a AND (2 ^ j - 1) = a" for a :: nat
  using take_bit_nat_eq_self [of a j] unfolding take_bit_eq_mask mask_eq_exp_minus_1 by simp

lemma and_every_other:
  assumes "\<forall>d \<in> set ds. d < 2 ^ j" and "length ds = 2 * k"
  shows "val (2 ^ j) ds AND every_other j k = val (2 ^ j * 2 ^ j) (evens ds)"
    and "val (2 ^ j) ds div 2 ^ j AND every_other j k = val (2 ^ j * 2 ^ j) (odds ds)"
proof -
  have "val (2 ^ j) ds AND every_other j k = val (2 ^ j * 2 ^ j) (evens ds) \<and>
      val (2 ^ j) ds div 2 ^ j AND every_other j k = val (2 ^ j * 2 ^ j) (odds ds)"
    using assms
  proof (induction ds arbitrary: k rule: evens.induct)
    case (1 a b ds)
    then obtain k' where k: "k = Suc k'" by (cases k) auto
    let ?B = "2 ^ j :: nat" and ?V = "val (2 ^ j) ds" and ?M = "every_other j k'"
    have B: "a < ?B" "b < ?B" using "1.prems" by auto
    have low: "(x + ?B * y) AND (?B - 1 + ?B * (?B * m)) = x + ?B * (y AND ?B * m)" if "x < ?B" for x y m
      using that and_chunk [of x j "?B - 1" y "?B * m"] and_low [OF that] by simp
    have shift: "(y + ?B * z) AND ?B * m = ?B * (z AND m)" if "y < ?B" for y z m
      using and_chunk [of y j 0 z m] that by simp
    have "(a + ?B * (b + ?B * ?V)) AND (?B - 1 + ?B * (?B * ?M)) = a + ?B * (?B * (?V AND ?M))"
      using low [OF B(1)] shift [OF B(2)] by simp
    moreover have "(b + ?B * ?V) AND (?B - 1 + ?B * (?B * ?M)) = b + ?B * (?B * (?V div ?B AND ?M))"
      using low [OF B(2), of ?V ?M] shift [of "?V mod ?B" "?V div ?B" ?M] by simp
    ultimately show ?case using 1 k B by (simp add: mult.assoc)
  qed auto
  then show "val (2 ^ j) ds AND every_other j k = val (2 ^ j * 2 ^ j) (evens ds)"
    "val (2 ^ j) ds div 2 ^ j AND every_other j k = val (2 ^ j * 2 ^ j) (odds ds)" by auto
qed

lemma val_pairs:
  assumes "even (length ds)"
  shows "val B ds = val (B * B) (evens ds) + B * val (B * B) (odds ds)"
    and "val C (pair_sums ds) = val C (evens ds) + val C (odds ds)"
  using assms by (induction ds rule: evens.induct) (auto simp: algebra_simps)

lemma length_pairs [simp]:
  "length (evens ds) = length ds div 2" "length (odds ds) = length ds div 2" "length (pair_sums ds) = length ds div 2"
  by (induction ds rule: evens.induct) auto

lemma sum_pair_sums: "even (length ds) \<Longrightarrow> sum_list (pair_sums ds) = sum_list ds"
  by (induction ds rule: pair_sums.induct) auto

lemma pair_sums_bound: "\<forall>d \<in> set ds. d \<le> n \<Longrightarrow> \<forall>d \<in> set (pair_sums ds). d \<le> 2 * n"
  by (induction ds rule: pair_sums.induct) auto

lemma next_sums: "\<forall>d \<in> set ds. d < B \<Longrightarrow> val B ds + val B ds div B = val B (next_sums ds)"
proof (induction ds rule: next_sums.induct)
  case (1 a b ds)
  let ?V = "val B (b # ds)"
  have d: "(a + B * ?V) div B = ?V" "?V div B = val B ds" using "1.prems" by auto
  have "?V + val B ds = val B (next_sums (b # ds))" using 1 d(2) by simp
  then have "B * val B (next_sums (b # ds)) = B * ?V + B * val B ds" by (metis add_mult_distrib2)
  then show ?case using d(1) by simp
qed auto

lemma next_sums_bound: "\<forall>d \<in> set ds. d \<le> n \<Longrightarrow> \<forall>d \<in> set (next_sums ds). d \<le> 2 * n"
  by (induction ds rule: next_sums.induct) auto

lemma length_next_sums [simp]: "length (next_sums ds) = length ds"
  by (induction ds rule: next_sums.induct) auto

lemma evens_next_sums: "even (length ds) \<Longrightarrow> evens (next_sums ds) = pair_sums ds"
proof (induction ds rule: pair_sums.induct)
  case (1 a b ds)
  then show ?case by (cases ds) auto
qed auto

section \<open>The count\<close>

definition bits_of :: "nat \<Rightarrow> nat \<Rightarrow> nat list" where
  "bits_of k n = map (\<lambda>i. of_bool (bit n i)) [0 ..< k]"

definition popcount :: "nat \<Rightarrow> nat \<Rightarrow> nat" where
  "popcount k n = card {i. i < k \<and> bit n i}"

lemma sum_bits_of: "sum_list (bits_of k n) = popcount k n"
proof (induction k)
  case (Suc k)
  have "{i. i < Suc k \<and> bit n i} = {i. i < k \<and> bit n i} \<union> (if bit n k then {k} else {})"
    by (auto simp: less_Suc_eq)
  with Suc show ?case by (simp add: bits_of_def popcount_def)
qed (simp add: bits_of_def popcount_def)

lemma val_append: "val B (ds @ es) = val B ds + B ^ length ds * val B es"
  by (induction ds) (auto simp: algebra_simps)

lemma val_bits_of: "val 2 (bits_of k n) = n mod 2 ^ k"
proof (induction k)
  case (Suc k)
  have "bits_of (Suc k) n = bits_of k n @ [of_bool (bit n k)]" by (simp add: bits_of_def)
  moreover have "n mod 2 ^ Suc k = n mod 2 ^ k + 2 ^ k * of_bool (bit n k)"
    using take_bit_Suc_from_most [of k n] by (simp add: take_bit_eq_mod)
  moreover have "length (bits_of k n) = k" by (simp add: bits_of_def)
  ultimately show ?case using Suc by (simp add: val_append)
qed (simp add: bits_of_def)

lemma val_bound: "\<forall>d \<in> set ds. d < B \<Longrightarrow> val B ds < B ^ length ds"
proof (induction ds)
  case (Cons d ds)
  then have "Suc (val B ds) \<le> B ^ length ds" "d < B" by auto
  then have "B * Suc (val B ds) \<le> B * B ^ length ds" using mult_le_mono2 by blast
  then show ?case using \<open>d < B\<close> by simp
qed simp

lemma spread_sum:
  fixes a b c d :: nat
  assumes "a \<le> 8" "b \<le> 8" "c \<le> 8" "d \<le> 8"
  shows "(a + 256 * (b + 256 * (c + 256 * d))) * 0x01010101 mod 2 ^ 32 div 2 ^ 24 = a + b + c + d"
proof -
  have "(a + 256 * (b + 256 * (c + 256 * d))) * 0x01010101 =
      (a + 256 * (a + b) + 65536 * (a + b + c) + 2 ^ 24 * (a + b + c + d))
      + 2 ^ 32 * (b + 257 * c + 65793 * d)" by simp
  moreover have "a + 256 * (a + b) + 65536 * (a + b + c) + 2 ^ 24 * (a + b + c + d) < 2 ^ 32" using assms by simp
  ultimately have "(a + 256 * (b + 256 * (c + 256 * d))) * 0x01010101 mod 2 ^ 32 =
      (a + 256 * (a + b) + 65536 * (a + b + c)) + 2 ^ 24 * (a + b + c + d)"
    by (simp only: mod_mult_self2 mod_less)
  moreover have "a + 256 * (a + b) + 65536 * (a + b + c) < 2 ^ 24" using assms by simp
  ultimately show ?thesis by (simp only: div_mult_self2 div_less)
qed

text \<open>The three steps on natural numbers.\<close>

lemma count_steps:
  fixes n :: nat
  assumes "n < 2 ^ 32"
  defines "n1 \<equiv> n - (n div 2 AND every_other 1 16)"
  defines "n2 \<equiv> (n1 AND every_other 2 8) + (n1 div 4 AND every_other 2 8)"
  defines "n3 \<equiv> (n2 + n2 div 16) AND every_other 4 4"
  shows "n div 2 AND every_other 1 16 \<le> n" "n2 < 2 ^ 32" "n2 + n2 div 16 < 2 ^ 32"
    "n3 * 0x01010101 mod 2 ^ 32 div 2 ^ 24 = popcount 32 n"
proof -
  define d0 d1 d2 d3 where "d0 = bits_of 32 n" and "d1 = pair_sums d0" and "d2 = pair_sums d1" and "d3 = pair_sums d2"
  have len: "length d0 = 32" "length d1 = 16" "length d2 = 8" "length d3 = 4"
    by (simp_all add: d0_def d1_def d2_def d3_def bits_of_def)
  have "\<forall>d \<in> set d0. d \<le> 1" by (auto simp: d0_def bits_of_def)
  then have b: "\<forall>d \<in> set d0. d \<le> 1" "\<forall>d \<in> set d1. d \<le> 2" "\<forall>d \<in> set d2. d \<le> 4" "\<forall>d \<in> set d3. d \<le> 8"
    "\<forall>d \<in> set (next_sums d2). d \<le> 8"
    using pair_sums_bound [of d0 1] pair_sums_bound [of d1 2] pair_sums_bound [of d2 4] next_sums_bound [of d2 4]
    by (simp_all add: d1_def d2_def d3_def)
  have n: "n = val 2 d0" using assms(1) by (simp add: d0_def val_bits_of)
  have o: "n div 2 AND every_other 1 16 = val 4 (odds d0)"
    using and_every_other(2) [of d0 1 16] b(1) len(1) n by fastforce
  have v: "n = val 4 (evens d0) + 2 * val 4 (odds d0)" using val_pairs(1) [of d0 2] len(1) n by simp
  show "n div 2 AND every_other 1 16 \<le> n" using o v by simp
  have n1: "n1 = val 4 d1" using val_pairs(2) [of d0 4] len(1) o v by (simp add: n1_def d1_def)
  have "n2 = val 16 (evens d1) + val 16 (odds d1)"
    using and_every_other [of d1 2 8] b(2) len(2) n1 by (fastforce simp: n2_def)
  then have n2: "n2 = val 16 d2" using val_pairs(2) [of d1 16] len(2) by (simp add: d2_def)
  have n23: "n2 + n2 div 16 = val 16 (next_sums d2)" using next_sums [of d2 16] b(3) n2 by fastforce
  show "n2 < 2 ^ 32" using val_bound [of d2 16] b(3) len(3) n2 by fastforce
  show "n2 + n2 div 16 < 2 ^ 32" using val_bound [of "next_sums d2" 16] b(5) len(3) n23 by fastforce
  have "n3 = val 256 (evens (next_sums d2))"
    using and_every_other(1) [of "next_sums d2" 4 4] b(5) len(3) n23 by (fastforce simp: n3_def)
  then have n3: "n3 = val 256 d3" using evens_next_sums [of d2] len(3) by (simp add: d3_def)
  obtain e0 e1 e2 e3 where e: "d3 = [e0, e1, e2, e3]"
    using len(4) by (auto simp: numeral_eq_Suc length_Suc_conv)
  have "sum_list d3 = popcount 32 n"
    using sum_pair_sums [of d0] sum_pair_sums [of d1] sum_pair_sums [of d2] len sum_bits_of [of 32 n]
    by (simp add: d0_def d1_def d2_def d3_def)
  then show "n3 * 0x01010101 mod 2 ^ 32 div 2 ^ 24 = popcount 32 n"
    using spread_sum [of e0 e1 e2 e3] b(4) n3 e by simp
qed

lemma masks:
  "every_other 1 16 = 0x55555555" "every_other 2 8 = 0x33333333" "every_other 4 4 = 0x0F0F0F0F"
  by code_simp+

lemma unat_drop: "unat (drop_bit k w) = unat w div 2 ^ k" for w :: "'a::len word"
  unfolding unat_drop_bit_eq by (rule drop_bit_eq_div)

lemma unat_and: "unat (a AND b) = unat a AND unat b" for a b :: "'a::len word"
  by (rule unsigned_and_eq)

theorem bitCount32_popcount: "bitCount32 w = popcount 32 (unat w)"
proof -
  define b1 b2 where "b1 = w - (drop_bit 1 w AND 0x55555555)"
    and "b2 = (b1 AND 0x33333333) + (drop_bit 2 b1 AND 0x33333333)"
  have "unat w < 2 ^ 32" using unsigned_less [of w] by simp
  note S = count_steps [OF this, unfolded masks]
  have "unat (drop_bit 1 w AND 0x55555555) = unat w div 2 AND 0x55555555"
    unfolding unat_and unat_drop by simp
  then have u1: "unat b1 = unat w - (unat w div 2 AND 0x55555555)"
    using S(1) unat_sub [of "drop_bit 1 w AND 0x55555555" w] by (simp add: b1_def word_le_nat_alt)
  have "unat (b1 AND 0x33333333) + unat (drop_bit 2 b1 AND 0x33333333) =
      (unat b1 AND 0x33333333) + (unat b1 div 4 AND 0x33333333)"
    unfolding unat_and unat_drop by simp
  then have u2: "unat b2 = (unat b1 AND 0x33333333) + (unat b1 div 4 AND 0x33333333)"
    using S(2) unat_add_lem [of "b1 AND 0x33333333" "drop_bit 2 b1 AND 0x33333333"] u1 by (simp add: b2_def)
  have "unat b2 + unat (drop_bit 4 b2) < 2 ^ 32"
    unfolding unat_drop using S(3) u1 u2 by simp
  then have "unat (b2 + drop_bit 4 b2) = unat b2 + unat b2 div 16"
    using unat_add_lem [of b2 "drop_bit 4 b2"] unat_drop [of 4 b2] by simp
  then have u3: "unat ((b2 + drop_bit 4 b2) AND 0x0F0F0F0F) = (unat b2 + unat b2 div 16) AND 0x0F0F0F0F"
    by (simp add: unat_and)
  have "bitCount32 w = unat (((b2 + drop_bit 4 b2) AND 0x0F0F0F0F) * 0x01010101) div 2 ^ 24"
    unfolding bitCount32_def Let_def b1_def b2_def unat_drop ..
  also have "\<dots> = ((unat b2 + unat b2 div 16) AND 0x0F0F0F0F) * 0x01010101 mod 2 ^ 32 div 2 ^ 24"
    using u3 by (simp add: unat_word_ariths)
  also have "\<dots> = popcount 32 (unat w)" using S(4) u1 u2 by simp
  finally show ?thesis .
qed

text \<open>The number of the bits of a 64-bit word.\<close>

lemma card_split: "card {i. i < a + b \<and> P i} = card {i. i < a \<and> P i} + card {i. i < b \<and> P (a + i)}" for a b :: nat
proof (induction b)
  case (Suc b)
  have "{i. i < a + Suc b \<and> P i} = {i. i < a + b \<and> P i} \<union> (if P (a + b) then {a + b} else {})"
    "{i. i < Suc b \<and> P (a + i)} = {i. i < b \<and> P (a + i)} \<union> (if P (a + b) then {b} else {})"
    by (auto simp: less_Suc_eq)
  with Suc show ?case by simp
qed simp

theorem bitCount64_card: "bitCount64 w = card {i. i < 64 \<and> bit w i}"
proof -
  have lo: "{i. i < 32 \<and> bit (unat (ucast w :: 32 word)) i} = {i. i < 32 \<and> bit w i}"
    by (auto simp: bit_unsigned_iff)
  have hi: "{i. i < 32 \<and> bit (unat (ucast (drop_bit 32 w) :: 32 word)) i} = {i. i < 32 \<and> bit w (32 + i)}"
    by (auto simp: bit_unsigned_iff bit_drop_bit_eq)
  show ?thesis
    using card_split [of 32 32 "bit w"] by (simp add: bitCount64_def bitCount32_popcount popcount_def lo hi)
qed

end
