(* ===== verification/Nfa.thy ===== *)
theory Nfa
  imports Range_List
begin

text \<open>
  \<open>ImmutableNFA.h\<close>, \<open>ImmutableNFANodeBuilder.h\<close> and \<open>NFA.h\<close>: the graph with its flat tables, and the builder
  that collects the transitions of one node and sinks them into the tables when it is finalized. The
  theory reads a graph as sets of edges and shows what finalizing a builder adds to them.

  Hash sets are lists without duplicates; the order in which one is iterated is a parameter.
\<close>

section \<open>The code\<close>

record ImmutableRange =
  targetStart :: nat
  targetEnd :: nat
  nr_first :: int
  nr_last :: int

record ImmutableNFANode =
  rangesStart :: nat
  rangesEnd :: nat
  epsilonTransitionTargetsStart :: nat
  epsilonTransitionTargetsEnd :: nat
  actionStart :: nat
  actionEnd :: nat

definition ImmutableNFANode_default :: ImmutableNFANode where
  "ImmutableNFANode_default =
     \<lparr>rangesStart = 0, rangesEnd = 0, epsilonTransitionTargetsStart = 0, epsilonTransitionTargetsEnd = 0,
      actionStart = 0, actionEnd = 0\<rparr>"

record NFA =
  nfa_nodes :: "ImmutableNFANode list"
  nfa_transitions :: "ImmutableRange list"
  nfa_targets :: "nat list"
  epsilonTransitionsTargets :: "nat list"
  nfa_actions :: "u64 list"

definition NFA_default :: NFA where
  "NFA_default = \<lparr>nfa_nodes = [], nfa_transitions = [], nfa_targets = [], epsilonTransitionsTargets = [], nfa_actions = []\<rparr>"

text \<open>The entries of a table between two positions.\<close>

definition slice :: "nat \<Rightarrow> nat \<Rightarrow> 'a list \<Rightarrow> 'a list" where
  "slice a b xs = take (b - a) (drop a xs)"

text \<open>\<open>transitionsForNode\<close> with its iterators: the ranges of a node and the targets of each.\<close>

definition range_targets :: "NFA \<Rightarrow> ImmutableRange \<Rightarrow> nat list item" where
  "range_targets nfa r = (nr_first r, nr_last r, slice (targetStart r) (targetEnd r) (nfa_targets nfa))"

definition transitionsForNode :: "NFA \<Rightarrow> nat \<Rightarrow> nat list item list" where
  "transitionsForNode nfa nodeId =
     (let node = nfa_nodes nfa ! nodeId
      in map (range_targets nfa) (slice (rangesStart node) (rangesEnd node) (nfa_transitions nfa)))"

definition epsilonTargets :: "NFA \<Rightarrow> nat \<Rightarrow> nat list" where
  "epsilonTargets nfa nodeId =
     (let node = nfa_nodes nfa ! nodeId
      in slice (epsilonTransitionTargetsStart node) (epsilonTransitionTargetsEnd node) (epsilonTransitionsTargets nfa))"

definition actionsForNode :: "NFA \<Rightarrow> nat \<Rightarrow> u64 list" where
  "actionsForNode nfa nodeId =
     (let node = nfa_nodes nfa ! nodeId in slice (actionStart node) (actionEnd node) (nfa_actions nfa))"

definition nfa_root :: "NFA \<Rightarrow> nat option" where
  "nfa_root nfa = (if nfa_nodes nfa \<noteq> [] then Some 0 else None)"

text \<open>The builder of a node.\<close>

type_synonym TargetSet = "nat list"

record NFANodeBuilder =
  m_ranges :: "TargetSet MutableRange list"
  m_epsilonTransitionTargets :: TargetSet
  m_actions :: "u64 list"
  m_nodeId :: nat

definition newBuilder :: "NFA \<Rightarrow> NFANodeBuilder \<times> NFA" where
  "newBuilder nfa =
     (\<lparr>m_ranges = [], m_epsilonTransitionTargets = [], m_actions = [], m_nodeId = length (nfa_nodes nfa)\<rparr>,
      nfa\<lparr>nfa_nodes := nfa_nodes nfa @ [ImmutableNFANode_default]\<rparr>)"

definition targetSet_convert :: "nat \<Rightarrow> TargetSet" where
  "targetSet_convert target = [target]"

definition targetSet_extend :: "TargetSet \<Rightarrow> nat \<Rightarrow> TargetSet" where
  "targetSet_extend existingTargets target = hs_add target existingTargets"

definition addTransition :: "int \<Rightarrow> int \<Rightarrow> nat \<Rightarrow> NFANodeBuilder \<Rightarrow> NFANodeBuilder option" where
  "addTransition f l targetNodeId b = do {
     rs \<leftarrow> extendRanges targetSet_convert targetSet_extend [(f, l, targetNodeId)] (m_ranges b);
     Some (b\<lparr>m_ranges := rs\<rparr>)
   }"

definition addEpsilonTransition :: "nat \<Rightarrow> NFANodeBuilder \<Rightarrow> NFANodeBuilder" where
  "addEpsilonTransition targetNodeId b =
     b\<lparr>m_epsilonTransitionTargets := hs_add targetNodeId (m_epsilonTransitionTargets b)\<rparr>"

definition builder_setActions :: "u64 list \<Rightarrow> NFANodeBuilder \<Rightarrow> NFANodeBuilder" where
  "builder_setActions actions b = b\<lparr>m_actions := hs_add_all actions (m_actions b)\<rparr>"

record iteration_orders =
  node_order :: "nat iteration_order"
  action_order :: "u64 iteration_order"

definition update_node :: "nat \<Rightarrow> (ImmutableNFANode \<Rightarrow> ImmutableNFANode) \<Rightarrow> NFA \<Rightarrow> NFA" where
  "update_node i f nfa = nfa\<lparr>nfa_nodes := (nfa_nodes nfa)[i := f (nfa_nodes nfa ! i)]\<rparr>"

definition sinkActions :: "iteration_orders \<Rightarrow> NFANodeBuilder \<Rightarrow> NFA \<Rightarrow> NFA" where
  "sinkActions ho b nfa =
     (let start = length (nfa_actions nfa);
          nfa1 = nfa\<lparr>nfa_actions := nfa_actions nfa @ action_order ho (m_actions b)\<rparr>
      in update_node (m_nodeId b)
           (\<lambda>node. node\<lparr>actionStart := start, actionEnd := length (nfa_actions nfa1)\<rparr>) nfa1)"

definition sinkEpsilonTransitions :: "iteration_orders \<Rightarrow> NFANodeBuilder \<Rightarrow> NFA \<Rightarrow> NFA" where
  "sinkEpsilonTransitions ho b nfa =
     (let start = length (epsilonTransitionsTargets nfa);
          nfa1 = nfa\<lparr>epsilonTransitionsTargets :=
                       epsilonTransitionsTargets nfa @ node_order ho (m_epsilonTransitionTargets b)\<rparr>
      in update_node (m_nodeId b)
           (\<lambda>node. node\<lparr>epsilonTransitionTargetsStart := start,
                         epsilonTransitionTargetsEnd := length (epsilonTransitionsTargets nfa1)\<rparr>) nfa1)"

definition sinkRange :: "iteration_orders \<Rightarrow> TargetSet item \<Rightarrow> NFA \<Rightarrow> NFA" where
  "sinkRange ho r nfa =
     (case r of (f, l, ts) \<Rightarrow>
        let start = length (nfa_targets nfa);
            targets = nfa_targets nfa @ node_order ho ts
        in nfa\<lparr>nfa_targets := targets,
               nfa_transitions := nfa_transitions nfa
                 @ [\<lparr>targetStart = start, targetEnd = length targets, nr_first = f, nr_last = l\<rparr>]\<rparr>)"

definition sinkTransitions :: "iteration_orders \<Rightarrow> NFANodeBuilder \<Rightarrow> NFA \<Rightarrow> NFA" where
  "sinkTransitions ho b nfa =
     (let start = length (nfa_transitions nfa);
          nfa1 = fold (sinkRange ho) (rangeList_items (m_ranges b)) nfa
      in update_node (m_nodeId b)
           (\<lambda>node. node\<lparr>rangesStart := start, rangesEnd := length (nfa_transitions nfa1)\<rparr>) nfa1)"

definition finalize :: "iteration_orders \<Rightarrow> NFANodeBuilder \<Rightarrow> NFA \<Rightarrow> NFA" where
  "finalize ho b nfa = sinkTransitions ho b (sinkEpsilonTransitions ho b (sinkActions ho b nfa))"

section \<open>A graph as sets of edges\<close>

definition orders_ok :: "iteration_orders \<Rightarrow> bool" where
  "orders_ok ho \<longleftrightarrow> enumerates (node_order ho) \<and> enumerates (action_order ho)"

definition nfa_edges :: "NFA \<Rightarrow> nat \<Rightarrow> int \<Rightarrow> nat set" where
  "nfa_edges nfa q c = targets_at set (transitionsForNode nfa q) c"

definition nfa_eps :: "NFA \<Rightarrow> nat \<Rightarrow> nat set" where
  "nfa_eps nfa q = set (epsilonTargets nfa q)"

definition nfa_acts :: "NFA \<Rightarrow> nat \<Rightarrow> u64 set" where
  "nfa_acts nfa q = set (actionsForNode nfa q)"

definition wf_nfa_node :: "NFA \<Rightarrow> nat \<Rightarrow> bool" where
  "wf_nfa_node nfa q \<longleftrightarrow>
     (let node = nfa_nodes nfa ! q
      in rangesStart node \<le> rangesEnd node \<and> rangesEnd node \<le> length (nfa_transitions nfa) \<and>
         epsilonTransitionTargetsStart node \<le> epsilonTransitionTargetsEnd node \<and>
         epsilonTransitionTargetsEnd node \<le> length (epsilonTransitionsTargets nfa) \<and>
         actionStart node \<le> actionEnd node \<and> actionEnd node \<le> length (nfa_actions nfa) \<and>
         items_from 0 (transitionsForNode nfa q) \<and>
         list_all (\<lambda>(f, l, ts). ts \<noteq> [] \<and> distinct ts \<and> list_all (\<lambda>t. t < length (nfa_nodes nfa)) ts) (transitionsForNode nfa q) \<and>
         list_all (\<lambda>t. t < length (nfa_nodes nfa)) (epsilonTargets nfa q))"

definition wf_nfa :: "NFA \<Rightarrow> bool" where
  "wf_nfa nfa \<longleftrightarrow> list_all (\<lambda>r. targetStart r \<le> targetEnd r \<and> targetEnd r \<le> length (nfa_targets nfa)) (nfa_transitions nfa) \<and>
     list_all (wf_nfa_node nfa) [0 ..< length (nfa_nodes nfa)]"

text \<open>The edges that a builder holds.\<close>

definition builder_edges :: "NFANodeBuilder \<Rightarrow> int \<Rightarrow> nat set" where
  "builder_edges b c = targets_at set (rangeList_items (m_ranges b)) c"

definition wf_builder :: "NFANodeBuilder \<Rightarrow> bool" where
  "wf_builder b \<longleftrightarrow> range_list (m_ranges b) \<and> (\<forall>(f, l, ts) \<in> set (rangeList_items (m_ranges b)). ts \<noteq> [] \<and> distinct ts) \<and>
     distinct (m_epsilonTransitionTargets b) \<and> distinct (m_actions b)"

lemma slice_append [simp]: "b \<le> length xs \<Longrightarrow> slice a b (xs @ ys) = slice a b xs"
  by (simp add: slice_def)

lemma slice_end [simp]: "slice (length xs) (length xs + n) (xs @ ys) = take n ys"
  by (simp add: slice_def)

interpretation target_set: range_data_converter targetSet_convert targetSet_extend
  "\<lambda>ts. ts \<noteq> [] \<and> distinct ts" "\<lambda>ts. ts \<noteq> [] \<and> distinct ts" "\<lambda>_. True" set "\<lambda>t. {t}"
  by unfold_locales (auto simp: targetSet_convert_def targetSet_extend_def hs_add_def)

lemma addTransition_edges:
  assumes "wf_builder b" and "0 \<le> f" and "f \<le> l" and "l < 128"
  shows "\<exists>b'. addTransition f l q b = Some b' \<and> wf_builder b' \<and> m_nodeId b' = m_nodeId b \<and>
    m_actions b' = m_actions b \<and> m_epsilonTransitionTargets b' = m_epsilonTransitionTargets b \<and>
    (\<forall>c. builder_edges b' c = builder_edges b c \<union> (if f \<le> c \<and> c \<le> l then {q} else {}))"
proof -
  have "items_from 0 [(f, l, q)]" using assms by simp
  then obtain rs where rs: "extendRanges targetSet_convert targetSet_extend [(f, l, q)] (m_ranges b) = Some rs"
    "range_list rs" "\<forall>(f, l, d) \<in> set (rangeList_items rs). d \<noteq> [] \<and> distinct d"
    "\<And>c. targets_at set (rangeList_items rs) c =
      targets_at set (rangeList_items (m_ranges b)) c \<union> targets_at (\<lambda>t. {t}) [(f, l, q)] c"
    using target_set.extend_targets [of "m_ranges b" "[(f, l, q)]"] assms(1) by (auto simp: wf_builder_def)
  then show ?thesis
    using assms(1) by (auto simp: addTransition_def wf_builder_def builder_edges_def targets_at_def)
qed

section \<open>Finalizing a builder\<close>

definition wf_range :: "NFA \<Rightarrow> ImmutableRange \<Rightarrow> bool" where
  "wf_range nfa r \<longleftrightarrow> targetStart r \<le> targetEnd r \<and> targetEnd r \<le> length (nfa_targets nfa)"

lemma sinkRanges:
  obtains xs ys where
    "fold (sinkRange ho) rs nfa = nfa\<lparr>nfa_transitions := nfa_transitions nfa @ xs, nfa_targets := nfa_targets nfa @ ys\<rparr>"
    "list_all (wf_range (fold (sinkRange ho) rs nfa)) xs"
    "map (range_targets (fold (sinkRange ho) rs nfa)) xs = map (\<lambda>(f, l, ts). (f, l, node_order ho ts)) rs"
proof (induction rs arbitrary: nfa thesis)
  case Nil
  show ?case by (rule Nil [where xs = "[]" and ys = "[]"]) simp_all
next
  case (Cons r rs)
  obtain f l ts where r: "r = (f, l, ts)" using prod_cases3 .
  let ?n = "sinkRange ho r nfa"
  let ?R = "\<lparr>targetStart = length (nfa_targets nfa), targetEnd = length (nfa_targets nfa @ node_order ho ts),
    nr_first = f, nr_last = l\<rparr>"
  have n: "?n = nfa\<lparr>nfa_targets := nfa_targets nfa @ node_order ho ts, nfa_transitions := nfa_transitions nfa @ [?R]\<rparr>"
    by (simp add: sinkRange_def r Let_def)
  obtain xs ys where I: "fold (sinkRange ho) rs ?n =
      ?n\<lparr>nfa_transitions := nfa_transitions ?n @ xs, nfa_targets := nfa_targets ?n @ ys\<rparr>"
    "list_all (wf_range (fold (sinkRange ho) rs ?n)) xs"
    "map (range_targets (fold (sinkRange ho) rs ?n)) xs = map (\<lambda>(f, l, ts). (f, l, node_order ho ts)) rs"
    using Cons.IH [of ?n] by blast
  show ?case
  proof (rule Cons.prems [where xs = "?R # xs" and ys = "node_order ho ts @ ys"])
    show "fold (sinkRange ho) (r # rs) nfa = nfa\<lparr>nfa_transitions := nfa_transitions nfa @ ?R # xs,
        nfa_targets := nfa_targets nfa @ node_order ho ts @ ys\<rparr>"
      using I(1) n by simp
    have t: "nfa_targets (fold (sinkRange ho) rs ?n) = nfa_targets nfa @ node_order ho ts @ ys"
      using I(1) n by simp
    show "list_all (wf_range (fold (sinkRange ho) (r # rs) nfa)) (?R # xs)"
      using I(2) t by (simp add: wf_range_def)
    show "map (range_targets (fold (sinkRange ho) (r # rs) nfa)) (?R # xs) =
        map (\<lambda>(f, l, ts). (f, l, node_order ho ts)) (r # rs)"
      using I(3) t by (simp add: range_targets_def r slice_def)
  qed
qed

lemma wf_nfa_node_bounds:
  assumes "wf_nfa_node nfa q"
  shows "rangesEnd (nfa_nodes nfa ! q) \<le> length (nfa_transitions nfa)"
    "epsilonTransitionTargetsEnd (nfa_nodes nfa ! q) \<le> length (epsilonTransitionsTargets nfa)"
    "actionEnd (nfa_nodes nfa ! q) \<le> length (nfa_actions nfa)"
  using assms by (auto simp: wf_nfa_node_def Let_def)

lemma slice_subset: "set (slice a b xs) \<subseteq> set xs"
  unfolding slice_def using set_take_subset set_drop_subset by fastforce

text \<open>What finalizing does: the node of the builder has what the builder holds, every other node is as
  before.\<close>

lemma finalize_nodes:
  assumes ranges: "list_all (wf_range nfa) (nfa_transitions nfa)" and p: "m_nodeId b < length (nfa_nodes nfa)"
  shows "length (nfa_nodes (finalize ho b nfa)) = length (nfa_nodes nfa)"
    and "list_all (wf_range (finalize ho b nfa)) (nfa_transitions (finalize ho b nfa))"
    and "transitionsForNode (finalize ho b nfa) (m_nodeId b) =
      map (\<lambda>(f, l, ts). (f, l, node_order ho ts)) (rangeList_items (m_ranges b))"
    and "epsilonTargets (finalize ho b nfa) (m_nodeId b) = node_order ho (m_epsilonTransitionTargets b)"
    and "actionsForNode (finalize ho b nfa) (m_nodeId b) = action_order ho (m_actions b)"
    and "wf_nfa_node (finalize ho b nfa) (m_nodeId b) \<longleftrightarrow>
      items_from 0 (transitionsForNode (finalize ho b nfa) (m_nodeId b)) \<and>
      list_all (\<lambda>(f, l, ts). ts \<noteq> [] \<and> distinct ts \<and> list_all (\<lambda>t. t < length (nfa_nodes nfa)) ts)
        (transitionsForNode (finalize ho b nfa) (m_nodeId b)) \<and>
      list_all (\<lambda>t. t < length (nfa_nodes nfa)) (epsilonTargets (finalize ho b nfa) (m_nodeId b))"
    and "q \<noteq> m_nodeId b \<Longrightarrow> wf_nfa_node nfa q \<Longrightarrow>
      transitionsForNode (finalize ho b nfa) q = transitionsForNode nfa q \<and>
      epsilonTargets (finalize ho b nfa) q = epsilonTargets nfa q \<and>
      actionsForNode (finalize ho b nfa) q = actionsForNode nfa q \<and> wf_nfa_node (finalize ho b nfa) q"
proof -
  let ?n = "sinkEpsilonTransitions ho b (sinkActions ho b nfa)"
  have n: "nfa_transitions ?n = nfa_transitions nfa" "nfa_targets ?n = nfa_targets nfa"
    "epsilonTransitionsTargets ?n = epsilonTransitionsTargets nfa @ node_order ho (m_epsilonTransitionTargets b)"
    "nfa_actions ?n = nfa_actions nfa @ action_order ho (m_actions b)" "length (nfa_nodes ?n) = length (nfa_nodes nfa)"
    by (simp_all add: sinkEpsilonTransitions_def sinkActions_def Let_def update_node_def)
  obtain xs ys where F: "fold (sinkRange ho) (rangeList_items (m_ranges b)) ?n =
      ?n\<lparr>nfa_transitions := nfa_transitions ?n @ xs, nfa_targets := nfa_targets ?n @ ys\<rparr>"
    "list_all (wf_range (fold (sinkRange ho) (rangeList_items (m_ranges b)) ?n)) xs"
    "map (range_targets (fold (sinkRange ho) (rangeList_items (m_ranges b)) ?n)) xs =
      map (\<lambda>(f, l, ts). (f, l, node_order ho ts)) (rangeList_items (m_ranges b))"
    by (rule sinkRanges)
  let ?f = "finalize ho b nfa"
  have t: "nfa_transitions ?f = nfa_transitions nfa @ xs" "nfa_targets ?f = nfa_targets nfa @ ys"
    "epsilonTransitionsTargets ?f = epsilonTransitionsTargets nfa @ node_order ho (m_epsilonTransitionTargets b)"
    "nfa_actions ?f = nfa_actions nfa @ action_order ho (m_actions b)"
    by (simp_all add: finalize_def sinkTransitions_def Let_def update_node_def F(1) n)
  have nodes: "nfa_nodes ?f = (nfa_nodes ?n)[m_nodeId b := (nfa_nodes ?n ! m_nodeId b)
      \<lparr>rangesStart := length (nfa_transitions nfa), rangesEnd := length (nfa_transitions nfa) + length xs\<rparr>]"
    by (simp add: finalize_def sinkTransitions_def Let_def update_node_def F(1) n)
  have other: "nfa_nodes ?f ! q = nfa_nodes nfa ! q" if "q \<noteq> m_nodeId b" for q
    using that by (simp add: nodes sinkEpsilonTransitions_def sinkActions_def Let_def update_node_def)
  have node: "nfa_nodes ?f ! m_nodeId b =
      \<lparr>rangesStart = length (nfa_transitions nfa), rangesEnd = length (nfa_transitions nfa) + length xs,
       epsilonTransitionTargetsStart = length (epsilonTransitionsTargets nfa),
       epsilonTransitionTargetsEnd = length (epsilonTransitionsTargets nfa) + length (node_order ho (m_epsilonTransitionTargets b)),
       actionStart = length (nfa_actions nfa), actionEnd = length (nfa_actions nfa) + length (action_order ho (m_actions b))\<rparr>"
    using p by (simp add: nodes sinkEpsilonTransitions_def sinkActions_def Let_def update_node_def)
  show len: "length (nfa_nodes ?f) = length (nfa_nodes nfa)"
    by (simp add: finalize_def sinkTransitions_def Let_def update_node_def F(1) n)
  have wr: "wf_range (fold (sinkRange ho) (rangeList_items (m_ranges b)) ?n) = wf_range ?f"
    "range_targets (fold (sinkRange ho) (rangeList_items (m_ranges b)) ?n) = range_targets ?f"
    by (simp_all add: wf_range_def range_targets_def fun_eq_iff F(1) n t)
  have old: "wf_range ?f r" "range_targets ?f r = range_targets nfa r" if "wf_range nfa r" for r
    using that t(2) by (simp_all add: wf_range_def range_targets_def)
  show "list_all (wf_range ?f) (nfa_transitions ?f)"
    using F(2) wr old(1) ranges by (auto simp: t(1) list_all_iff)
  show tr: "transitionsForNode ?f (m_nodeId b) = map (\<lambda>(f, l, ts). (f, l, node_order ho ts)) (rangeList_items (m_ranges b))"
    using F(3) wr(2) by (simp add: transitionsForNode_def Let_def node t(1))
  show "epsilonTargets ?f (m_nodeId b) = node_order ho (m_epsilonTransitionTargets b)"
    "actionsForNode ?f (m_nodeId b) = action_order ho (m_actions b)"
    by (simp_all add: epsilonTargets_def actionsForNode_def Let_def node t(3,4))
  show "wf_nfa_node ?f (m_nodeId b) \<longleftrightarrow> items_from 0 (transitionsForNode ?f (m_nodeId b)) \<and>
      list_all (\<lambda>(f, l, ts). ts \<noteq> [] \<and> distinct ts \<and> list_all (\<lambda>t. t < length (nfa_nodes nfa)) ts) (transitionsForNode ?f (m_nodeId b)) \<and>
      list_all (\<lambda>t. t < length (nfa_nodes nfa)) (epsilonTargets ?f (m_nodeId b))"
    by (simp add: wf_nfa_node_def Let_def node t len)
  assume q: "q \<noteq> m_nodeId b" "wf_nfa_node nfa q"
  have "map (range_targets ?f) (slice a b (nfa_transitions nfa)) = map (range_targets nfa) (slice a b (nfa_transitions nfa))" for a b
    using old(2) ranges slice_subset [of a b "nfa_transitions nfa"] by (auto simp: list_all_iff)
  then have "transitionsForNode ?f q = transitionsForNode nfa q \<and> epsilonTargets ?f q = epsilonTargets nfa q \<and>
      actionsForNode ?f q = actionsForNode nfa q"
    using wf_nfa_node_bounds [OF q(2)]
    by (simp add: transitionsForNode_def epsilonTargets_def actionsForNode_def Let_def other [OF q(1)] t)
  moreover from this q(2) have "wf_nfa_node ?f q"
    by (simp add: wf_nfa_node_def Let_def other [OF q(1)] t len)
  ultimately show "transitionsForNode ?f q = transitionsForNode nfa q \<and> epsilonTargets ?f q = epsilonTargets nfa q \<and>
      actionsForNode ?f q = actionsForNode nfa q \<and> wf_nfa_node ?f q" by simp
qed

text \<open>The same on sets of edges.\<close>

definition builder_in :: "NFANodeBuilder \<Rightarrow> nat \<Rightarrow> bool" where
  "builder_in b k \<longleftrightarrow> (\<forall>c. builder_edges b c \<subseteq> {..< k}) \<and> set (m_epsilonTransitionTargets b) \<subseteq> {..< k}"

lemma wf_nfa_iff: "wf_nfa nfa \<longleftrightarrow> list_all (wf_range nfa) (nfa_transitions nfa) \<and> (\<forall>q < length (nfa_nodes nfa). wf_nfa_node nfa q)"
  by (auto simp: wf_nfa_def wf_range_def list_all_iff)

lemma item_lookup_map:
  "item_lookup (map (\<lambda>(f, l, d). (f, l, g d)) xs) c = map_option g (item_lookup xs c)"
  by (induction xs c rule: item_lookup.induct) auto

lemma items_from_map: "items_from lo (map (\<lambda>(f, l, d). (f, l, g d)) xs) = items_from lo xs"
  by (induction lo xs rule: items_from.induct) auto

lemma wf_builder_lookup:
  assumes "wf_builder b" and "item_lookup (rangeList_items (m_ranges b)) c = Some ts"
  shows "ts \<noteq> []" "distinct ts"
  using assms item_data_lookup [OF range_list_sorted, of "m_ranges b" "\<lambda>ts. ts \<noteq> [] \<and> distinct ts"] by (auto simp: wf_builder_def)

lemma finalize_edges:
  assumes ho: "orders_ok ho" and wf: "wf_nfa nfa" and b: "wf_builder b" and p: "m_nodeId b < length (nfa_nodes nfa)"
    and k: "builder_in b (length (nfa_nodes nfa))"
  shows "wf_nfa (finalize ho b nfa)"
    and "length (nfa_nodes (finalize ho b nfa)) = length (nfa_nodes nfa)"
    and "q < length (nfa_nodes nfa) \<Longrightarrow> nfa_edges (finalize ho b nfa) q c =
      (if q = m_nodeId b then builder_edges b c else nfa_edges nfa q c)"
    and "q < length (nfa_nodes nfa) \<Longrightarrow> nfa_eps (finalize ho b nfa) q =
      (if q = m_nodeId b then set (m_epsilonTransitionTargets b) else nfa_eps nfa q)"
    and "q < length (nfa_nodes nfa) \<Longrightarrow> nfa_acts (finalize ho b nfa) q =
      (if q = m_nodeId b then set (m_actions b) else nfa_acts nfa q)"
proof -
  have ranges: "list_all (wf_range nfa) (nfa_transitions nfa)" using wf by (simp add: wf_nfa_iff)
  note F = finalize_nodes [OF ranges p, where ho = ho]
  have ord: "distinct s \<Longrightarrow> set (node_order ho s) = set s" "distinct s \<Longrightarrow> distinct (node_order ho s)"
    "distinct s' \<Longrightarrow> set (action_order ho s') = set s'" for s s'
    using ho enumerates_set enumerates_distinct by (auto simp: orders_ok_def)
  show len: "length (nfa_nodes (finalize ho b nfa)) = length (nfa_nodes nfa)" by (rule F(1))
  have same: "transitionsForNode (finalize ho b nfa) q = transitionsForNode nfa q"
    "epsilonTargets (finalize ho b nfa) q = epsilonTargets nfa q"
    "actionsForNode (finalize ho b nfa) q = actionsForNode nfa q" "wf_nfa_node (finalize ho b nfa) q"
    if "q < length (nfa_nodes nfa)" "q \<noteq> m_nodeId b" for q
    using F(7) that wf by (auto simp: wf_nfa_iff)
  have e: "targets_at set (transitionsForNode (finalize ho b nfa) (m_nodeId b)) c = builder_edges b c" for c
    using wf_builder_lookup [OF b] ord(1)
    by (auto simp: F(3) targets_at_def item_lookup_map builder_edges_def split: option.split)
  show "q < length (nfa_nodes nfa) \<Longrightarrow> nfa_edges (finalize ho b nfa) q c =
      (if q = m_nodeId b then builder_edges b c else nfa_edges nfa q c)"
    using same(1) e by (simp add: nfa_edges_def)
  show "q < length (nfa_nodes nfa) \<Longrightarrow> nfa_eps (finalize ho b nfa) q =
      (if q = m_nodeId b then set (m_epsilonTransitionTargets b) else nfa_eps nfa q)"
    using same(2) b ord(1) by (simp add: nfa_eps_def F(4) wf_builder_def)
  show "q < length (nfa_nodes nfa) \<Longrightarrow> nfa_acts (finalize ho b nfa) q =
      (if q = m_nodeId b then set (m_actions b) else nfa_acts nfa q)"
    using same(3) b ord(3) by (simp add: nfa_acts_def F(5) wf_builder_def)
  have srt: "items_from 0 (transitionsForNode (finalize ho b nfa) (m_nodeId b))"
    using b by (simp add: F(3) items_from_map wf_builder_def range_list_sorted)
  have "\<forall>(f, l, ts) \<in> set (transitionsForNode (finalize ho b nfa) (m_nodeId b)).
      ts \<noteq> [] \<and> distinct ts \<and> list_all (\<lambda>t. t < length (nfa_nodes nfa)) ts"
    unfolding item_data_lookup [OF srt]
  proof (intro allI impI)
    fix c ts
    assume l: "item_lookup (transitionsForNode (finalize ho b nfa) (m_nodeId b)) c = Some ts"
    then have "set ts \<subseteq> {..< length (nfa_nodes nfa)}" using e [of c] k by (auto simp: targets_at_def builder_in_def)
    moreover obtain ts0 where l0: "item_lookup (rangeList_items (m_ranges b)) c = Some ts0" and ts0: "ts = node_order ho ts0"
      using l by (auto simp: F(3) item_lookup_map)
    note w0 = wf_builder_lookup [OF b l0]
    moreover have "ts \<noteq> []" using ord(1) [OF w0(2)] ts0 w0(1) by auto
    ultimately show "ts \<noteq> [] \<and> distinct ts \<and> list_all (\<lambda>t. t < length (nfa_nodes nfa)) ts" using ord(2) [OF w0(2)] ts0 by (auto simp: list_all_iff)
  qed
  moreover have "list_all (\<lambda>t. t < length (nfa_nodes nfa)) (epsilonTargets (finalize ho b nfa) (m_nodeId b))"
    using b k ord(1) by (auto simp: F(4) wf_builder_def builder_in_def list_all_iff)
  ultimately have "wf_nfa_node (finalize ho b nfa) (m_nodeId b)"
    using srt unfolding F(6) by (simp add: list_all_iff)
  then show "wf_nfa (finalize ho b nfa)" using same(4) F(2) len unfolding wf_nfa_iff by metis
qed

lemma newBuilder_edges:
  assumes "newBuilder nfa = (b, nfa')" and "wf_nfa nfa"
  shows "wf_nfa nfa'" "wf_builder b" "m_nodeId b = length (nfa_nodes nfa)" "length (nfa_nodes nfa') = Suc (length (nfa_nodes nfa))"
    "builder_edges b c = {}" "m_epsilonTransitionTargets b = []" "m_actions b = []"
    "q < length (nfa_nodes nfa) \<Longrightarrow> nfa_edges nfa' q c = nfa_edges nfa q c \<and> nfa_eps nfa' q = nfa_eps nfa q \<and>
      nfa_acts nfa' q = nfa_acts nfa q"
proof -
  have n: "nfa' = nfa\<lparr>nfa_nodes := nfa_nodes nfa @ [ImmutableNFANode_default]\<rparr>"
    and b: "b = \<lparr>m_ranges = [], m_epsilonTransitionTargets = [], m_actions = [], m_nodeId = length (nfa_nodes nfa)\<rparr>"
    using assms(1) by (auto simp: newBuilder_def)
  have same: "transitionsForNode nfa' q = transitionsForNode nfa q \<and> epsilonTargets nfa' q = epsilonTargets nfa q \<and>
      actionsForNode nfa' q = actionsForNode nfa q" if "q < length (nfa_nodes nfa)" for q
    using that by (simp add: transitionsForNode_def epsilonTargets_def actionsForNode_def n nth_append range_targets_def [abs_def])
  show "m_nodeId b = length (nfa_nodes nfa)" "length (nfa_nodes nfa') = Suc (length (nfa_nodes nfa))"
    "builder_edges b c = {}" "m_epsilonTransitionTargets b = []" "m_actions b = []" "wf_builder b"
    by (simp_all add: n b builder_edges_def targets_at_def wf_builder_def)
  show "q < length (nfa_nodes nfa) \<Longrightarrow> nfa_edges nfa' q c = nfa_edges nfa q c \<and> nfa_eps nfa' q = nfa_eps nfa q \<and>
      nfa_acts nfa' q = nfa_acts nfa q"
    using same by (simp add: nfa_edges_def nfa_eps_def nfa_acts_def)
  have "wf_nfa_node nfa' q" if "q < Suc (length (nfa_nodes nfa))" for q
  proof (cases "q = length (nfa_nodes nfa)")
    case True
    then show ?thesis
      by (simp add: wf_nfa_node_def n transitionsForNode_def epsilonTargets_def slice_def ImmutableNFANode_default_def)
  next
    case False
    then have q: "q < length (nfa_nodes nfa)" using that by simp
    then have "wf_nfa_node nfa q" using assms(2) by (simp add: wf_nfa_iff)
    then show ?thesis using same [OF q] q
      by (fastforce simp: wf_nfa_node_def Let_def n nth_append list_all_iff intro: less_SucI)
  qed
  then show "wf_nfa nfa'" using assms(2) by (auto simp: wf_nfa_iff n wf_range_def list_all_iff)
qed

end
