(* ===== verification/Term.thy ===== *)
theory Term
  imports Bit_Count Nfa
begin

text \<open>
  \<open>Term.h\<close>: the terms of a URL filter, a character set or a group of terms with a quantifier, their
  predicates, and the generation of the graph of a term. Builders are passed by reference in the code;
  here the changed builder is returned. A builder that goes out of scope is finalized where its
  destructor runs.
\<close>

unbundle bit_operations_syntax

section \<open>Character sets\<close>

record CharacterSet =
  m_inverted :: bool
  m_characters0 :: u64
  m_characters1 :: u64

definition CharacterSet_default :: CharacterSet where
  "CharacterSet_default = \<lparr>m_inverted = False, m_characters0 = 0, m_characters1 = 0\<rparr>"

definition charset_set :: "nat \<Rightarrow> CharacterSet \<Rightarrow> CharacterSet option" where
  "charset_set c s =
     (if c < 128
      then Some (if c div 64 = 0
                 then s\<lparr>m_characters0 := m_characters0 s OR push_bit (c mod 64) 1\<rparr>
                 else s\<lparr>m_characters1 := m_characters1 s OR push_bit (c mod 64) 1\<rparr>)
      else None)"

definition charset_get :: "nat \<Rightarrow> CharacterSet \<Rightarrow> bool option" where
  "charset_get c s =
     (if c < 128
      then Some ((if c div 64 = 0 then m_characters0 s else m_characters1 s) AND push_bit (c mod 64) 1 \<noteq> 0)
      else None)"

definition charset_invert :: "CharacterSet \<Rightarrow> CharacterSet" where
  "charset_invert s = s\<lparr>m_inverted := True\<rparr>"

definition charset_bitCount :: "CharacterSet \<Rightarrow> nat" where
  "charset_bitCount s = bitCount64 (m_characters0 s) + bitCount64 (m_characters1 s)"

section \<open>Terms\<close>

datatype AtomQuantifier = One | ZeroOrOne | ZeroOrMore | OneOrMore

datatype Term =
  EmptyTerm AtomQuantifier
| CharacterSetTerm CharacterSet AtomQuantifier
| GroupTerm "Term list" AtomQuantifier

fun m_quantifier :: "Term \<Rightarrow> AtomQuantifier" where
  "m_quantifier (EmptyTerm q) = q"
| "m_quantifier (CharacterSetTerm s q) = q"
| "m_quantifier (GroupTerm ts q) = q"

fun isValid :: "Term \<Rightarrow> bool" where
  "isValid (EmptyTerm q) = False"
| "isValid _ = True"

fun addCharacter :: "nat \<Rightarrow> bool \<Rightarrow> Term \<Rightarrow> Term option" where
  "addCharacter c isCaseSensitive (CharacterSetTerm s q) =
     (if isCaseSensitive \<or> \<not> isASCIIAlpha c
      then do { s1 \<leftarrow> charset_set c s; Some (CharacterSetTerm s1 q) }
      else do {
        s1 \<leftarrow> charset_set (toASCIIUpper c) s;
        s2 \<leftarrow> charset_set (toASCIILower c) s1;
        Some (CharacterSetTerm s2 q)
      })"
| "addCharacter c isCaseSensitive t = Some t"

definition Term_default :: Term where
  "Term_default = EmptyTerm One"

definition Term_CharacterSet :: "bool \<Rightarrow> Term" where
  "Term_CharacterSet isInverted =
     CharacterSetTerm (if isInverted then charset_invert CharacterSet_default else CharacterSet_default) One"

definition Term_character :: "nat \<Rightarrow> bool \<Rightarrow> Term option" where
  "Term_character c isCaseSensitive = addCharacter c isCaseSensitive (CharacterSetTerm CharacterSet_default One)"

fun charset_set_all :: "nat list \<Rightarrow> CharacterSet \<Rightarrow> CharacterSet option" where
  "charset_set_all [] s = Some s"
| "charset_set_all (c # cs) s = do { s1 \<leftarrow> charset_set c s; charset_set_all cs s1 }"

definition Term_UniversalTransition :: "Term option" where
  "Term_UniversalTransition = do { s \<leftarrow> charset_set_all [1 ..< 128] CharacterSet_default; Some (CharacterSetTerm s One) }"

definition Term_Group :: Term where
  "Term_Group = GroupTerm [] One"

definition Term_EndOfLineAssertion :: "Term option" where
  "Term_EndOfLineAssertion = do { s \<leftarrow> charset_set 0 CharacterSet_default; Some (CharacterSetTerm s One) }"

fun extendGroupSubpattern :: "Term \<Rightarrow> Term \<Rightarrow> Term" where
  "extendGroupSubpattern t (GroupTerm ts q) = GroupTerm (ts @ [t]) q"
| "extendGroupSubpattern t g = g"

fun quantify :: "AtomQuantifier \<Rightarrow> Term \<Rightarrow> Term" where
  "quantify q (EmptyTerm _) = EmptyTerm q"
| "quantify q (CharacterSetTerm s _) = CharacterSetTerm s q"
| "quantify q (GroupTerm ts _) = GroupTerm ts q"

fun isEndOfLineAssertion :: "Term \<Rightarrow> bool" where
  "isEndOfLineAssertion (CharacterSetTerm s q) = (charset_bitCount s = 1 \<and> charset_get 0 s = Some True)"
| "isEndOfLineAssertion _ = False"

fun matchesAtLeastOneCharacter :: "Term \<Rightarrow> bool" where
  "matchesAtLeastOneCharacter (EmptyTerm q) = (\<not> (q = ZeroOrOne \<or> q = ZeroOrMore))"
| "matchesAtLeastOneCharacter (CharacterSetTerm s q) =
     (\<not> (q = ZeroOrOne \<or> q = ZeroOrMore) \<and> \<not> isEndOfLineAssertion (CharacterSetTerm s q))"
| "matchesAtLeastOneCharacter (GroupTerm ts q) =
     (\<not> (q = ZeroOrOne \<or> q = ZeroOrMore) \<and> list_ex matchesAtLeastOneCharacter ts)"

fun isUniversalTransition :: "Term \<Rightarrow> bool" where
  "isUniversalTransition (EmptyTerm q) = False"
| "isUniversalTransition (CharacterSetTerm s q) =
     (m_inverted s \<and> charset_bitCount s = 0
      \<or> \<not> m_inverted s \<and> charset_bitCount s = 127 \<and> \<not> charset_get 0 s = Some True)"
| "isUniversalTransition (GroupTerm [t] q) = isUniversalTransition t"
| "isUniversalTransition (GroupTerm _ q) = False"

fun isKnownToMatchAnyString :: "Term \<Rightarrow> bool" where
  "isKnownToMatchAnyString (EmptyTerm q) = False"
| "isKnownToMatchAnyString (CharacterSetTerm s q) =
     (isUniversalTransition (CharacterSetTerm s q) \<and> q = ZeroOrMore)"
| "isKnownToMatchAnyString (GroupTerm [t] q) =
     (if isKnownToMatchAnyString t then True
      else if isUniversalTransition t
      then (if q = ZeroOrMore then True
            else if q = ZeroOrOne \<and> m_quantifier t = OneOrMore then True
            else if q = OneOrMore \<and> m_quantifier t = ZeroOrOne then True
            else False)
      else False)"
| "isKnownToMatchAnyString (GroupTerm _ q) = False"

fun hasFixedLength :: "Term \<Rightarrow> bool" where
  "hasFixedLength (EmptyTerm q) = False"
| "hasFixedLength (CharacterSetTerm s q) = (q = One)"
| "hasFixedLength (GroupTerm ts q) = (if q \<noteq> One then False else list_all hasFixedLength ts)"

text \<open>\<open>operator==\<close>.\<close>

definition charset_eq :: "CharacterSet \<Rightarrow> CharacterSet \<Rightarrow> bool" where
  "charset_eq s t \<longleftrightarrow> m_inverted t = m_inverted s \<and> m_characters0 t = m_characters0 s \<and> m_characters1 t = m_characters1 s"

fun term_eq :: "Term \<Rightarrow> Term \<Rightarrow> bool" where
  "term_eq (EmptyTerm p) (EmptyTerm q) = (p = q)"
| "term_eq (CharacterSetTerm s p) (CharacterSetTerm t q) = (p = q \<and> charset_eq s t)"
| "term_eq (GroupTerm ss p) (GroupTerm ts q) = (p = q \<and> list_all2 term_eq ss ts)"
| "term_eq _ _ = False"

section \<open>The language of a term\<close>

text \<open>Words are lists of characters; character 0 is the end of the line.\<close>

type_synonym lang = "nat list set"

inductive_set star :: "lang \<Rightarrow> lang" for L where
  star_Nil: "[] \<in> star L"
| star_append: "u \<in> L \<Longrightarrow> v \<in> star L \<Longrightarrow> u @ v \<in> star L"

definition conc :: "lang \<Rightarrow> lang \<Rightarrow> lang" where
  "conc K L = {u @ v | u v. u \<in> K \<and> v \<in> L}"

fun quantified :: "AtomQuantifier \<Rightarrow> lang \<Rightarrow> lang" where
  "quantified One L = L"
| "quantified ZeroOrOne L = insert [] L"
| "quantified ZeroOrMore L = star L"
| "quantified OneOrMore L = conc L (star L)"

definition charset_has :: "CharacterSet \<Rightarrow> nat \<Rightarrow> bool" where
  "charset_has s c \<longleftrightarrow>
     (if m_inverted s then 0 < c \<and> charset_get c s = Some False else charset_get c s = Some True)"

fun atom_lang :: "Term \<Rightarrow> lang" where
  "atom_lang (EmptyTerm q) = {[]}"
| "atom_lang (CharacterSetTerm s q) = {[c] | c. charset_has s c}"
| "atom_lang (GroupTerm ts q) = foldr conc (map (\<lambda>t. quantified (m_quantifier t) (atom_lang t)) ts) {[]}"

definition term_lang :: "Term \<Rightarrow> lang" where
  "term_lang t = quantified (m_quantifier t) (atom_lang t)"

definition terms_lang :: "Term list \<Rightarrow> lang" where
  "terms_lang ts = foldr conc (map term_lang ts) {[]}"

lemma atom_lang_Group [simp]: "atom_lang (GroupTerm ts q) = terms_lang ts"
  by (simp add: terms_lang_def term_lang_def [abs_def])

declare atom_lang.simps(3) [simp del]

lemma terms_lang_simps [simp]: "terms_lang [] = {[]}" "terms_lang (t # ts) = conc (term_lang t) (terms_lang ts)"
  by (simp_all add: terms_lang_def)

lemma conc_Nil [simp]: "conc K {[]} = K" "conc {[]} K = K"
  by (auto simp: conc_def)

lemma terms_lang_append: "terms_lang (ts @ us) = conc (terms_lang ts) (terms_lang us)"
proof -
  have "conc (conc J K) L = conc J (conc K L)" for J K L by (auto simp: conc_def) (metis append.assoc)+
  then show ?thesis by (induction ts) auto
qed

lemma term_lang_Group: "term_lang (GroupTerm ts q) = quantified q (terms_lang ts)"
  by (simp add: term_lang_def)

lemma quantified_incl: "L \<subseteq> quantified q L"
proof -
  have "u \<in> star L" if "u \<in> L" for u using star_append [OF that star_Nil] by simp
  moreover have "u \<in> conc L (star L)" if "u \<in> L" for u using that star_Nil by (force simp: conc_def)
  ultimately show ?thesis by (cases q) auto
qed

lemma term_lang_incl: "atom_lang t \<subseteq> term_lang t"
  by (simp add: term_lang_def quantified_incl)

section \<open>Character sets\<close>

lemma charset_get_bit:
  "charset_get c s = (if c < 128 then Some (bit (if c < 64 then m_characters0 s else m_characters1 s) (c mod 64)) else None)"
proof -
  have "(w AND push_bit n 1 \<noteq> 0) = bit w n" for w :: u64 and n
    by (simp add: bit_iff_and_push_bit_not_eq_0)
  then show ?thesis by (auto simp: charset_get_def)
qed

lemma charset_set_get:
  assumes "charset_set c s = Some s'"
  shows "charset_get d s' = (if d = c then Some True else charset_get d s)" "m_inverted s' = m_inverted s"
proof -
  have c: "c < 128" using assms by (simp add: charset_set_def split: if_splits)
  have m: "x mod 64 = (if x < 64 then x else x - 64)" if "x < 128" for x :: nat using that by (simp add: mod_if)
  have s': "s' = (if c < 64 then s\<lparr>m_characters0 := m_characters0 s OR push_bit (c mod 64) 1\<rparr>
      else s\<lparr>m_characters1 := m_characters1 s OR push_bit (c mod 64) 1\<rparr>)"
    using assms c by (auto simp: charset_set_def)
  have b: "bit (w OR push_bit n 1) k \<longleftrightarrow> bit w k \<or> k = n" if "n < 64" for w :: u64 and n k
    using that by (auto simp: bit_or_iff push_bit_of_1 bit_exp_iff)
  show "charset_get d s' = (if d = c then Some True else charset_get d s)"
    using c b by (cases "d < 128"; cases "c < 64"; cases "d < 64") (auto simp: charset_get_bit s' m)
  show "m_inverted s' = m_inverted s" by (simp add: s')
qed

lemma charset_set_total: "c < 128 \<Longrightarrow> \<exists>s'. charset_set c s = Some s'"
  by (simp add: charset_set_def)

lemma charset_bitCount_card: "charset_bitCount s = card {c. charset_get c s = Some True}"
proof -
  have "{c. charset_get c s = Some True} =
      {i. i < 64 + 64 \<and> bit (if i < 64 then m_characters0 s else m_characters1 s) (i mod 64)}"
    by (auto simp: charset_get_bit split: if_splits)
  also have "card \<dots> = card {i. i < 64 \<and> bit (m_characters0 s) i} + card {i. i < 64 \<and> bit (m_characters1 s) i}"
    unfolding card_split by (intro arg_cong2 [where f = "(+)"] arg_cong [where f = card]) auto
  finally show ?thesis by (simp add: charset_bitCount_def bitCount64_card)
qed

lemma charset_get_domain: "charset_get c s = Some b \<Longrightarrow> c < 128"
  by (simp add: charset_get_def split: if_splits)

lemma charset_has_less: "charset_has s c \<Longrightarrow> c < 128"
  by (auto simp: charset_has_def charset_get_domain split: if_splits)

lemma finite_charset [simp]: "finite {c. charset_get c s = Some True}"
  by (rule finite_subset [of _ "{..< 128}"]) (auto dest: charset_get_domain)

lemma universal_charset:
  assumes "isUniversalTransition (CharacterSetTerm s q)"
  shows "charset_has s c \<longleftrightarrow> 0 < c \<and> c < 128"
proof (cases "m_inverted s")
  case True
  then have "\<not> charset_get c s = Some True" using assms by (simp add: charset_bitCount_card)
  then show ?thesis using True by (auto simp: charset_has_def charset_get_def split: if_splits)
next
  case False
  then have card: "card {c. charset_get c s = Some True} = 127" and zero: "\<not> charset_get 0 s = Some True"
    using assms by (simp_all add: charset_bitCount_card)
  have sub: "c \<in> {1 ..< 128}" if "charset_get c s = Some True" for c
    using charset_get_domain [OF that] that zero by (cases c) auto
  have "{c. charset_get c s = Some True} = {1 ..< 128}"
    by (rule card_subset_eq) (use sub card in auto)
  then have "charset_get c s = Some True \<longleftrightarrow> c \<in> {1 ..< 128}" by blast
  then show ?thesis using False by (auto simp: charset_has_def)
qed

lemma end_of_line_charset:
  assumes "isEndOfLineAssertion (CharacterSetTerm s q)" and "\<not> m_inverted s"
  shows "charset_has s c \<longleftrightarrow> c = 0"
proof -
  have "card {c. charset_get c s = Some True} = 1" "charset_get 0 s = Some True"
    using assms by (simp_all add: charset_bitCount_card)
  then obtain x where x: "{c. charset_get c s = Some True} = {x}" and "charset_get 0 s = Some True"
    using card_1_singletonE by blast
  then have "0 \<in> {x}" by blast
  then have "charset_get c s = Some True \<longleftrightarrow> c \<in> {0}" using x by blast
  then show ?thesis using assms(2) by (simp add: charset_has_def)
qed

section \<open>What the predicates mean\<close>

text \<open>Terms without the empty term, which the parser never produces.\<close>

fun proper :: "Term \<Rightarrow> bool" where
  "proper (EmptyTerm q) = False"
| "proper (CharacterSetTerm s q) = True"
| "proper (GroupTerm ts q) = list_all proper ts"

lemma term_eq_iff: "term_eq t u \<longleftrightarrow> t = u"
proof (induction t u rule: term_eq.induct)
  case (2 s p t q)
  then show ?case by (cases s; cases t) (auto simp: charset_eq_def)
next
  case (3 ss p ts q)
  then have "list_all2 term_eq ss ts = list_all2 (=) ss ts" by (intro list.rel_cong) auto
  then show ?case by (auto simp: list.rel_eq)
qed auto

lemma universal_lang: "isUniversalTransition t \<Longrightarrow> 0 < c \<Longrightarrow> c < 128 \<Longrightarrow> [c] \<in> term_lang t"
proof (induction t rule: isUniversalTransition.induct)
  case (2 s q)
  then show ?case using universal_charset [OF "2.prems"(1)] term_lang_incl [of "CharacterSetTerm s q"] by auto
next
  case (3 t q)
  then show ?case using term_lang_incl [of "GroupTerm [t] q"] by auto
qed auto

lemma star_all: "(\<And>c. c \<in> set w \<Longrightarrow> [c] \<in> L) \<Longrightarrow> w \<in> star L"
proof (induction w)
  case (Cons c w)
  then show ?case using star_append [of "[c]" L w] by simp
qed (rule star_Nil)

lemma plus_all: "w \<noteq> [] \<Longrightarrow> (\<And>c. c \<in> set w \<Longrightarrow> [c] \<in> L) \<Longrightarrow> w \<in> conc L (star L)"
proof (cases w)
  case (Cons c v)
  assume "\<And>c. c \<in> set w \<Longrightarrow> [c] \<in> L"
  then have "[c] \<in> L" "v \<in> star L" using Cons by (auto intro: star_all)
  then have "[c] @ v \<in> conc L (star L)" unfolding conc_def by blast
  then show ?thesis using Cons by simp
qed simp

lemma universal_atom:
  assumes "isUniversalTransition t" and "0 < c" and "c < 128"
  shows "[c] \<in> atom_lang t"
  using assms
proof (induction t rule: isUniversalTransition.induct)
  case (2 s q)
  then show ?case using universal_charset [OF "2.prems"(1)] by auto
next
  case (3 t q)
  then show ?case using universal_lang by simp
qed auto

lemma known_to_match_any:
  assumes "isKnownToMatchAnyString t" and "\<forall>c \<in> set w. 0 < c \<and> c < 128"
  shows "w \<in> term_lang t"
  using assms
proof (induction t rule: isKnownToMatchAnyString.induct)
  case (2 s q)
  then show ?case using universal_atom [of "CharacterSetTerm s q"] by (auto simp: term_lang_def intro!: star_all)
next
  case (3 t q)
  show ?case
  proof (cases "isKnownToMatchAnyString t")
    case True
    then have "w \<in> term_lang t" using 3 by simp
    then show ?thesis using term_lang_incl [of "GroupTerm [t] q"] by auto
  next
    case False
    then have u: "isUniversalTransition t" using "3.prems"(1) by (simp split: if_splits)
    have c: "[c] \<in> term_lang t" "[c] \<in> atom_lang t" if "c \<in> set w" for c
      using universal_lang [OF u] universal_atom [OF u] that "3.prems"(2) by auto
    consider "q = ZeroOrMore" | "q = ZeroOrOne" "m_quantifier t = OneOrMore" | "q = OneOrMore" "m_quantifier t = ZeroOrOne"
      using "3.prems"(1) False by (auto split: if_splits)
    then show ?thesis
    proof cases
      case 1
      then show ?thesis using star_all [of w "term_lang t"] c(1) by (simp add: term_lang_Group)
    next
      case 2
      then show ?thesis using c(2) plus_all [of w "atom_lang t"]
        by (cases "w = []") (simp_all add: term_lang_def)
    next
      case 3
      have "w \<in> conc (insert [] (atom_lang t)) (star (insert [] (atom_lang t)))"
      proof (cases "w = []")
        case True
        then show ?thesis using star_Nil by (force simp: conc_def)
      next
        case False
        then show ?thesis using c(2) by (intro plus_all) auto
      qed
      then show ?thesis using 3 by (simp add: term_lang_def)
    qed
  qed
qed auto

lemma conc_Nil_iff: "[] \<in> conc K L \<longleftrightarrow> [] \<in> K \<and> [] \<in> L"
  by (auto simp: conc_def)

lemma matches_at_least_one:
  "matchesAtLeastOneCharacter t \<Longrightarrow> proper t \<Longrightarrow> [] \<notin> term_lang t"
proof (induction t rule: matchesAtLeastOneCharacter.induct)
  case (2 s q)
  then show ?case by (cases q) (auto simp: term_lang_def conc_Nil_iff)
next
  case (3 ts q)
  have "[] \<notin> terms_lang ts"
    using 3 by (induction ts) (auto simp: conc_Nil_iff)
  then show ?case using "3.prems" by (cases q) (auto simp: term_lang_def conc_Nil_iff)
qed auto

lemma fixed_length:
  "hasFixedLength t \<Longrightarrow> \<exists>n. \<forall>w \<in> term_lang t. length w = n"
proof (induction t rule: hasFixedLength.induct)
  case (2 s q)
  then show ?case by (auto simp: term_lang_def)
next
  case (3 ts q)
  then have ts: "\<forall>t \<in> set ts. \<exists>n. \<forall>w \<in> term_lang t. length w = n" "q = One"
    by (auto simp: list_all_iff split: if_splits)
  then have "\<exists>n. \<forall>w \<in> terms_lang ts. length w = n"
  proof (induction ts)
    case (Cons t ts)
    then obtain m n where "\<forall>w \<in> term_lang t. length w = m" "\<forall>w \<in> terms_lang ts. length w = n" by auto
    then have "\<forall>w \<in> terms_lang (t # ts). length w = m + n" by (auto simp: conc_def)
    then show ?case by blast
  qed simp
  then show ?case using ts(2) by (simp add: term_lang_def)
qed auto

end
