(* ===== verification/Fragments.thy ===== *)
theory Fragments
  imports Term
begin

text \<open>
  Graphs with labelled edges as sets, their paths, and fragments: edges from a source through new nodes to a
  destination whose paths spell a language. The constructions of \<open>generateGraph\<close> on fragments.
\<close>

type_synonym edge = "nat \<times> nat option \<times> nat"

definition spell :: "nat option \<Rightarrow> nat list" where
  "spell a = (case a of None \<Rightarrow> [] | Some c \<Rightarrow> [c])"

lemma spell_simps [simp]: "spell None = []" "spell (Some c) = [c]"
  by (simp_all add: spell_def)

inductive path :: "edge set \<Rightarrow> nat \<Rightarrow> nat list \<Rightarrow> nat \<Rightarrow> bool" for D where
  path_refl: "path D p [] p"
| path_step: "(p, a, q) \<in> D \<Longrightarrow> path D q w r \<Longrightarrow> path D p (spell a @ w) r"

lemma path_edge: "(p, a, q) \<in> D \<Longrightarrow> path D p (spell a) q"
  using path_step [OF _ path_refl] by fastforce

lemma path_append: "path D p u q \<Longrightarrow> path D q v r \<Longrightarrow> path D p (u @ v) r"
  by (induction rule: path.induct) (auto intro: path_step)

lemma path_mono: "path D p w q \<Longrightarrow> D \<subseteq> E \<Longrightarrow> path E p w q"
  by (induction rule: path.induct) (auto intro: path_refl path_step)

text \<open>Paths that start in a set whose edges all lie in \<open>D\<close> and stay there.\<close>

lemma path_closed:
  assumes "path E p w q" and "p \<in> A" and "\<And>x a y. (x, a, y) \<in> E \<Longrightarrow> x \<in> A \<Longrightarrow> (x, a, y) \<in> D \<and> y \<in> A"
  shows "path D p w q"
  using assms(1,2)
proof (induction rule: path.induct)
  case (path_step p a q w r)
  then show ?case using assms(3) [of p a q] path.path_step by blast
qed (rule path_refl)

definition fragment :: "nat \<Rightarrow> nat set \<Rightarrow> nat \<Rightarrow> edge set \<Rightarrow> lang \<Rightarrow> bool" where
  "fragment s N d D L \<longleftrightarrow> s \<noteq> d \<and> s \<notin> N \<and> d \<notin> N \<and> (\<forall>(x, a, y) \<in> D. x \<in> insert s N \<and> y \<in> insert d N) \<and>
     (\<forall>w. path D s w d \<longleftrightarrow> w \<in> L)"

lemma fragmentD:
  assumes "fragment s N d D L"
  shows "s \<noteq> d" "s \<notin> N" "d \<notin> N" "(x, a, y) \<in> D \<Longrightarrow> x \<in> insert s N \<and> y \<in> insert d N"
    "path D s w d \<longleftrightarrow> w \<in> L"
  using assms by (auto simp: fragment_def)

lemma fragmentI:
  assumes "s \<noteq> d" "s \<notin> N" "d \<notin> N" "\<And>x a y. (x, a, y) \<in> D \<Longrightarrow> x \<in> insert s N \<and> y \<in> insert d N"
    "\<And>w. path D s w d \<Longrightarrow> w \<in> L" "\<And>w. w \<in> L \<Longrightarrow> path D s w d"
  shows "fragment s N d D L"
  using assms unfolding fragment_def by blast

text \<open>No edge leaves the destination.\<close>

lemma path_from_sink: "path D d w q \<Longrightarrow> (\<And>a y. (d, a, y) \<notin> D) \<Longrightarrow> w = [] \<and> q = d"
  by (cases rule: path.cases) auto

lemma fragment_edges:
  assumes "s \<noteq> d"
  shows "fragment s {} d {(s, a, d) | a. a \<in> A} {spell a | a. a \<in> A}"
proof (rule fragmentI)
  fix w
  assume "path {(s, a, d) | a. a \<in> A} s w d"
  then show "w \<in> {spell a | a. a \<in> A}"
  proof (cases rule: path.cases)
    case (path_step a q v)
    then have "q = d" "a \<in> A" by auto
    with path_step have "v = []" using path_from_sink [of _ d v d] assms by auto
    then show ?thesis using path_step \<open>a \<in> A\<close> by auto
  qed (use assms in simp)
qed (use assms in \<open>auto intro: path_edge\<close>)

lemma fragment_optional:
  assumes F: "fragment s N d D L"
  shows "fragment s N d (insert (s, None, d) D) (insert [] L)"
proof (rule fragmentI)
  let ?E = "insert (s, None, d) D"
  fix w
  {
    assume "path ?E s w d"
    then show "w \<in> insert [] L"
    proof (cases rule: path.cases)
      case (path_step a q v)
      have sink: "(d, b, y) \<notin> ?E" for b y using fragmentD(1,3,4) [OF F] by auto
      show ?thesis
      proof (cases "(s, a, q) \<in> D")
        case True
        then have q: "q \<in> insert d N" using fragmentD(4) [OF F] by blast
        have "path D q v d"
          using path_step(3) by (rule path_closed [where A = "insert d N"]) (use q fragmentD(1-4) [OF F] in auto)
        then have "path D s (spell a @ v) d" using True path.path_step by blast
        then show ?thesis using path_step(1) fragmentD(5) [OF F] by blast
      next
        case False
        then have "a = None" "q = d" using path_step(2) by auto
        then show ?thesis using path_step path_from_sink [OF path_step(3) [unfolded \<open>q = d\<close>] sink] by simp
      qed
    qed (use fragmentD(1) [OF F] in simp)
  next
    assume "w \<in> insert [] L"
    then show "path ?E s w d"
      using fragmentD(5) [OF F] path_mono [of D s w d ?E] path_edge [of s None d ?E] by auto
  }
qed (use fragmentD [OF F] in auto)

lemma fragment_seq:
  assumes F: "fragment s N m D K" and G: "fragment m M d E L"
    and dj: "insert s N \<inter> insert m M = {}" "insert s N \<inter> insert d M = {}"
  shows "fragment s (N \<union> {m} \<union> M) d (D \<union> E) (conc K L)"
proof (rule fragmentI)
  fix w
  have E: "path E p v d" if "path (D \<union> E) p v d" "p \<in> insert m (insert d M)" for p v
    using that
    by (rule path_closed) (use dj in \<open>auto dest: fragmentD(4) [OF F] fragmentD(4) [OF G]\<close>)
  have split: "\<exists>u v. w = u @ v \<and> path D p u m \<and> v \<in> L" if "path (D \<union> E) p w q" "q = d" "p \<in> insert s N" for p w q
    using that
  proof (induction rule: path.induct)
    case (path_step p a q w r)
    then have pq: "(p, a, q) \<in> D" using fragmentD(4) [OF G] dj by blast
    then have "q \<in> insert m N" using fragmentD(4) [OF F] by blast
    then consider "q = m" | "q \<in> N" by blast
    then show ?case
    proof cases
      case 1
      then have "w \<in> L" using E [of q w] path_step.hyps(2) path_step.prems(1) fragmentD(5) [OF G] by blast
      moreover have "path D p (spell a) m" using pq 1 path_edge by blast
      ultimately show ?thesis by blast
    next
      case 2
      then obtain u v where "w = u @ v" "path D q u m" "v \<in> L" using path_step.IH path_step.prems by blast
      then show ?thesis using path.path_step [OF pq] by (metis append.assoc)
    qed
  qed (use dj in auto)
  {
    assume "path (D \<union> E) s w d"
    then show "w \<in> conc K L" using split [of s w d] fragmentD(5) [OF F] unfolding conc_def by blast
  next
    assume "w \<in> conc K L"
    then obtain u v where "w = u @ v" "path D s u m" "path E m v d"
      using fragmentD(5) [OF F] fragmentD(5) [OF G] unfolding conc_def by blast
    then show "path (D \<union> E) s w d"
      using path_append path_mono [of D s u m "D \<union> E"] path_mono [of E m v d "D \<union> E"] by blast
  }
qed (use fragmentD(1-3) [OF F] fragmentD(1-3) [OF G] dj in \<open>auto dest: fragmentD(4) [OF F] fragmentD(4) [OF G]\<close>)

text \<open>A loop: the paths of the fragment from \<open>b\<close> to \<open>e\<close> any number of times, at least once.\<close>

definition loop_edges :: "nat \<Rightarrow> nat \<Rightarrow> nat \<Rightarrow> nat \<Rightarrow> edge set \<Rightarrow> edge set" where
  "loop_edges s b e d D = D \<union> {(s, None, b), (e, None, b), (e, None, d)}"

lemma fragment_loop:
  assumes F: "fragment b N e D L" and new: "{s, d} \<inter> ({b, e} \<union> N) = {}" "s \<noteq> d"
  shows "fragment s ({b, e} \<union> N) d (loop_edges s b e d D) (conc L (star L))"
proof (rule fragmentI)
  let ?E = "loop_edges s b e d D"
  fix w
  have inv: "(p \<in> insert b N \<longrightarrow> (\<exists>u v. w = u @ v \<and> path D p u e \<and> v \<in> star L)) \<and>
      (p = e \<longrightarrow> w \<in> star L) \<and> (p = d \<longrightarrow> w = [])" if "path ?E p w q" "q = d" for p w q
    using that
  proof (induction rule: path.induct)
    case (path_refl p)
    then show ?case using new by auto
  next
    case (path_step p a q w r)
    note IH = path_step.IH [OF path_step.prems]
    have L: "u \<in> L" if "path D b u e" for u using that fragmentD(5) [OF F] by blast
    consider "(p, a, q) \<in> D" | "p = s" | "p = e" "a = None" "q = b" | "p = e" "a = None" "q = d"
      using path_step.hyps(1) by (auto simp: loop_edges_def)
    then show ?case
    proof cases
      case 1
      then have pq: "p \<in> insert b N" "q = e \<or> q \<in> N" using fragmentD(4) [OF F] by blast+
      have "\<exists>u v. spell a @ w = u @ v \<and> path D p u e \<and> v \<in> star L"
      proof (cases "q = e")
        case True
        then show ?thesis using IH path_edge [OF 1] by blast
      next
        case False
        then obtain u v where "w = u @ v" "path D q u e" "v \<in> star L" using IH pq by blast
        then show ?thesis using path.path_step [OF 1] by (metis append.assoc)
      qed
      then show ?thesis using pq new fragmentD(1,3) [OF F] by auto
    next
      case 2
      then show ?thesis using new by auto
    next
      case 3
      then obtain u v where "w = u @ v" "path D b u e" "v \<in> star L" using IH by blast
      then have "spell a @ w \<in> star L" using L star_append 3 by simp
      then show ?thesis using 3 new fragmentD(1,3) [OF F] by auto
    next
      case 4
      then show ?thesis using IH new fragmentD(1,3) [OF F] by (auto intro: star_Nil)
    qed
  qed
  have body: "path ?E b u e" if "u \<in> L" for u
    using that fragmentD(5) [OF F] path_mono [of D b u e ?E] by (auto simp: loop_edges_def)
  have turn: "path ?E e [] b" "path ?E e [] d" "path ?E s [] b"
    using path_edge [of e None b ?E] path_edge [of e None d ?E] path_edge [of s None b ?E] by (auto simp: loop_edges_def)
  have rep: "path ?E e v d" if "v \<in> star L" for v
    using that
  proof (induction rule: star.induct)
    case (star_append u v)
    then show ?case using path_append [OF path_append [OF turn(1) body] star_append.IH] by simp
  qed (rule turn(2))
  {
    assume "path ?E s w d"
    then show "w \<in> conc L (star L)"
    proof (cases rule: path.cases)
      case (path_step a q v)
      then have "a = None" "q = b" using new fragmentD(4) [OF F] by (auto simp: loop_edges_def)
      then obtain x y where "v = x @ y" "path D b x e" "y \<in> star L" using inv [OF path_step(3)] by blast
      then show ?thesis using path_step(1) \<open>a = None\<close> fragmentD(5) [OF F] unfolding conc_def by auto
    qed (use new in simp)
  next
    assume "w \<in> conc L (star L)"
    then obtain u v where "w = u @ v" "u \<in> L" "v \<in> star L" by (auto simp: conc_def)
    then show "path ?E s w d" using path_append [OF path_append [OF turn(3) body] rep] by simp
  }
qed (use new fragmentD(1-3) [OF F] in \<open>auto simp: loop_edges_def dest: fragmentD(4) [OF F]\<close>)

lemma star_unfold: "star L = insert [] (conc L (star L))"
proof
  show "star L \<subseteq> insert [] (conc L (star L))"
  proof
    fix w
    assume "w \<in> star L"
    then show "w \<in> insert [] (conc L (star L))" by (cases rule: star.cases) (auto simp: conc_def)
  qed
  show "insert [] (conc L (star L)) \<subseteq> star L" by (auto simp: conc_def intro: star.intros)
qed

lemma fragment_star:
  assumes "fragment b N e D L" and "{s, d} \<inter> ({b, e} \<union> N) = {}" and "s \<noteq> d"
  shows "fragment s ({b, e} \<union> N) d (insert (s, None, d) (loop_edges s b e d D)) (star L)"
  using fragment_optional [OF fragment_loop [OF assms]] star_unfold [of L] by simp

end
