(* ===== verification/Term_Graph.thy ===== *)
theory Term_Graph
  imports Fragments
begin

text \<open>
  The generation of the graph of a term (\<open>generateGraph\<close> and \<open>generateSubgraphForAtom\<close> of \<open>Term.h\<close>), and the
  proof that the paths from the source to the destination that it adds spell the language of the term.
\<close>

section \<open>The code\<close>

text \<open>The inner loops over the characters: skip while a bit has the value \<open>v\<close>.\<close>

function skipBits :: "bool \<Rightarrow> CharacterSet \<Rightarrow> nat \<Rightarrow> nat" where
  "skipBits v s i = (if i < 128 \<and> charset_get i s = Some v then skipBits v s (i + 1) else i)"
  by pat_completeness auto
termination by (relation "measure (\<lambda>(v, s, i). 128 - i)") auto

declare skipBits.simps [simp del]

lemma skipBits_ge: "i \<le> skipBits v s i"
  by (induction v s i rule: skipBits.induct) (subst skipBits.simps, auto)

text \<open>The runs of characters with the bit \<open>v\<close>, from \<open>i\<close> on.\<close>

function bitRuns :: "bool \<Rightarrow> CharacterSet \<Rightarrow> nat \<Rightarrow> (nat \<times> nat) list" where
  "bitRuns v s i =
     (let start = skipBits (\<not> v) s i
      in if \<not> start < 128 then []
         else let i' = skipBits v s (start + 1) in (start, i' - 1) # bitRuns v s i')"
  by pat_completeness auto
termination
proof (relation "measure (\<lambda>(v, s, i). 128 - i)", simp)
  fix v s i x xa
  assume "x = skipBits (\<not> v) s i" "\<not> \<not> x < 128" "xa = skipBits v s (x + 1)"
  moreover have "i \<le> skipBits (\<not> v) s i" "skipBits (\<not> v) s i + 1 \<le> skipBits v s (skipBits (\<not> v) s i + 1)"
    by (rule skipBits_ge)+
  ultimately show "((v, s, xa), v, s, i) \<in> measure (\<lambda>(v, s, i). 128 - i)" by simp
qed

declare bitRuns.simps [simp del]

fun addTransitions :: "(nat \<times> nat) list \<Rightarrow> nat \<Rightarrow> NFANodeBuilder \<Rightarrow> NFANodeBuilder option" where
  "addTransitions [] destination source = Some source"
| "addTransitions ((f, l) # rs) destination source = do {
     source1 \<leftarrow> addTransition (int f) (int l) destination source;
     addTransitions rs destination source1
   }"

definition generateCharacterSet :: "CharacterSet \<Rightarrow> NFANodeBuilder \<Rightarrow> nat \<Rightarrow> NFANodeBuilder option" where
  "generateCharacterSet s source destination =
     (if \<not> m_inverted s then addTransitions (bitRuns True s 0) destination source
      else addTransitions (bitRuns False s 1) destination source)"

type_synonym generator = "NFA \<Rightarrow> NFANodeBuilder \<Rightarrow> nat \<Rightarrow> (NFA \<times> NFANodeBuilder) option"

text \<open>\<open>generateGraph\<close> into a destination, given the generator of the atom.\<close>

fun quantifiedGraph :: "iteration_orders \<Rightarrow> AtomQuantifier \<Rightarrow> generator \<Rightarrow> generator" where
  "quantifiedGraph ho One atom nfa source destination = atom nfa source destination"
| "quantifiedGraph ho ZeroOrOne atom nfa source destination = do {
     (nfa1, source1) \<leftarrow> atom nfa source destination;
     Some (nfa1, addEpsilonTransition destination source1)
   }"
| "quantifiedGraph ho ZeroOrMore atom nfa source destination =
     (let (repeatStart, nfa1) = newBuilder nfa;
          source1 = addEpsilonTransition (m_nodeId repeatStart) source;
          (repeatEnd, nfa2) = newBuilder nfa1
      in do {
        (nfa3, repeatStart1) \<leftarrow> atom nfa2 repeatStart (m_nodeId repeatEnd);
        let repeatEnd1 = addEpsilonTransition (m_nodeId repeatStart1) repeatEnd;
        let repeatEnd2 = addEpsilonTransition destination repeatEnd1;
        let source2 = addEpsilonTransition destination source1;
        let nfa4 = finalize ho repeatEnd2 nfa3;
        Some (finalize ho repeatStart1 nfa4, source2)
      })"
| "quantifiedGraph ho OneOrMore atom nfa source destination =
     (let (repeatStart, nfa1) = newBuilder nfa;
          source1 = addEpsilonTransition (m_nodeId repeatStart) source;
          (repeatEnd, nfa2) = newBuilder nfa1
      in do {
        (nfa3, repeatStart1) \<leftarrow> atom nfa2 repeatStart (m_nodeId repeatEnd);
        let repeatEnd1 = addEpsilonTransition (m_nodeId repeatStart1) repeatEnd;
        let repeatEnd2 = addEpsilonTransition destination repeatEnd1;
        let nfa4 = finalize ho repeatEnd2 nfa3;
        Some (finalize ho repeatStart1 nfa4, source1)
      })"

text \<open>\<open>generateGraph\<close> into a new node, whose builder it returns.\<close>

definition newEndGraph ::
  "generator \<Rightarrow> NFA \<Rightarrow> NFANodeBuilder \<Rightarrow> u64 list \<Rightarrow> (NFA \<times> NFANodeBuilder \<times> NFANodeBuilder) option" where
  "newEndGraph gen nfa source finalActions =
     (let (newEnd, nfa1) = newBuilder nfa
      in do {
        (nfa2, source1) \<leftarrow> gen nfa1 source (m_nodeId newEnd);
        Some (nfa2, source1, builder_setActions finalActions newEnd)
      })"

fun generateSubgraphForAtom :: "iteration_orders \<Rightarrow> Term \<Rightarrow> generator"
  and generateLastTargets :: "iteration_orders \<Rightarrow> Term list \<Rightarrow> NFA \<Rightarrow> NFANodeBuilder \<Rightarrow> nat \<Rightarrow> NFA option" where
  "generateSubgraphForAtom ho (EmptyTerm q) nfa source destination =
     Some (nfa, addEpsilonTransition destination source)"
| "generateSubgraphForAtom ho (CharacterSetTerm s q) nfa source destination = do {
     source1 \<leftarrow> generateCharacterSet s source destination;
     Some (nfa, source1)
   }"
| "generateSubgraphForAtom ho (GroupTerm [] q) nfa source destination =
     Some (nfa, addEpsilonTransition destination source)"
| "generateSubgraphForAtom ho (GroupTerm [t] q) nfa source destination =
     quantifiedGraph ho (m_quantifier t) (generateSubgraphForAtom ho t) nfa source destination"
| "generateSubgraphForAtom ho (GroupTerm (t # t' # ts) q) nfa source destination = do {
     (nfa1, source1, lastTarget) \<leftarrow>
       newEndGraph (quantifiedGraph ho (m_quantifier t) (generateSubgraphForAtom ho t)) nfa source [];
     nfa2 \<leftarrow> generateLastTargets ho (t' # ts) nfa1 lastTarget destination;
     Some (nfa2, source1)
   }"
| "generateLastTargets ho [] nfa lastTarget destination = Some (finalize ho lastTarget nfa)"
| "generateLastTargets ho [t] nfa lastTarget destination = do {
     (nfa1, lastTarget1) \<leftarrow>
       quantifiedGraph ho (m_quantifier t) (generateSubgraphForAtom ho t) nfa lastTarget destination;
     Some (finalize ho lastTarget1 nfa1)
   }"
| "generateLastTargets ho (t # t' # ts) nfa lastTarget destination = do {
     (nfa1, lastTarget1, newNode) \<leftarrow>
       newEndGraph (quantifiedGraph ho (m_quantifier t) (generateSubgraphForAtom ho t)) nfa lastTarget [];
     generateLastTargets ho (t' # ts) (finalize ho lastTarget1 nfa1) newNode destination
   }"

definition generateGraphTo :: "iteration_orders \<Rightarrow> Term \<Rightarrow> generator" where
  "generateGraphTo ho t = quantifiedGraph ho (m_quantifier t) (generateSubgraphForAtom ho t)"

definition generateGraph ::
  "iteration_orders \<Rightarrow> Term \<Rightarrow> NFA \<Rightarrow> NFANodeBuilder \<Rightarrow> u64 list
    \<Rightarrow> (NFA \<times> NFANodeBuilder \<times> NFANodeBuilder) option" where
  "generateGraph ho t = newEndGraph (generateGraphTo ho t)"

section \<open>Character sets\<close>

lemma skipBits_spec:
  "(\<forall>c. i \<le> c \<and> c < skipBits v s i \<longrightarrow> charset_get c s = Some v) \<and>
   (skipBits v s i < 128 \<longrightarrow> charset_get (skipBits v s i) s \<noteq> Some v) \<and> (i \<le> 128 \<longrightarrow> skipBits v s i \<le> 128)"
proof (induction v s i rule: skipBits.induct)
  case (1 v s i)
  show ?case
  proof (cases "i < 128 \<and> charset_get i s = Some v")
    case True
    then have "skipBits v s i = skipBits v s (i + 1)" by (simp add: skipBits.simps [of v s i])
    then show ?thesis using 1 [OF True] True by (metis Suc_eq_plus1 le_eq_less_or_eq less_eq_Suc_le)
  next
    case False
    then have "skipBits v s i = i" by (auto simp: skipBits.simps [of v s i])
    then show ?thesis using False by auto
  qed
qed

lemma charset_get_total: "c < 128 \<Longrightarrow> charset_get c s = Some True \<or> charset_get c s = Some False"
  by (simp add: charset_get_bit)

lemma bitRuns_spec:
  assumes "i \<le> 128"
  shows "(\<exists>(f, l) \<in> set (bitRuns v s i). f \<le> c \<and> c \<le> l) \<longleftrightarrow> i \<le> c \<and> c < 128 \<and> charset_get c s = Some v"
    and "\<forall>(f, l) \<in> set (bitRuns v s i). f \<le> l \<and> l < 128"
  using assms
proof (induction v s i rule: bitRuns.induct)
  case (1 v s i)
  let ?j = "skipBits (\<not> v) s i" and ?k = "skipBits v s (skipBits (\<not> v) s i + 1)"
  note J = skipBits_spec [of i "\<not> v" s] skipBits_ge [of i "\<not> v" s]
    and K = skipBits_spec [of "?j + 1" v s] skipBits_ge [of "?j + 1" v s]
  have no: "charset_get c s \<noteq> Some v" if "i \<le> c" "c < ?j" for c
  proof -
    have "charset_get c s = Some (\<not> v)" using J(1) that by blast
    then show ?thesis by auto
  qed
  show "(\<exists>(f, l) \<in> set (bitRuns v s i). f \<le> c \<and> c \<le> l) \<longleftrightarrow> i \<le> c \<and> c < 128 \<and> charset_get c s = Some v" if "i \<le> 128"
  proof (cases "?j < 128")
    case False
    then show ?thesis using no J that by (subst bitRuns.simps) (auto simp: Let_def)
  next
    case True
    have k: "?k \<le> 128" using K True by simp
    have yes: "charset_get c s = Some v" if "?j \<le> c" "c < ?k" for c
    proof (cases "c = ?j")
      case True': True
      then show ?thesis using J(1) charset_get_total [OF True] True by (cases v) auto
    qed (use K that in auto)
    have "bitRuns v s i = (?j, ?k - 1) # bitRuns v s ?k" using True by (subst bitRuns.simps) (simp add: Let_def)
    moreover have "(\<exists>(f, l) \<in> set (bitRuns v s ?k). f \<le> c \<and> c \<le> l) \<longleftrightarrow> ?k \<le> c \<and> c < 128 \<and> charset_get c s = Some v"
      using "1.IH"(1) [OF refl _ refl] True k by simp
    moreover have "?j \<le> c \<and> c \<le> ?k - 1 \<longleftrightarrow> ?j \<le> c \<and> c < ?k" using K by linarith
    ultimately have "(\<exists>(f, l) \<in> set (bitRuns v s i). f \<le> c \<and> c \<le> l) \<longleftrightarrow>
        ?j \<le> c \<and> c < ?k \<or> ?k \<le> c \<and> c < 128 \<and> charset_get c s = Some v" by auto
    also have "\<dots> \<longleftrightarrow> i \<le> c \<and> c < 128 \<and> charset_get c s = Some v"
      using yes [of c] no [of c] k J(2) K(2) by (cases "c < ?j"; cases "c < ?k") auto
    finally show ?thesis .
  qed
  show "\<forall>(f, l) \<in> set (bitRuns v s i). f \<le> l \<and> l < 128" if "i \<le> 128"
  proof (cases "?j < 128")
    case False
    then show ?thesis by (subst bitRuns.simps) (auto simp: Let_def)
  next
    case True
    have k: "?k \<le> 128" using K True by simp
    have "bitRuns v s i = (?j, ?k - 1) # bitRuns v s ?k" using True by (subst bitRuns.simps) (simp add: Let_def)
    then show ?thesis using "1.IH"(2) [OF refl _ refl] True k K(2) by auto
  qed
qed

section \<open>Graphs and builders as sets of edges\<close>

definition out_edges :: "nat \<Rightarrow> (int \<Rightarrow> nat set) \<Rightarrow> nat set \<Rightarrow> edge set" where
  "out_edges p es eps = {(p, Some c, q) | c q. q \<in> es (int c)} \<union> {(p, None, q) | q. q \<in> eps}"

definition builder_graph :: "NFANodeBuilder \<Rightarrow> edge set" where
  "builder_graph b = out_edges (m_nodeId b) (builder_edges b) (set (m_epsilonTransitionTargets b))"

definition node_graph :: "NFA \<Rightarrow> nat \<Rightarrow> edge set" where
  "node_graph nfa p = out_edges p (nfa_edges nfa p) (nfa_eps nfa p)"

abbreviation nodes_of :: "NFA \<Rightarrow> nat" where
  "nodes_of nfa \<equiv> length (nfa_nodes nfa)"

text \<open>A builder that can be worked on in a graph.\<close>

definition open_builder :: "NFA \<Rightarrow> NFANodeBuilder \<Rightarrow> bool" where
  "open_builder nfa b \<longleftrightarrow> wf_nfa nfa \<and> wf_builder b \<and> builder_in b (nodes_of nfa) \<and> m_nodeId b < nodes_of nfa"

lemma addTransitions_edges:
  assumes "wf_builder b" and "\<forall>(f, l) \<in> set rs. f \<le> l \<and> l < 128"
  shows "\<exists>b'. addTransitions rs q b = Some b' \<and> wf_builder b' \<and> m_nodeId b' = m_nodeId b \<and> m_actions b' = m_actions b \<and>
    m_epsilonTransitionTargets b' = m_epsilonTransitionTargets b \<and>
    (\<forall>c. builder_edges b' c = builder_edges b c \<union> (if \<exists>(f, l) \<in> set rs. int f \<le> c \<and> c \<le> int l then {q} else {}))"
  using assms
proof (induction rs arbitrary: b)
  case (Cons r rs)
  obtain f l where r: "r = (f, l)" by force
  obtain b1 where b1: "addTransition (int f) (int l) q b = Some b1" "wf_builder b1" "m_nodeId b1 = m_nodeId b"
    "m_actions b1 = m_actions b" "m_epsilonTransitionTargets b1 = m_epsilonTransitionTargets b"
    "\<And>c. builder_edges b1 c = builder_edges b c \<union> (if int f \<le> c \<and> c \<le> int l then {q} else {})"
    using addTransition_edges [OF Cons.prems(1), of "int f" "int l" q] Cons.prems(2) r by auto
  obtain b2 where b2: "addTransitions rs q b1 = Some b2" "wf_builder b2" "m_nodeId b2 = m_nodeId b1"
    "m_actions b2 = m_actions b1" "m_epsilonTransitionTargets b2 = m_epsilonTransitionTargets b1"
    "\<And>c. builder_edges b2 c = builder_edges b1 c \<union> (if \<exists>(f, l) \<in> set rs. int f \<le> c \<and> c \<le> int l then {q} else {})"
    using Cons.IH [OF b1(2)] Cons.prems(2) by auto
  have "builder_edges b2 c = builder_edges b c \<union> (if \<exists>(f, l) \<in> set (r # rs). int f \<le> c \<and> c \<le> int l then {q} else {})" for c
    by (simp add: b2(6) b1(6) r)
  then show ?case using b1 b2 r by simp
qed simp

lemma generateCharacterSet_edges:
  assumes "wf_builder b"
  shows "\<exists>b'. generateCharacterSet s b q = Some b' \<and> wf_builder b' \<and> m_nodeId b' = m_nodeId b \<and> m_actions b' = m_actions b \<and>
    m_epsilonTransitionTargets b' = m_epsilonTransitionTargets b \<and>
    (\<forall>c. builder_edges b' (int c) = builder_edges b (int c) \<union> (if charset_has s c then {q} else {})) \<and>
    (\<forall>c. builder_edges b' c \<subseteq> builder_edges b c \<union> {q})"
proof -
  define rs where "rs = (if m_inverted s then bitRuns False s 1 else bitRuns True s 0)"
  have runs: "(\<exists>(f, l) \<in> set rs. f \<le> c \<and> c \<le> l) \<longleftrightarrow> charset_has s c" for c
    using bitRuns_spec(1) [of 1 False s c] bitRuns_spec(1) [of 0 True s c] charset_get_domain [of c s]
    by (auto simp: rs_def charset_has_def)
  have ok: "\<forall>(f, l) \<in> set rs. f \<le> l \<and> l < 128"
    using bitRuns_spec(2) [of 1 False s] bitRuns_spec(2) [of 0 True s] by (auto simp: rs_def)
  have eq: "generateCharacterSet s b q = addTransitions rs q b" by (simp add: generateCharacterSet_def rs_def)
  obtain b' where b': "addTransitions rs q b = Some b'" "wf_builder b'" "m_nodeId b' = m_nodeId b" "m_actions b' = m_actions b"
    "m_epsilonTransitionTargets b' = m_epsilonTransitionTargets b"
    "\<And>c. builder_edges b' c = builder_edges b c \<union> (if \<exists>(f, l) \<in> set rs. int f \<le> c \<and> c \<le> int l then {q} else {})"
    using addTransitions_edges [OF assms ok, of q] by blast
  have "(\<exists>(f, l) \<in> set rs. int f \<le> int c \<and> int c \<le> int l) \<longleftrightarrow> charset_has s c" for c using runs [of c] by simp
  moreover have "builder_edges b' c \<subseteq> builder_edges b c \<union> {q}" for c by (simp add: b'(6)) blast
  ultimately show ?thesis using b' eq by simp
qed

lemma out_edges_source: "(x, a, y) \<in> out_edges p es eps \<Longrightarrow> x = p"
  by (auto simp: out_edges_def)

lemma builder_graph_charset:
  assumes "wf_builder b" and "generateCharacterSet s b q = Some b'"
  shows "builder_graph b' = builder_graph b \<union> {(m_nodeId b, a, q) | a. a \<in> {Some c | c. charset_has s c}}"
proof -
  obtain b1 where "generateCharacterSet s b q = Some b1" "m_nodeId b1 = m_nodeId b"
    "m_epsilonTransitionTargets b1 = m_epsilonTransitionTargets b"
    "\<And>c. builder_edges b1 (int c) = builder_edges b (int c) \<union> (if charset_has s c then {q} else {})"
    using generateCharacterSet_edges [OF assms(1), of s q] by blast
  then show ?thesis using assms(2) by (auto simp: builder_graph_def out_edges_def)
qed

lemma addEpsilon_graph [simp]:
  "builder_graph (addEpsilonTransition q b) = insert (m_nodeId b, None, q) (builder_graph b)"
  "m_nodeId (addEpsilonTransition q b) = m_nodeId b" "m_actions (addEpsilonTransition q b) = m_actions b"
  by (auto simp: addEpsilonTransition_def builder_graph_def out_edges_def builder_edges_def)

lemma addEpsilon_open: "open_builder nfa b \<Longrightarrow> q < nodes_of nfa \<Longrightarrow> open_builder nfa (addEpsilonTransition q b)"
  by (simp add: open_builder_def addEpsilonTransition_def wf_builder_def builder_in_def builder_edges_def)

lemma open_builder_mono:
  assumes "open_builder nfa b" and "wf_nfa nfa'" and "nodes_of nfa \<le> nodes_of nfa'"
  shows "open_builder nfa' b"
proof -
  have "builder_edges b c \<subseteq> {..< nodes_of nfa'}" for c
    using assms(1,3) by (auto simp: open_builder_def builder_in_def intro: less_le_trans)
  moreover have "set (m_epsilonTransitionTargets b) \<subseteq> {..< nodes_of nfa'}"
    using assms(1,3) by (auto simp: open_builder_def builder_in_def)
  ultimately show ?thesis using assms by (auto simp: open_builder_def builder_in_def)
qed

lemma finalize_graph:
  assumes "orders_ok ho" and "open_builder nfa b"
  shows "wf_nfa (finalize ho b nfa)" "nodes_of (finalize ho b nfa) = nodes_of nfa"
    "q < nodes_of nfa \<Longrightarrow> node_graph (finalize ho b nfa) q = (if q = m_nodeId b then builder_graph b else node_graph nfa q)"
    "q < nodes_of nfa \<Longrightarrow> nfa_acts (finalize ho b nfa) q = (if q = m_nodeId b then set (m_actions b) else nfa_acts nfa q)"
proof -
  have b: "wf_nfa nfa" "wf_builder b" "m_nodeId b < nodes_of nfa" "builder_in b (nodes_of nfa)"
    using assms(2) by (simp_all add: open_builder_def)
  note F = finalize_edges [OF assms(1) b]
  show "wf_nfa (finalize ho b nfa)" "nodes_of (finalize ho b nfa) = nodes_of nfa" by (rule F)+
  show "q < nodes_of nfa \<Longrightarrow> nfa_acts (finalize ho b nfa) q = (if q = m_nodeId b then set (m_actions b) else nfa_acts nfa q)"
    by (rule F(5))
  show "q < nodes_of nfa \<Longrightarrow> node_graph (finalize ho b nfa) q = (if q = m_nodeId b then builder_graph b else node_graph nfa q)"
    using F(3) [of q] F(4) [of q] by (auto simp: node_graph_def builder_graph_def out_edges_def)
qed

lemma newBuilder_graph:
  assumes "newBuilder nfa = (b, nfa')" and "wf_nfa nfa"
  shows "open_builder nfa' b" "m_nodeId b = nodes_of nfa" "nodes_of nfa' = Suc (nodes_of nfa)" "builder_graph b = {}"
    "m_actions b = []" "q < nodes_of nfa \<Longrightarrow> node_graph nfa' q = node_graph nfa q \<and> nfa_acts nfa' q = nfa_acts nfa q"
proof -
  note N = newBuilder_edges [OF assms]
  show "m_nodeId b = nodes_of nfa" "nodes_of nfa' = Suc (nodes_of nfa)" "m_actions b = []" by (rule N)+
  show "builder_graph b = {}" using N(5,6) by (simp add: builder_graph_def out_edges_def)
  show "open_builder nfa' b" using N(1-6) by (simp add: open_builder_def builder_in_def)
  show "q < nodes_of nfa \<Longrightarrow> node_graph nfa' q = node_graph nfa q \<and> nfa_acts nfa' q = nfa_acts nfa q"
    using N(8) [of q] by (auto simp: node_graph_def out_edges_def)
qed

section \<open>What a generator does\<close>

text \<open>The nodes of the graph stay as they are, except for those in \<open>X\<close>; the edges of the new nodes are those of
  \<open>D\<close> that do not start at \<open>s\<close>, and the new nodes have no actions.\<close>

definition grows_by :: "NFA \<Rightarrow> NFA \<Rightarrow> nat \<Rightarrow> edge set \<Rightarrow> bool" where
  "grows_by nfa nfa' s D \<longleftrightarrow>
     nodes_of nfa \<le> nodes_of nfa' \<and>
     (\<forall>p < nodes_of nfa. p \<noteq> s \<longrightarrow> node_graph nfa' p = node_graph nfa p \<and> nfa_acts nfa' p = nfa_acts nfa p) \<and>
     (\<forall>p. nodes_of nfa \<le> p \<and> p < nodes_of nfa' \<longrightarrow> node_graph nfa' p = {e \<in> D. fst e = p} \<and> nfa_acts nfa' p = {})"

definition gen_step :: "NFA \<Rightarrow> NFANodeBuilder \<Rightarrow> nat \<Rightarrow> NFA \<Rightarrow> NFANodeBuilder \<Rightarrow> edge set \<Rightarrow> lang \<Rightarrow> bool" where
  "gen_step nfa source destination nfa' source' D L \<longleftrightarrow>
     open_builder nfa' source' \<and> m_nodeId source' = m_nodeId source \<and> m_actions source' = m_actions source \<and>
     builder_graph source' = builder_graph source \<union> {e \<in> D. fst e = m_nodeId source} \<and>
     node_graph nfa' (m_nodeId source) = node_graph nfa (m_nodeId source) \<and>
     nfa_acts nfa' (m_nodeId source) = nfa_acts nfa (m_nodeId source) \<and>
     grows_by nfa nfa' (m_nodeId source) D \<and>
     fragment (m_nodeId source) {nodes_of nfa ..< nodes_of nfa'} destination D L"

definition generates :: "generator \<Rightarrow> lang \<Rightarrow> bool" where
  "generates gen L \<longleftrightarrow>
     (\<forall>nfa source destination. open_builder nfa source \<longrightarrow> destination < nodes_of nfa \<longrightarrow> destination \<noteq> m_nodeId source \<longrightarrow>
        (\<exists>nfa' source' D. gen nfa source destination = Some (nfa', source') \<and>
           gen_step nfa source destination nfa' source' D L))"

lemma generatesE:
  assumes "generates gen L" and "open_builder nfa source" and "destination < nodes_of nfa" and "destination \<noteq> m_nodeId source"
  obtains nfa' source' D where "gen nfa source destination = Some (nfa', source')"
    "gen_step nfa source destination nfa' source' D L"
  using assms unfolding generates_def by blast

lemma generatesI:
  assumes "\<And>nfa source destination. open_builder nfa source \<Longrightarrow> destination < nodes_of nfa \<Longrightarrow> destination \<noteq> m_nodeId source \<Longrightarrow>
    \<exists>nfa' source' D. gen nfa source destination = Some (nfa', source') \<and> gen_step nfa source destination nfa' source' D L"
  shows "generates gen L"
  using assms unfolding generates_def by blast

lemma gen_stepD:
  assumes "gen_step nfa source destination nfa' source' D L"
  shows "open_builder nfa' source'" "m_nodeId source' = m_nodeId source" "m_actions source' = m_actions source"
    "builder_graph source' = builder_graph source \<union> {e \<in> D. fst e = m_nodeId source}"
    "fragment (m_nodeId source) {nodes_of nfa ..< nodes_of nfa'} destination D L" "wf_nfa nfa'"
    "nodes_of nfa \<le> nodes_of nfa'"
    "p < nodes_of nfa \<Longrightarrow> node_graph nfa' p = node_graph nfa p \<and> nfa_acts nfa' p = nfa_acts nfa p"
    "nodes_of nfa \<le> p \<Longrightarrow> p < nodes_of nfa' \<Longrightarrow> node_graph nfa' p = {e \<in> D. fst e = p} \<and> nfa_acts nfa' p = {}"
  using assms by (auto simp: gen_step_def grows_by_def open_builder_def)

lemma grows_by_refl: "grows_by nfa nfa s D"
  unfolding grows_by_def by auto

text \<open>An edge set whose edges all start at the source.\<close>

lemma generates_direct:
  assumes "\<And>nfa source destination. open_builder nfa source \<Longrightarrow> destination < nodes_of nfa \<Longrightarrow> destination \<noteq> m_nodeId source \<Longrightarrow>
    \<exists>source'. gen nfa source destination = Some (nfa, source') \<and> open_builder nfa source' \<and>
      m_nodeId source' = m_nodeId source \<and> m_actions source' = m_actions source \<and>
      builder_graph source' = builder_graph source \<union> {(m_nodeId source, a, destination) | a. a \<in> A}"
  shows "generates gen {spell a | a. a \<in> A}"
proof (rule generatesI)
  fix nfa source destination
  assume pre: "open_builder nfa source" "destination < nodes_of nfa" "destination \<noteq> m_nodeId source"
  let ?D = "{(m_nodeId source, a, destination) | a. a \<in> A}"
  have "{e \<in> ?D. fst e = m_nodeId source} = ?D" by auto
  moreover have "fragment (m_nodeId source) {nodes_of nfa ..< nodes_of nfa} destination ?D {spell a | a. a \<in> A}"
    using fragment_edges pre(3) by simp
  moreover obtain source' where s': "gen nfa source destination = Some (nfa, source')" "open_builder nfa source'"
    "m_nodeId source' = m_nodeId source" "m_actions source' = m_actions source"
    "builder_graph source' = builder_graph source \<union> ?D"
    using assms [OF pre] by blast
  ultimately have "gen_step nfa source destination nfa source' ?D {spell a | a. a \<in> A}"
    by (simp add: gen_step_def grows_by_refl)
  with s'(1) show "\<exists>nfa' source' D. gen nfa source destination = Some (nfa', source') \<and>
      gen_step nfa source destination nfa' source' D {spell a | a. a \<in> A}" by blast
qed

lemma generates_epsilon: "generates (\<lambda>nfa source destination. Some (nfa, addEpsilonTransition destination source)) {[]}"
proof -
  have "generates (\<lambda>nfa source destination. Some (nfa, addEpsilonTransition destination source)) {spell a | a. a \<in> {None}}"
    by (rule generates_direct) (auto simp: addEpsilon_open)
  then show ?thesis by simp
qed

lemma generates_charset:
  "generates (\<lambda>nfa source destination. do { source1 \<leftarrow> generateCharacterSet s source destination; Some (nfa, source1) })
    {[c] | c. charset_has s c}"
proof -
  have "{spell a | a. a \<in> {Some c | c. charset_has s c}} = {[c] | c. charset_has s c}" by force
  moreover have "generates (\<lambda>nfa source destination. do { source1 \<leftarrow> generateCharacterSet s source destination; Some (nfa, source1) })
      {spell a | a. a \<in> {Some c | c. charset_has s c}}"
  proof (rule generates_direct)
    fix nfa :: NFA and source destination
    assume pre: "open_builder nfa source" "destination < nodes_of nfa" "destination \<noteq> m_nodeId source"
    have wf: "wf_builder source" using pre(1) by (simp add: open_builder_def)
    obtain source' where s: "generateCharacterSet s source destination = Some source'" "wf_builder source'"
      "m_nodeId source' = m_nodeId source" "m_actions source' = m_actions source"
      "m_epsilonTransitionTargets source' = m_epsilonTransitionTargets source"
      "\<And>c. builder_edges source' c \<subseteq> builder_edges source c \<union> {destination}"
      using generateCharacterSet_edges [OF wf, of s destination] by blast
    have "builder_edges source' c \<subseteq> {..< nodes_of nfa}" for c
      using s(6) [of c] pre(1,2) by (auto simp: open_builder_def builder_in_def)
    then have "open_builder nfa source'" using pre(1) s(2-5) by (simp add: open_builder_def builder_in_def)
    then show "\<exists>source'. (generateCharacterSet s source destination \<bind> (\<lambda>source1. Some (nfa, source1))) = Some (nfa, source') \<and>
        open_builder nfa source' \<and> m_nodeId source' = m_nodeId source \<and> m_actions source' = m_actions source \<and>
        builder_graph source' = builder_graph source \<union>
          {(m_nodeId source, a, destination) | a. a \<in> {Some c | c. charset_has s c}}"
      using s builder_graph_charset [OF wf s(1)] by simp
  qed
  ultimately show ?thesis by simp
qed

section \<open>Quantifiers\<close>

lemma gen_step_optional:
  assumes G: "gen_step nfa source destination nfa' source' D L" and src: "m_nodeId source < nodes_of nfa"
    and dst: "destination < nodes_of nfa"
  shows "gen_step nfa source destination nfa' (addEpsilonTransition destination source')
    (insert (m_nodeId source, None, destination) D) (insert [] L)"
proof -
  let ?s = "m_nodeId source"
  let ?D = "insert (?s, None, destination) D"
  have "{e \<in> ?D. fst e = p} = {e \<in> D. fst e = p}" if "nodes_of nfa \<le> p" for p using that src by auto
  moreover have "{e \<in> ?D. fst e = ?s} = insert (?s, None, destination) {e \<in> D. fst e = ?s}" by auto
  moreover have "destination < nodes_of nfa'" using dst gen_stepD(7) [OF G] by simp
  ultimately show ?thesis
    using gen_stepD [OF G] addEpsilon_open fragment_optional [OF gen_stepD(5) [OF G]] src
    unfolding gen_step_def grows_by_def by auto
qed

lemma generates_optional:
  assumes "generates atom L"
  shows "generates (quantifiedGraph ho ZeroOrOne atom) (insert [] L)"
proof (rule generatesI)
  fix nfa source destination
  assume pre: "open_builder nfa source" "destination < nodes_of nfa" "destination \<noteq> m_nodeId source"
  obtain nfa' source' D where g: "atom nfa source destination = Some (nfa', source')"
    "gen_step nfa source destination nfa' source' D L" using generatesE [OF assms pre] .
  have "m_nodeId source < nodes_of nfa" using pre(1) by (simp add: open_builder_def)
  from gen_step_optional [OF g(2) this pre(2)] g(1)
  show "\<exists>nfa' source' D. quantifiedGraph ho ZeroOrOne atom nfa source destination = Some (nfa', source') \<and>
      gen_step nfa source destination nfa' source' D (insert [] L)" by auto
qed

lemma quantifiedGraph_more:
  "quantifiedGraph ho ZeroOrMore atom nfa source destination =
    map_option (\<lambda>(nfa', source'). (nfa', addEpsilonTransition destination source'))
      (quantifiedGraph ho OneOrMore atom nfa source destination)"
  by (auto simp: Let_def split: prod.split Option.bind_split)

lemma generates_loop:
  assumes ho: "orders_ok ho" and atom: "generates atom L"
  shows "generates (quantifiedGraph ho OneOrMore atom) (conc L (star L))"
proof (rule generatesI)
  fix nfa source destination
  assume pre: "open_builder nfa source" "destination < nodes_of nfa" "destination \<noteq> m_nodeId source"
  let ?n = "nodes_of nfa" and ?s = "m_nodeId source"
  have wf: "wf_nfa nfa" and s: "?s < ?n" using pre(1) by (simp_all add: open_builder_def)
  obtain rs nfa1 where N1: "newBuilder nfa = (rs, nfa1)" by force
  note n1 = newBuilder_graph [OF N1 wf]
  have wf1: "wf_nfa nfa1" using n1(1) by (simp add: open_builder_def)
  obtain re nfa2 where N2: "newBuilder nfa1 = (re, nfa2)" by force
  note n2 = newBuilder_graph [OF N2 wf1]
  have wf2: "wf_nfa nfa2" and len2: "nodes_of nfa2 = ?n + 2" using n2(1,3) n1(3) by (simp_all add: open_builder_def)
  have "open_builder nfa2 rs" using open_builder_mono [OF n1(1) wf2] n2(3) by simp
  then obtain nfa3 rs1 D where A: "atom nfa2 rs (m_nodeId re) = Some (nfa3, rs1)"
    and G: "gen_step nfa2 rs (m_nodeId re) nfa3 rs1 D L"
    using generatesE [OF atom, of nfa2 rs "m_nodeId re"] n1(2,3) n2(2,3) by auto
  have F: "fragment ?n {?n + 2 ..< nodes_of nfa3} (Suc ?n) D L"
    using gen_stepD(5) [OF G] n1(2,3) n2(2) len2 by simp
  let ?re = "addEpsilonTransition destination (addEpsilonTransition (m_nodeId rs1) re)"
  let ?nfa4 = "finalize ho ?re nfa3"
  let ?nfa5 = "finalize ho rs1 ?nfa4"
  let ?D = "loop_edges ?s ?n (Suc ?n) destination D"
  have wf3: "wf_nfa nfa3" and len3: "?n + 2 \<le> nodes_of nfa3" and id1: "m_nodeId rs1 = ?n" "m_nodeId re = Suc ?n"
    using gen_stepD(2,6,7) [OF G] len2 n1(2,3) n2(2) by simp_all
  have re: "open_builder nfa3 ?re"
    using open_builder_mono [OF n2(1) wf3] len3 id1 len2 pre(2) by (intro addEpsilon_open) auto
  note F4 = finalize_graph [OF ho re]
  have rs1: "open_builder ?nfa4 rs1" using open_builder_mono [OF gen_stepD(1) [OF G] F4(1)] F4(2) by simp
  note F5 = finalize_graph [OF ho rs1]
  have len5: "nodes_of ?nfa5 = nodes_of nfa3" using F4(2) F5(2) by simp
  have src: "{e \<in> ?D. fst e = ?s} = {(?s, None, ?n)}" "{e \<in> ?D. fst e = ?n} = {e \<in> D. fst e = ?n}"
    "{e \<in> ?D. fst e = Suc ?n} = {(Suc ?n, None, ?n), (Suc ?n, None, destination)}"
    using fragmentD(4) [OF F] s by (fastforce simp: loop_edges_def)+
  have old: "node_graph ?nfa5 p = node_graph nfa p \<and> nfa_acts ?nfa5 p = nfa_acts nfa p" if "p < ?n" for p
    using that F5(3,4) [of p] F4(2) F4(3,4) [of p] gen_stepD(8) [OF G, of p] n2(6) [of p] n1(6) [of p] id1 len2 len3 n1(3) by simp
  have new: "node_graph ?nfa5 p = {e \<in> ?D. fst e = p} \<and> nfa_acts ?nfa5 p = {}" if "?n \<le> p" "p < nodes_of ?nfa5" for p
  proof -
    consider "p = ?n" | "p = Suc ?n" | "?n + 2 \<le> p" using \<open>?n \<le> p\<close> by linarith
    then show ?thesis
    proof cases
      case 1
      then show ?thesis
        using F5(3,4) [of p] F4(2) len5 that(2) id1 gen_stepD(3,4) [OF G] n1(2,4,5) src(2) by simp
    next
      case 2
      then show ?thesis
        using F5(3,4) [of p] F4(2) F4(3,4) [of p] len5 that(2) id1 n2(2,4,5) src(3) by auto
    next
      case 3
      then have "{e \<in> ?D. fst e = p} = {e \<in> D. fst e = p}" using s by (auto simp: loop_edges_def)
      then show ?thesis
        using 3 F5(3,4) [of p] F4(2) F4(3,4) [of p] len5 that(2) id1 gen_stepD(9) [OF G, of p] len2 by simp
    qed
  qed
  have "{?n, Suc ?n} \<union> {?n + 2 ..< nodes_of nfa3} = {?n ..< nodes_of ?nfa5}" using len3 len5 by auto
  moreover have "fragment ?s ({?n, Suc ?n} \<union> {?n + 2 ..< nodes_of nfa3}) destination ?D (conc L (star L))"
    by (rule fragment_loop [OF F]) (use s pre(2,3) in auto)
  ultimately have frag: "fragment ?s {?n ..< nodes_of ?nfa5} destination ?D (conc L (star L))" by simp
  have "open_builder ?nfa5 (addEpsilonTransition ?n source)"
    using open_builder_mono [OF pre(1) F5(1)] len5 len3 by (intro addEpsilon_open) auto
  then have "gen_step nfa source destination ?nfa5 (addEpsilonTransition ?n source) ?D (conc L (star L))"
    unfolding gen_step_def grows_by_def using frag old new s src(1) len5 len3 by auto
  moreover have "quantifiedGraph ho OneOrMore atom nfa source destination = Some (?nfa5, addEpsilonTransition ?n source)"
    using N1 N2 A n1(2) by (simp add: Let_def)
  ultimately show "\<exists>nfa' source' D. quantifiedGraph ho OneOrMore atom nfa source destination = Some (nfa', source') \<and>
      gen_step nfa source destination nfa' source' D (conc L (star L))" by blast
qed

lemma generates_star:
  assumes "orders_ok ho" and "generates atom L"
  shows "generates (quantifiedGraph ho ZeroOrMore atom) (star L)"
proof (rule generatesI)
  fix nfa source destination
  assume pre: "open_builder nfa source" "destination < nodes_of nfa" "destination \<noteq> m_nodeId source"
  obtain nfa' source' D where g: "quantifiedGraph ho OneOrMore atom nfa source destination = Some (nfa', source')"
    "gen_step nfa source destination nfa' source' D (conc L (star L))" using generatesE [OF generates_loop [OF assms] pre] .
  have "m_nodeId source < nodes_of nfa" using pre(1) by (simp add: open_builder_def)
  from gen_step_optional [OF g(2) this pre(2)] g(1) star_unfold [of L]
  show "\<exists>nfa' source' D. quantifiedGraph ho ZeroOrMore atom nfa source destination = Some (nfa', source') \<and>
      gen_step nfa source destination nfa' source' D (star L)" by (auto simp only: quantifiedGraph_more option.map prod.case)
qed

lemma generates_quantified:
  assumes "orders_ok ho" and "generates atom L"
  shows "generates (quantifiedGraph ho q atom) (quantified q L)"
proof (cases q)
  case One
  then show ?thesis using assms(2) by (simp add: generates_def)
qed (use generates_optional generates_loop generates_star assms in \<open>simp_all del: quantifiedGraph.simps\<close>)

section \<open>Groups\<close>

lemma newEndGraph_step:
  assumes gen: "generates gen L" and src: "open_builder nfa source"
  obtains nfa' source' newEnd D where "newEndGraph gen nfa source as = Some (nfa', source', newEnd)"
    "open_builder nfa' source'" "open_builder nfa' newEnd" "m_nodeId source' = m_nodeId source"
    "m_actions source' = m_actions source" "m_nodeId newEnd = nodes_of nfa" "builder_graph newEnd = {}"
    "m_actions newEnd = hs_add_all as []" "nodes_of nfa < nodes_of nfa'"
    "builder_graph source' = builder_graph source \<union> {e \<in> D. fst e = m_nodeId source}"
    "fragment (m_nodeId source) {Suc (nodes_of nfa) ..< nodes_of nfa'} (nodes_of nfa) D L"
    "\<forall>p < nodes_of nfa. node_graph nfa' p = node_graph nfa p \<and> nfa_acts nfa' p = nfa_acts nfa p"
    "\<forall>p. nodes_of nfa < p \<and> p < nodes_of nfa' \<longrightarrow> node_graph nfa' p = {e \<in> D. fst e = p} \<and> nfa_acts nfa' p = {}"
proof -
  have wf: "wf_nfa nfa" and s: "m_nodeId source < nodes_of nfa" using src by (simp_all add: open_builder_def)
  obtain e nfa1 where N: "newBuilder nfa = (e, nfa1)" by force
  note n = newBuilder_graph [OF N wf]
  have wf1: "wf_nfa nfa1" using n(1) by (simp add: open_builder_def)
  have "open_builder nfa1 source" using open_builder_mono [OF src wf1] n(3) by simp
  then obtain nfa2 source2 D where g: "gen nfa1 source (m_nodeId e) = Some (nfa2, source2)"
    and G: "gen_step nfa1 source (m_nodeId e) nfa2 source2 D L"
    using generatesE [OF gen, of nfa1 source "m_nodeId e"] n(2,3) s by auto
  let ?e = "builder_setActions as e"
  have b: "builder_graph ?e = {}" "m_nodeId ?e = nodes_of nfa" "m_actions ?e = hs_add_all as []"
    using n(2,4,5) by (simp_all add: builder_setActions_def builder_graph_def builder_edges_def [abs_def])
  have "open_builder nfa1 ?e"
    using n(1) by (simp add: open_builder_def builder_setActions_def wf_builder_def builder_in_def builder_edges_def)
  then have e: "open_builder nfa2 ?e" using open_builder_mono gen_stepD(6,7) [OF G] by blast
  have ne: "newEndGraph gen nfa source as = Some (nfa2, source2, ?e)" using N g by (simp add: newEndGraph_def)
  have old: "\<forall>p < nodes_of nfa. node_graph nfa2 p = node_graph nfa p \<and> nfa_acts nfa2 p = nfa_acts nfa p"
    using gen_stepD(8) [OF G] n(3) n(6) by simp
  show thesis
    by (rule that [OF ne gen_stepD(1) [OF G] e gen_stepD(2,3) [OF G] b(2,1,3) _ gen_stepD(4) [OF G] _ old])
      (use gen_stepD(5,7) [OF G] gen_stepD(9) [OF G] n(2,3) in auto)
qed

definition last_step :: "NFA \<Rightarrow> NFANodeBuilder \<Rightarrow> nat \<Rightarrow> NFA \<Rightarrow> edge set \<Rightarrow> lang \<Rightarrow> bool" where
  "last_step nfa source destination nfa' D L \<longleftrightarrow>
     wf_nfa nfa' \<and> grows_by nfa nfa' (m_nodeId source) D \<and>
     node_graph nfa' (m_nodeId source) = builder_graph source \<union> {e \<in> D. fst e = m_nodeId source} \<and>
     nfa_acts nfa' (m_nodeId source) = set (m_actions source) \<and>
     fragment (m_nodeId source) {nodes_of nfa ..< nodes_of nfa'} destination D L"

lemma last_step_finalize:
  assumes ho: "orders_ok ho" and G: "gen_step nfa source destination nfa' source' D L" and s: "m_nodeId source < nodes_of nfa"
  shows "last_step nfa source destination (finalize ho source' nfa') D L"
proof -
  note F = finalize_graph [OF ho gen_stepD(1) [OF G]]
  note g = gen_stepD(2-5,7) [OF G] gen_stepD(8,9) [OF G]
  have "grows_by nfa (finalize ho source' nfa') (m_nodeId source) D"
    unfolding grows_by_def using F(2) F(3,4) g s by auto
  then show ?thesis unfolding last_step_def using F(1,2) F(3,4) [of "m_nodeId source"] g s by simp
qed

text \<open>Two fragments in a row: the first one ends at the new node \<open>m\<close>, from which the second one starts.\<close>

lemma seq_edges:
  assumes F1: "fragment s {Suc m ..< k} m D1 K" and F2: "fragment m {k ..< l} d D2 L"
    and "s < m" "d < m" "s \<noteq> d" "m < k" "k \<le> l"
  shows "fragment s {m ..< l} d (D1 \<union> D2) (conc K L)"
    and "{e \<in> D1 \<union> D2. fst e = s} = {e \<in> D1. fst e = s}" and "{e \<in> D1 \<union> D2. fst e = m} = {e \<in> D2. fst e = m}"
    and "m < p \<Longrightarrow> p < k \<Longrightarrow> {e \<in> D1 \<union> D2. fst e = p} = {e \<in> D1. fst e = p}"
    and "k \<le> p \<Longrightarrow> {e \<in> D1 \<union> D2. fst e = p} = {e \<in> D2. fst e = p}"
proof -
  have "fragment s ({Suc m ..< k} \<union> {m} \<union> {k ..< l}) d (D1 \<union> D2) (conc K L)"
    by (rule fragment_seq [OF F1 F2]) (use assms(3-7) in auto)
  moreover have "{Suc m ..< k} \<union> {m} \<union> {k ..< l} = {m ..< l}" using assms(6,7) by auto
  ultimately show "fragment s {m ..< l} d (D1 \<union> D2) (conc K L)" by simp
  have e: "fst e = s \<or> m < fst e \<and> fst e < k" if "e \<in> D1" for e using fragmentD(4) [OF F1] that by (cases e) force
  have f: "fst e = m \<or> k \<le> fst e" if "e \<in> D2" for e using fragmentD(4) [OF F2] that by (cases e) force
  show "{e \<in> D1 \<union> D2. fst e = s} = {e \<in> D1. fst e = s}" "{e \<in> D1 \<union> D2. fst e = m} = {e \<in> D2. fst e = m}"
    "m < p \<Longrightarrow> p < k \<Longrightarrow> {e \<in> D1 \<union> D2. fst e = p} = {e \<in> D1. fst e = p}"
    "k \<le> p \<Longrightarrow> {e \<in> D1 \<union> D2. fst e = p} = {e \<in> D2. fst e = p}"
    using assms(3-7) by (auto dest: e f)
qed

lemma last_step_seq:
  assumes ho: "orders_ok ho" and gen: "generates gen K" and src: "open_builder nfa source"
    and d: "destination < nodes_of nfa" "destination \<noteq> m_nodeId source"
    and rest: "\<And>nfa' newNode. open_builder nfa' newNode \<Longrightarrow> destination < nodes_of nfa' \<Longrightarrow> destination \<noteq> m_nodeId newNode \<Longrightarrow>
      \<exists>nfa'' D. rest nfa' newNode = Some nfa'' \<and> last_step nfa' newNode destination nfa'' D L"
  shows "\<exists>nfa1 source1 newNode nfa2 D. newEndGraph gen nfa source [] = Some (nfa1, source1, newNode) \<and>
    rest (finalize ho source1 nfa1) newNode = Some nfa2 \<and> last_step nfa source destination nfa2 D (conc K L)"
proof -
  let ?n = "nodes_of nfa" and ?s = "m_nodeId source"
  have s: "?s < ?n" using src by (simp add: open_builder_def)
  obtain nfa1 source1 m D1 where N: "newEndGraph gen nfa source [] = Some (nfa1, source1, m)"
    "open_builder nfa1 source1" "open_builder nfa1 m" "m_nodeId source1 = ?s" "m_actions source1 = m_actions source"
    "m_nodeId m = ?n" "builder_graph m = {}" "m_actions m = hs_add_all [] []" "?n < nodes_of nfa1"
    "builder_graph source1 = builder_graph source \<union> {e \<in> D1. fst e = ?s}"
    and F1: "fragment ?s {Suc ?n ..< nodes_of nfa1} ?n D1 K"
    and old: "\<forall>p < ?n. node_graph nfa1 p = node_graph nfa p \<and> nfa_acts nfa1 p = nfa_acts nfa p"
    and new: "\<forall>p. ?n < p \<and> p < nodes_of nfa1 \<longrightarrow> node_graph nfa1 p = {e \<in> D1. fst e = p} \<and> nfa_acts nfa1 p = {}"
    using newEndGraph_step [OF gen src, of "[]"] .
  let ?f = "finalize ho source1 nfa1"
  note F = finalize_graph [OF ho N(2)]
  have m: "open_builder ?f m" using open_builder_mono [OF N(3) F(1)] F(2) by simp
  obtain nfa2 D2 where R: "rest ?f m = Some nfa2" and L: "last_step ?f m destination nfa2 D2 L"
    using rest [OF m] d(1) F(2) N(6,9) by auto
  have G: "grows_by ?f nfa2 ?n D2" and F2: "fragment ?n {nodes_of nfa1 ..< nodes_of nfa2} destination D2 L"
    and le: "nodes_of nfa1 \<le> nodes_of nfa2" and wf2: "wf_nfa nfa2"
    and m2: "node_graph nfa2 ?n = {e \<in> D2. fst e = ?n}" "nfa_acts nfa2 ?n = {}"
    using L N(6-8) F(2) by (auto simp: last_step_def grows_by_def hs_add_all_def)
  note S = seq_edges [OF F1 F2 s d(1) d(2) [symmetric] N(9) le]
  have fin: "node_graph nfa2 p = node_graph ?f p \<and> nfa_acts nfa2 p = nfa_acts ?f p" if "p < nodes_of nfa1" "p \<noteq> ?n" for p
    using G that F(2) by (simp add: grows_by_def)
  have new2: "node_graph nfa2 p = {e \<in> D1 \<union> D2. fst e = p} \<and> nfa_acts nfa2 p = {}" if p: "?n \<le> p" "p < nodes_of nfa2" for p
  proof -
    consider "p = ?n" | "?n < p" "p < nodes_of nfa1" | "nodes_of nfa1 \<le> p" using p by linarith
    then show ?thesis
    proof cases
      case 1
      then show ?thesis using m2 S(3) by simp
    next
      case 2
      then show ?thesis using fin [of p] F(3,4) [of p] new N(4) S(4) [of p] s by auto
    next
      case 3
      then show ?thesis using G p F(2) S(5) [of p] by (simp add: grows_by_def)
    qed
  qed
  have "grows_by nfa nfa2 ?s (D1 \<union> D2)"
    unfolding grows_by_def using fin F(3,4) old new2 N(4,9) le by auto
  moreover have "node_graph nfa2 ?s = builder_graph source \<union> {e \<in> D1 \<union> D2. fst e = ?s}" "nfa_acts nfa2 ?s = set (m_actions source)"
    using fin [of ?s] F(3,4) [of ?s] N(4,5,9,10) s S(2) by auto
  ultimately have "last_step nfa source destination nfa2 (D1 \<union> D2) (conc K L)"
    using S(1) wf2 by (simp add: last_step_def)
  then show ?thesis using N(1) R by blast
qed

abbreviation term_generator :: "iteration_orders \<Rightarrow> Term \<Rightarrow> generator" where
  "term_generator ho t \<equiv> quantifiedGraph ho (m_quantifier t) (generateSubgraphForAtom ho t)"

lemma generateLastTargets_step:
  assumes ho: "orders_ok ho" and "ts \<noteq> []" and "\<forall>t \<in> set ts. generates (term_generator ho t) (term_lang t)"
    and "open_builder nfa source" and "destination < nodes_of nfa" and "destination \<noteq> m_nodeId source"
  shows "\<exists>nfa' D. generateLastTargets ho ts nfa source destination = Some nfa' \<and>
    last_step nfa source destination nfa' D (terms_lang ts)"
  using assms(2-)
proof (induction ts arbitrary: nfa source)
  case (Cons t ts)
  have t: "generates (term_generator ho t) (term_lang t)" using Cons.prems(2) by simp
  show ?case
  proof (cases ts)
    case Nil
    obtain nfa' source' D where g: "term_generator ho t nfa source destination = Some (nfa', source')"
      "gen_step nfa source destination nfa' source' D (term_lang t)" using generatesE [OF t Cons.prems(3-5)] .
    have "m_nodeId source < nodes_of nfa" using Cons.prems(3) by (simp add: open_builder_def)
    from last_step_finalize [OF ho g(2) this] g(1) Nil show ?thesis by auto
  next
    case (Cons t' ts')
    have "\<exists>nfa1 source1 newNode nfa2 D. newEndGraph (term_generator ho t) nfa source [] = Some (nfa1, source1, newNode) \<and>
      generateLastTargets ho ts (finalize ho source1 nfa1) newNode destination = Some nfa2 \<and>
      last_step nfa source destination nfa2 D (conc (term_lang t) (terms_lang ts))"
      by (rule last_step_seq [OF ho t Cons.prems(3-5)]) (use Cons.IH Cons.prems(2) Cons in auto)
    then show ?thesis using Cons by auto
  qed
qed simp

lemma generates_group:
  assumes ho: "orders_ok ho" and ts: "\<forall>t \<in> set (t # t' # ts). generates (term_generator ho t) (term_lang t)"
  shows "generates (generateSubgraphForAtom ho (GroupTerm (t # t' # ts) q)) (terms_lang (t # t' # ts))"
proof (rule generatesI)
  fix nfa source destination
  assume pre: "open_builder nfa source" "destination < nodes_of nfa" "destination \<noteq> m_nodeId source"
  let ?n = "nodes_of nfa" and ?s = "m_nodeId source"
  have s: "?s < ?n" using pre(1) by (simp add: open_builder_def)
  have t: "generates (term_generator ho t) (term_lang t)" using ts by simp
  obtain nfa1 source1 m D1 where N: "newEndGraph (term_generator ho t) nfa source [] = Some (nfa1, source1, m)"
    "open_builder nfa1 source1" "open_builder nfa1 m" "m_nodeId source1 = ?s" "m_actions source1 = m_actions source"
    "m_nodeId m = ?n" "builder_graph m = {}" "m_actions m = hs_add_all [] []" "?n < nodes_of nfa1"
    "builder_graph source1 = builder_graph source \<union> {e \<in> D1. fst e = ?s}"
    and F1: "fragment ?s {Suc ?n ..< nodes_of nfa1} ?n D1 (term_lang t)"
    and old: "\<forall>p < ?n. node_graph nfa1 p = node_graph nfa p \<and> nfa_acts nfa1 p = nfa_acts nfa p"
    and new: "\<forall>p. ?n < p \<and> p < nodes_of nfa1 \<longrightarrow> node_graph nfa1 p = {e \<in> D1. fst e = p} \<and> nfa_acts nfa1 p = {}"
    using newEndGraph_step [OF t pre(1), of "[]"] .
  obtain nfa2 D2 where R: "generateLastTargets ho (t' # ts) nfa1 m destination = Some nfa2"
    and L: "last_step nfa1 m destination nfa2 D2 (terms_lang (t' # ts))"
    using generateLastTargets_step [OF ho _ _ N(3), of "t' # ts" destination] ts pre(2) N(6,9) by auto
  have G: "grows_by nfa1 nfa2 ?n D2" and F2: "fragment ?n {nodes_of nfa1 ..< nodes_of nfa2} destination D2 (terms_lang (t' # ts))"
    and le: "nodes_of nfa1 \<le> nodes_of nfa2" and wf2: "wf_nfa nfa2"
    and m2: "node_graph nfa2 ?n = {e \<in> D2. fst e = ?n}" "nfa_acts nfa2 ?n = {}"
    using L N(6-8) by (auto simp: last_step_def grows_by_def hs_add_all_def)
  note S = seq_edges [OF F1 F2 s pre(2) pre(3) [symmetric] N(9) le]
  have fin: "node_graph nfa2 p = node_graph nfa1 p \<and> nfa_acts nfa2 p = nfa_acts nfa1 p" if "p < nodes_of nfa1" "p \<noteq> ?n" for p
    using G that by (simp add: grows_by_def)
  have new2: "node_graph nfa2 p = {e \<in> D1 \<union> D2. fst e = p} \<and> nfa_acts nfa2 p = {}" if p: "?n \<le> p" "p < nodes_of nfa2" for p
  proof -
    consider "p = ?n" | "?n < p" "p < nodes_of nfa1" | "nodes_of nfa1 \<le> p" using p by linarith
    then show ?thesis
    proof cases
      case 1
      then show ?thesis using m2 S(3) by simp
    next
      case 2
      then show ?thesis using fin [of p] new S(4) [of p] by auto
    next
      case 3
      then show ?thesis using G p S(5) [of p] by (simp add: grows_by_def)
    qed
  qed
  have "gen_step nfa source destination nfa2 source1 (D1 \<union> D2) (terms_lang (t # t' # ts))"
    unfolding gen_step_def grows_by_def
    using open_builder_mono [OF N(2) wf2 le] N(4,5,9,10) S(1,2) fin old new2 le s by simp
  moreover have "generateSubgraphForAtom ho (GroupTerm (t # t' # ts) q) nfa source destination = Some (nfa2, source1)"
    using N(1) R by simp
  ultimately show "\<exists>nfa' source' D. generateSubgraphForAtom ho (GroupTerm (t # t' # ts) q) nfa source destination =
      Some (nfa', source') \<and> gen_step nfa source destination nfa' source' D (terms_lang (t # t' # ts))" by blast
qed

lemma generates_atom:
  assumes ho: "orders_ok ho"
  shows "generates (generateSubgraphForAtom ho t) (atom_lang t)"
proof (induction t)
  case (EmptyTerm q)
  then show ?case using generates_epsilon by (simp add: generates_def)
next
  case (CharacterSetTerm s q)
  then show ?case using generates_charset [of s] by (simp add: generates_def)
next
  case (GroupTerm ts q)
  have all: "\<forall>t \<in> set ts. generates (term_generator ho t) (term_lang t)"
    using GroupTerm generates_quantified [OF ho] by (simp add: term_lang_def)
  consider "ts = []" | t where "ts = [t]" | t t' us where "ts = t # t' # us"
    by (metis list.exhaust)
  then show ?case
  proof cases
    case 1
    then show ?thesis using generates_epsilon by (simp add: generates_def)
  next
    case 2
    then show ?thesis using all by (simp add: generates_def)
  next
    case 3
    show ?thesis using generates_group [OF ho, of t t' us q] all unfolding atom_lang_Group 3 by blast
  qed
qed

theorem generateGraphTo_generates: "orders_ok ho \<Longrightarrow> generates (generateGraphTo ho t) (term_lang t)"
  unfolding generateGraphTo_def term_lang_def by (intro generates_quantified generates_atom)

end
