(* ===== verification/Nfa_To_Dfa.thy ===== *)
theory Nfa_To_Dfa
  imports Worklist Term_Graph
begin

text \<open>
  The subset construction of \<^verbatim>\<open>NFAToDFA.cpp\<close>: the epsilon closure of every node, the table of
  the sets of nodes that have a DFA node, the combined transitions of a set, and \<open>NFAToDFA::convert\<close>. The
  result runs as the NFA does: the actions of the DFA nodes entered on a word are those of the NFA
  nodes that a prefix of the word reaches.
\<close>

section \<open>The code\<close>

text \<open>The state of the loop of \<open>epsilonClosureExcludingSelf\<close>: \<open>closure\<close>, \<open>unprocessedNodes\<close> and \<open>output\<close>.\<close>

type_synonym closure_state = "nat list \<times> nat list \<times> nat list"

definition addClosureTarget :: "nat \<Rightarrow> closure_state \<Rightarrow> closure_state" where
  "addClosureTarget targetNodeId s =
     (case s of (closure, unprocessedNodes, output) \<Rightarrow>
        if targetNodeId \<in> set closure then s
        else (closure @ [targetNodeId], unprocessedNodes @ [targetNodeId], output @ [targetNodeId]))"

partial_function (option) closureLoop :: "NFA \<Rightarrow> closure_state \<Rightarrow> nat list option" where
  "closureLoop nfa s =
     (case s of (closure, unprocessedNodes, output) \<Rightarrow>
        if unprocessedNodes = [] then Some output
        else closureLoop nfa (fold addClosureTarget (epsilonTargets nfa (last unprocessedNodes))
               (closure, butlast unprocessedNodes, output)))"

declare closureLoop.simps [code]

definition epsilonClosureExcludingSelf :: "NFA \<Rightarrow> nat \<Rightarrow> nat list option" where
  "epsilonClosureExcludingSelf nfa nodeId = closureLoop nfa ([nodeId], [nodeId], [])"

definition resolveEpsilonClosures :: "NFA \<Rightarrow> (NFA \<times> nat list list) option" where
  "resolveEpsilonClosures nfa = do {
     nfaNodeClosures \<leftarrow> those (map (epsilonClosureExcludingSelf nfa) [0 ..< length (nfa_nodes nfa)]);
     Some (nfa\<lparr>epsilonTransitionsTargets := []\<rparr>, nfaNodeClosures)
   }"

definition extendSetWithClosure :: "nat list list \<Rightarrow> nat \<Rightarrow> nat list \<Rightarrow> nat list" where
  "extendSetWithClosure nfaNodeClosures nodeId s =
     (let nodeClosure = nfaNodeClosures ! nodeId
      in if nodeClosure \<noteq> [] then hs_add_all nodeClosure s else s)"

text \<open>
  A \<open>UniqueNodeIdSet\<close> is the buffer of its nodes in the order in which the set was iterated. The hash of a set is a sum over its nodes,
  before \<open>DefaultHash\<close> mixes it, so it does not depend on that order. The table of the sets is searched for an entry of the same hash whose buffer has the nodes of the set.
\<close>

definition nodeIdSetHash :: "nat list \<Rightarrow> 32 word" where
  "nodeIdSetHash nodeIdSet = foldl (\<lambda>hash nodeId. hash + of_nat nodeId) 4207445155 nodeIdSet"

definition uniqueNodeIdSet_eq :: "nat list \<Rightarrow> nat list \<Rightarrow> bool" where
  "uniqueNodeIdSet_eq buffer other \<longleftrightarrow> length buffer = length other \<and> list_all (\<lambda>nodeId. nodeId \<in> set other) buffer"

definition table_find :: "nat list \<Rightarrow> (nat list \<times> nat) list \<Rightarrow> (nat list \<times> nat) option" where
  "table_find nodeIdSet table =
     find (\<lambda>(buffer, dfaNodeId). nodeIdSetHash buffer = nodeIdSetHash nodeIdSet \<and> uniqueNodeIdSet_eq buffer nodeIdSet) table"

definition nodeSetActions :: "NFA \<Rightarrow> nat list \<Rightarrow> u64 list" where
  "nodeSetActions nfa nodes = fold (\<lambda>nfaNodeId actions. fold hs_add (actionsForNode nfa nfaNodeId) actions) nodes []"

definition translate :: "iteration_orders \<Rightarrow> NFA \<Rightarrow> nat list \<Rightarrow> DFA \<Rightarrow> ((nat list \<times> nat) \<times> DFA) option" where
  "translate ho nfa nodeIdSet dfa =
     (let actions = nodeSetActions nfa (node_order ho nodeIdSet);
          actionsStart = length (dfa_actions dfa);
          dfa1 = dfa\<lparr>dfa_actions := dfa_actions dfa @ action_order ho actions\<rparr>;
          actionsLength = length (dfa_actions dfa1) - actionsStart;
          dfaNodeId = length (dfa_nodes dfa1)
      in if actionsLength \<le> 65535
         then Some ((node_order ho nodeIdSet, dfaNodeId),
                    dfa1\<lparr>dfa_nodes := dfa_nodes dfa1 @ [setActions actionsStart actionsLength DFANode_default]\<rparr>)
         else None)"

definition closure_convert :: "nat list list \<Rightarrow> nat list \<Rightarrow> nat list" where
  "closure_convert nfaNodeClosures iterable =
     fold (\<lambda>nodeId result. hs_add_all (nfaNodeClosures ! nodeId) (hs_add nodeId result)) iterable []"

definition closure_extend :: "nat list list \<Rightarrow> nat list \<Rightarrow> nat list \<Rightarrow> nat list" where
  "closure_extend nfaNodeClosures destination iterable =
     fold (\<lambda>nodeId s. if nodeId \<in> set s then s else hs_add_all (nfaNodeClosures ! nodeId) (s @ [nodeId]))
       iterable destination"

fun combineTransitions :: "nat list list \<Rightarrow> NFA \<Rightarrow> nat list \<Rightarrow> nat list MutableRange list \<Rightarrow> nat list MutableRange list option" where
  "combineTransitions nfaNodeClosures nfa [] combinedRangeList = Some combinedRangeList"
| "combineTransitions nfaNodeClosures nfa (nodeId # buffer) combinedRangeList = do {
     rs \<leftarrow> extendRanges (closure_convert nfaNodeClosures) (closure_extend nfaNodeClosures)
            (transitionsForNode nfa nodeId) combinedRangeList;
     combineTransitions nfaNodeClosures nfa buffer rs
   }"

definition createCombinedTransition :: "nat list list \<Rightarrow> NFA \<Rightarrow> nat list \<Rightarrow> nat list item list option" where
  "createCombinedTransition nfaNodeClosures nfa buffer = do {
     combinedRangeList \<leftarrow> combineTransitions nfaNodeClosures nfa buffer [];
     Some (rangeList_items combinedRangeList)
   }"

definition getOrCreateDFANode ::
  "iteration_orders \<Rightarrow> NFA \<Rightarrow> nat list \<Rightarrow> nat list build_state \<Rightarrow> (nat \<times> nat list build_state) option" where
  "getOrCreateDFANode ho nfa nfaNodeSet st =
     (case table_find nfaNodeSet (node_table st) of
        Some (buffer, dfaNodeId) \<Rightarrow> Some (dfaNodeId, st)
      | None \<Rightarrow> do {
          (entry, dfa) \<leftarrow> translate ho nfa nfaNodeSet (out_dfa st);
          Some (snd entry, \<lparr>out_dfa = dfa, node_table = node_table st @ [entry], unprocessed = unprocessed st @ [entry]\<rparr>)
        })"

definition NFAToDFA_convert :: "iteration_orders \<Rightarrow> NFA \<Rightarrow> DFA option" where
  "NFAToDFA_convert ho nfa0 = do {
     (nfa, nfaNodeClosures) \<leftarrow> resolveEpsilonClosures nfa0;
     root \<leftarrow> nfa_root nfa;
     let initialSet = extendSetWithClosure nfaNodeClosures root [root];
     (entry, dfa) \<leftarrow> translate ho nfa initialSet DFA_default;
     st \<leftarrow> buildLoop (createCombinedTransition nfaNodeClosures nfa) (getOrCreateDFANode ho nfa)
            \<lparr>out_dfa = dfa, node_table = [entry], unprocessed = [entry]\<rparr>;
     Some (out_dfa st)
   }"

section \<open>Epsilon closures\<close>

definition eps_rel :: "NFA \<Rightarrow> (nat \<times> nat) set" where
  "eps_rel nfa = {(p, q). q \<in> nfa_eps nfa p}"

definition eps_closure :: "NFA \<Rightarrow> nat set \<Rightarrow> nat set" where
  "eps_closure nfa A = (eps_rel nfa)\<^sup>* `` A"

lemma eps_closure_mono: "A \<subseteq> B \<Longrightarrow> eps_closure nfa A \<subseteq> eps_closure nfa B"
  by (auto simp: eps_closure_def)

lemma eps_closure_extensive: "A \<subseteq> eps_closure nfa A"
  by (auto simp: eps_closure_def)

lemma eps_closure_idem [simp]: "eps_closure nfa (eps_closure nfa A) = eps_closure nfa A"
  by (auto simp: eps_closure_def dest: rtrancl_trans)

lemma eps_closure_Un: "eps_closure nfa (A \<union> B) = eps_closure nfa A \<union> eps_closure nfa B"
  by (auto simp: eps_closure_def)

lemma eps_closure_UN: "eps_closure nfa (\<Union>x \<in> X. A x) = (\<Union>x \<in> X. eps_closure nfa (A x))"
  by (auto simp: eps_closure_def)

lemma eps_closure_empty [simp]: "eps_closure nfa {} = {}" "eps_closure nfa A = {} \<longleftrightarrow> A = {}"
  by (auto simp: eps_closure_def)

lemma eps_closure_closed: "(\<And>p. p \<in> A \<Longrightarrow> nfa_eps nfa p \<subseteq> A) \<Longrightarrow> eps_closure nfa A = A"
proof -
  assume c: "\<And>p. p \<in> A \<Longrightarrow> nfa_eps nfa p \<subseteq> A"
  have "(p, q) \<in> (eps_rel nfa)\<^sup>* \<Longrightarrow> p \<in> A \<Longrightarrow> q \<in> A" for p q
    by (induction rule: rtrancl_induct) (use c in \<open>auto simp: eps_rel_def\<close>)
  then show ?thesis by (auto simp: eps_closure_def)
qed

lemma nfa_eps_less: "wf_nfa nfa \<Longrightarrow> p < length (nfa_nodes nfa) \<Longrightarrow> nfa_eps nfa p \<subseteq> {..< length (nfa_nodes nfa)}"
  by (auto simp: wf_nfa_iff wf_nfa_node_def nfa_eps_def list_all_iff Let_def)

lemma eps_closure_less:
  assumes "wf_nfa nfa" and "A \<subseteq> {..< length (nfa_nodes nfa)}"
  shows "eps_closure nfa A \<subseteq> {..< length (nfa_nodes nfa)}"
  using eps_closure_mono [OF assms(2)] eps_closure_closed [of "{..< length (nfa_nodes nfa)}" nfa] nfa_eps_less [OF assms(1)]
  by auto

lemma addClosureTarget_simp:
  "addClosureTarget t (c, u, out) = (if t \<in> set c then (c, u, out) else (c @ [t], u @ [t], out @ [t]))"
  by (simp add: addClosureTarget_def)

lemma addClosureTargets:
  "fold addClosureTarget ts (c, u, out) = (c', u', out') \<Longrightarrow>
    \<exists>new. c' = c @ new \<and> u' = u @ new \<and> out' = out @ new \<and> set c' = set c \<union> set ts \<and>
      (distinct c \<longrightarrow> distinct c')"
proof (induction ts arbitrary: c u out)
  case (Cons t ts)
  show ?case
  proof (cases "t \<in> set c")
    case True
    then have "fold addClosureTarget ts (c, u, out) = (c', u', out')" using Cons.prems by (simp add: addClosureTarget_simp)
    from Cons.IH [OF this] show ?thesis using True by auto
  next
    case False
    then have "fold addClosureTarget ts (c @ [t], u @ [t], out @ [t]) = (c', u', out')"
      using Cons.prems by (simp add: addClosureTarget_simp)
    from Cons.IH [OF this] show ?thesis using False by auto
  qed
qed simp

definition closure_inv :: "NFA \<Rightarrow> nat \<Rightarrow> closure_state \<Rightarrow> bool" where
  "closure_inv nfa p s \<longleftrightarrow>
     (case s of (c, u, out) \<Rightarrow> p # out = c \<and> distinct c \<and> set c \<subseteq> {..< length (nfa_nodes nfa)} \<and> set u \<subseteq> set c \<and>
        set c \<subseteq> eps_closure nfa {p} \<and> (\<forall>q \<in> set c - set u. nfa_eps nfa q \<subseteq> set c))"

lemma closure_inv_step:
  assumes wf: "wf_nfa nfa" and inv: "closure_inv nfa p (c, u @ [q], out)"
    and f: "fold addClosureTarget (epsilonTargets nfa q) (c, u, out) = s'"
  shows "closure_inv nfa p s'"
    "\<exists>new. s' = (c @ new, u @ new, out @ new) \<and> length (c @ new) \<le> length (nfa_nodes nfa)"
proof -
  obtain c' u' out' where s': "s' = (c', u', out')" by (cases s')
  obtain new where new: "c' = c @ new" "u' = u @ new" "out' = out @ new" "set c' = set c \<union> nfa_eps nfa q" "distinct c \<longrightarrow> distinct c'"
    using addClosureTargets [OF f [unfolded s']] by (auto simp: nfa_eps_def)
  have I: "p # out = c" "distinct c" "set c \<subseteq> {..< length (nfa_nodes nfa)}" "set u \<subseteq> set c" "q \<in> set c"
    "set c \<subseteq> eps_closure nfa {p}" "\<forall>x \<in> set c - set (u @ [q]). nfa_eps nfa x \<subseteq> set c"
    using inv by (simp_all add: closure_inv_def)
  have "q \<in> eps_closure nfa {p}" using I(5,6) by blast
  then have "nfa_eps nfa q \<subseteq> eps_closure nfa {p}"
    by (auto simp: eps_closure_def eps_rel_def intro: rtrancl_into_rtrancl)
  moreover have "nfa_eps nfa q \<subseteq> {..< length (nfa_nodes nfa)}" using nfa_eps_less [OF wf] I(3,5) by blast
  moreover have "\<forall>x \<in> set c' - set u'. nfa_eps nfa x \<subseteq> set c'"
  proof
    fix x
    assume "x \<in> set c' - set u'"
    then have "x \<in> set c" "x \<notin> set u" using new by auto
    then show "nfa_eps nfa x \<subseteq> set c'" using I(7) new(4) by (cases "x = q") auto
  qed
  ultimately show "closure_inv nfa p s'" using I new by (auto simp: closure_inv_def s')
  then have "distinct c'" "set c' \<subseteq> {..< length (nfa_nodes nfa)}" by (auto simp: closure_inv_def s')
  then have "length c' \<le> length (nfa_nodes nfa)" using card_mono [of "{..< length (nfa_nodes nfa)}" "set c'"] by (simp add: distinct_card)
  then show "\<exists>new. s' = (c @ new, u @ new, out @ new) \<and> length (c @ new) \<le> length (nfa_nodes nfa)"
    using new s' by blast
qed

lemma closureLoop_closure:
  assumes "wf_nfa nfa" and "closure_inv nfa p s" and "length (fst s) \<le> length (nfa_nodes nfa)"
  shows "\<exists>out. closureLoop nfa s = Some out \<and> insert p (set out) = eps_closure nfa {p}"
  using assms(2,3)
proof (induction "2 * (length (nfa_nodes nfa) - length (fst s)) + length (fst (snd s))" arbitrary: s rule: less_induct)
  case less
  obtain c u out where s: "s = (c, u, out)" by (cases s)
  show ?case
  proof (cases u rule: rev_exhaust)
    case Nil
    then have "insert p (set out) \<subseteq> eps_closure nfa {p}" and e: "\<forall>q \<in> insert p (set out). nfa_eps nfa q \<subseteq> insert p (set out)"
      using less.prems(1) by (auto simp: closure_inv_def s simp flip: list.simps(15))
    moreover have "eps_closure nfa (insert p (set out)) = insert p (set out)"
      by (rule eps_closure_closed) (use e in blast)
    moreover have "eps_closure nfa {p} \<subseteq> eps_closure nfa (insert p (set out))" by (rule eps_closure_mono) simp
    ultimately show ?thesis using s Nil by (subst closureLoop.simps) auto
  next
    case (snoc v q)
    obtain new where n: "fold addClosureTarget (epsilonTargets nfa q) (c, v, out) = (c @ new, v @ new, out @ new)"
      "length (c @ new) \<le> length (nfa_nodes nfa)" and inv: "closure_inv nfa p (c @ new, v @ new, out @ new)"
      using closure_inv_step [OF assms(1) less.prems(1) [unfolded s snoc] refl] by fastforce
    have "\<exists>r. closureLoop nfa (c @ new, v @ new, out @ new) = Some r \<and> insert p (set r) = eps_closure nfa {p}"
      by (rule less.hyps) (use n(2) inv snoc s in \<open>auto simp del: fold_append\<close>)
    then show ?thesis using s snoc n(1) by (subst closureLoop.simps) simp
  qed
qed

lemma epsilonClosureExcludingSelf_closure:
  assumes "wf_nfa nfa" and "p < length (nfa_nodes nfa)"
  shows "\<exists>out. epsilonClosureExcludingSelf nfa p = Some out \<and> insert p (set out) = eps_closure nfa {p}"
  unfolding epsilonClosureExcludingSelf_def
  by (rule closureLoop_closure) (use assms in \<open>auto simp: closure_inv_def eps_closure_def\<close>)

definition closures_ok :: "NFA \<Rightarrow> nat list list \<Rightarrow> bool" where
  "closures_ok nfa cl \<longleftrightarrow> wf_nfa nfa \<and> length cl = length (nfa_nodes nfa) \<and>
     (\<forall>p < length cl. insert p (set (cl ! p)) = eps_closure nfa {p})"

lemma those_map: "(\<And>x. x \<in> set xs \<Longrightarrow> f x = Some (g x)) \<Longrightarrow> those (map f xs) = Some (map g xs)"
  by (induction xs) auto

lemma resolveEpsilonClosures_ok:
  assumes "wf_nfa nfa"
  shows "\<exists>cl. resolveEpsilonClosures nfa = Some (nfa\<lparr>epsilonTransitionsTargets := []\<rparr>, cl) \<and> closures_ok nfa cl"
proof -
  obtain g where g: "\<And>p. p < length (nfa_nodes nfa) \<Longrightarrow> epsilonClosureExcludingSelf nfa p = Some (g p) \<and>
      insert p (set (g p)) = eps_closure nfa {p}"
    using epsilonClosureExcludingSelf_closure [OF assms] by metis
  then have "those (map (epsilonClosureExcludingSelf nfa) [0 ..< length (nfa_nodes nfa)]) = Some (map g [0 ..< length (nfa_nodes nfa)])"
    by (intro those_map) auto
  moreover have "closures_ok nfa (map g [0 ..< length (nfa_nodes nfa)])"
    using assms g by (simp add: closures_ok_def)
  ultimately show ?thesis by (simp add: resolveEpsilonClosures_def)
qed


section \<open>Sets of nodes\<close>

definition node_set_ok :: "NFA \<Rightarrow> nat list list \<Rightarrow> nat list \<Rightarrow> bool" where
  "node_set_ok nfa cl S \<longleftrightarrow> closures_ok nfa cl \<and> S \<noteq> [] \<and> distinct S \<and> set S \<subseteq> {..< length (nfa_nodes nfa)} \<and>
     eps_closure nfa (set S) = set S"

lemma closures_nth: "closures_ok nfa cl \<Longrightarrow> p < length (nfa_nodes nfa) \<Longrightarrow> insert p (set (cl ! p)) = eps_closure nfa {p}"
  by (simp add: closures_ok_def)

lemma closure_convert_fold:
  assumes "closures_ok nfa cl" and "set ts \<subseteq> {..< length (nfa_nodes nfa)}"
  shows "set (fold (\<lambda>p r. hs_add_all (cl ! p) (hs_add p r)) ts acc) = set acc \<union> eps_closure nfa (set ts)"
    "distinct acc \<Longrightarrow> distinct (fold (\<lambda>p r. hs_add_all (cl ! p) (hs_add p r)) ts acc)"
  using assms(2)
proof (induction ts arbitrary: acc)
  case (Cons t ts)
  {
    case 1
    have "eps_closure nfa (set (t # ts)) = insert t (set (cl ! t)) \<union> eps_closure nfa (set ts)"
      using closures_nth [OF assms(1), of t] 1 eps_closure_Un [of nfa "{t}" "set ts"] by simp
    then show ?case using Cons.IH(1) 1 by auto
  next
    case 2
    then show ?case using Cons.IH(2) by simp
  }
qed simp_all

lemma closure_extend_fold:
  assumes "closures_ok nfa cl" and "set ts \<subseteq> {..< length (nfa_nodes nfa)}" and "eps_closure nfa (set d) = set d"
  shows "set (closure_extend cl d ts) = set d \<union> eps_closure nfa (set ts) \<and> (distinct d \<longrightarrow> distinct (closure_extend cl d ts))"
  using assms(2,3)
proof (induction ts arbitrary: d)
  case (Cons t ts)
  have e: "eps_closure nfa (set (t # ts)) = eps_closure nfa {t} \<union> eps_closure nfa (set ts)"
    using eps_closure_Un [of nfa "{t}" "set ts"] by simp
  have n: "insert t (set (cl ! t)) = eps_closure nfa {t}" using closures_nth [OF assms(1), of t] Cons.prems by simp
  show ?case
  proof (cases "t \<in> set d")
    case True
    then have "eps_closure nfa {t} \<subseteq> set d" using eps_closure_mono [of "{t}" "set d" nfa] Cons.prems(2) by simp
    moreover have "closure_extend cl d (t # ts) = closure_extend cl d ts" using True by (simp add: closure_extend_def)
    ultimately show ?thesis using Cons.IH [of d] Cons.prems e by auto
  next
    case False
    let ?d = "hs_add_all (cl ! t) (d @ [t])"
    have s: "set ?d = set d \<union> eps_closure nfa {t}" using n by auto
    then have "eps_closure nfa (set ?d) = set ?d" using Cons.prems(2) by (simp add: eps_closure_Un)
    moreover have "closure_extend cl d (t # ts) = closure_extend cl ?d ts" using False by (simp add: closure_extend_def)
    moreover have "distinct d \<longrightarrow> distinct ?d" using False by simp
    ultimately show ?thesis using Cons.IH [of ?d] Cons.prems e s by auto
  qed
qed (simp add: closure_extend_def)

lemma node_set_ok_closure:
  assumes "closures_ok nfa cl" and "A \<noteq> {}" and "A \<subseteq> {..< length (nfa_nodes nfa)}" and "distinct S" and "set S = eps_closure nfa A"
  shows "node_set_ok nfa cl S"
proof -
  have "set S \<noteq> {}" using assms(2,5) by simp
  then show ?thesis using assms eps_closure_less [of nfa A] by (auto simp: node_set_ok_def closures_ok_def simp del: eps_closure_empty)
qed

interpretation closure_conv: range_data_converter "closure_convert cl" "closure_extend cl"
  "node_set_ok nfa cl" "node_set_ok nfa cl"
  "\<lambda>ts. closures_ok nfa cl \<and> ts \<noteq> [] \<and> set ts \<subseteq> {..< length (nfa_nodes nfa)}" set "\<lambda>ts. eps_closure nfa (set ts)" for nfa cl
proof unfold_locales
  fix e
  assume e: "closures_ok nfa cl \<and> e \<noteq> [] \<and> set e \<subseteq> {..< length (nfa_nodes nfa)}"
  then show c: "set (closure_convert cl e) = eps_closure nfa (set e)"
    using closure_convert_fold(1) [of nfa cl e "[]"] by (simp add: closure_convert_def)
  have "distinct (closure_convert cl e)"
    using e closure_convert_fold(2) [of nfa cl e "[]"] by (simp add: closure_convert_def)
  then show "node_set_ok nfa cl (closure_convert cl e)"
    using e c by (intro node_set_ok_closure [where A = "set e"]) auto
  fix d
  assume d: "node_set_ok nfa cl d"
  have x: "set (closure_extend cl d e) = set d \<union> eps_closure nfa (set e) \<and> distinct (closure_extend cl d e)"
    using closure_extend_fold [of nfa cl e d] e d by (simp add: node_set_ok_def)
  then show "set (closure_extend cl d e) = set d \<union> eps_closure nfa (set e)" by simp
  have "set (closure_extend cl d e) = eps_closure nfa (set d \<union> set e)" using x d by (simp add: eps_closure_Un node_set_ok_def)
  then show "node_set_ok nfa cl (closure_extend cl d e)"
    using e d x by (intro node_set_ok_closure [where A = "set d \<union> set e"]) (auto simp: node_set_ok_def)
qed

section \<open>The transitions of a set of nodes\<close>

abbreviation no_eps :: "NFA \<Rightarrow> NFA" where
  "no_eps nfa \<equiv> nfa\<lparr>epsilonTransitionsTargets := []\<rparr>"

lemma no_eps_simps [simp]:
  "transitionsForNode (no_eps nfa) p = transitionsForNode nfa p"
  "actionsForNode (no_eps nfa) p = actionsForNode nfa p"
  "nfa_root (no_eps nfa) = nfa_root nfa"
  by (simp_all add: transitionsForNode_def actionsForNode_def range_targets_def nfa_root_def cong: map_cong)

lemma node_transitions_ok:
  assumes "closures_ok nfa cl" and "p < length (nfa_nodes nfa)"
  shows "items_from 0 (transitionsForNode nfa p)"
    "\<forall>(f, l, ts) \<in> set (transitionsForNode nfa p). closures_ok nfa cl \<and> ts \<noteq> [] \<and> set ts \<subseteq> {..< length (nfa_nodes nfa)}"
proof -
  have "wf_nfa_node nfa p" using assms by (simp add: closures_ok_def wf_nfa_iff)
  then show "items_from 0 (transitionsForNode nfa p)"
    "\<forall>(f, l, ts) \<in> set (transitionsForNode nfa p). closures_ok nfa cl \<and> ts \<noteq> [] \<and> set ts \<subseteq> {..< length (nfa_nodes nfa)}"
    using assms(1) by (fastforce simp: wf_nfa_node_def list_all_iff Let_def)+
qed

lemma targets_at_closure:
  "targets_at (\<lambda>ts. eps_closure nfa (set ts)) (transitionsForNode nfa p) c = eps_closure nfa (nfa_edges nfa p c)"
  by (simp add: targets_at_def nfa_edges_def split: option.split)

lemma combineTransitions_targets:
  assumes "closures_ok nfa cl" and "set buf \<subseteq> {..< length (nfa_nodes nfa)}"
    and "range_list m" and "\<forall>(f, l, d) \<in> set (rangeList_items m). node_set_ok nfa cl d"
  shows "\<exists>m'. combineTransitions cl (no_eps nfa) buf m = Some m' \<and> range_list m' \<and>
    (\<forall>(f, l, d) \<in> set (rangeList_items m'). node_set_ok nfa cl d) \<and>
    (\<forall>c. targets_at set (rangeList_items m') c =
      targets_at set (rangeList_items m) c \<union> (\<Union>p \<in> set buf. eps_closure nfa (nfa_edges nfa p c)))"
  using assms(2,3,4)
proof (induction buf arbitrary: m)
  case (Cons p buf)
  have p: "p < length (nfa_nodes nfa)" using Cons.prems(1) by simp
  obtain m1 where m1: "extendRanges (closure_convert cl) (closure_extend cl) (transitionsForNode nfa p) m = Some m1" "range_list m1"
    "\<forall>(f, l, d) \<in> set (rangeList_items m1). node_set_ok nfa cl d"
    "\<And>c. targets_at set (rangeList_items m1) c = targets_at set (rangeList_items m) c \<union> eps_closure nfa (nfa_edges nfa p c)"
    using closure_conv.extend_targets [OF Cons.prems(2,3) node_transitions_ok [OF assms(1) p]] unfolding targets_at_closure by blast
  obtain m' where m': "combineTransitions cl (no_eps nfa) buf m1 = Some m'" "range_list m'"
    "\<forall>(f, l, d) \<in> set (rangeList_items m'). node_set_ok nfa cl d"
    "\<And>c. targets_at set (rangeList_items m') c =
      targets_at set (rangeList_items m1) c \<union> (\<Union>q \<in> set buf. eps_closure nfa (nfa_edges nfa q c))"
    using Cons.IH [OF _ m1(2,3)] Cons.prems(1) by auto
  show ?case using m1(1) m' by (intro exI [of _ m']) (auto simp: m1(4))
qed simp

definition subset_step :: "NFA \<Rightarrow> nat set \<Rightarrow> nat \<Rightarrow> nat set option" where
  "subset_step nfa S c =
     (let T = eps_closure nfa (\<Union>p \<in> S. nfa_edges nfa p (int c)) in if T = {} then None else Some T)"

lemma createCombinedTransition_step:
  assumes "node_set_ok nfa cl S"
  shows "\<exists>rs. createCombinedTransition cl (no_eps nfa) S = Some rs \<and> items_from 0 rs \<and>
    (\<forall>(f, l, d) \<in> set rs. node_set_ok nfa cl d) \<and>
    (\<forall>c < 128. map_option set (item_lookup rs (int c)) = subset_step nfa (set S) c)"
proof -
  obtain m where m: "combineTransitions cl (no_eps nfa) S [] = Some m" "range_list m"
    "\<forall>(f, l, d) \<in> set (rangeList_items m). node_set_ok nfa cl d"
    "\<And>c. targets_at set (rangeList_items m) c = (\<Union>p \<in> set S. eps_closure nfa (nfa_edges nfa p c))"
    using combineTransitions_targets [of nfa cl S "[]"] assms by (auto simp: node_set_ok_def targets_at_def)
  have srt: "items_from 0 (rangeList_items m)" using range_list_sorted [OF m(2)] .
  have ok: "node_set_ok nfa cl d" if "item_lookup (rangeList_items m) c = Some d" for c d
    using m(3) that item_data_lookup [OF srt] by blast
  have "map_option set (item_lookup (rangeList_items m) (int c)) = subset_step nfa (set S) c" for c
  proof -
    define T where "T = (\<Union>p \<in> set S. eps_closure nfa (nfa_edges nfa p (int c)))"
    have T: "targets_at set (rangeList_items m) (int c) = T" "subset_step nfa (set S) c = (if T = {} then None else Some T)"
      by (simp_all only: m(4) T_def subset_step_def Let_def eps_closure_UN)
    show ?thesis using T(1) ok [of "int c"] unfolding T(2)
      by (cases "item_lookup (rangeList_items m) (int c)") (auto simp: targets_at_def node_set_ok_def)
  qed
  then show ?thesis using m srt by (simp add: createCombinedTransition_def)
qed


section \<open>The table of node sets\<close>

lemma find_SomeD: "find P xs = Some x \<Longrightarrow> x \<in> set xs \<and> P x"
  by (induction xs) (auto split: if_splits)

lemma nodeIdSetHash_sum: "nodeIdSetHash xs = 4207445155 + sum_list (map of_nat xs)"
proof -
  have "foldl (\<lambda>hash nodeId. hash + of_nat nodeId) h xs = h + sum_list (map of_nat xs)" for h :: "32 word"
    by (induction xs arbitrary: h) (simp_all add: add.assoc)
  then show ?thesis by (simp only: nodeIdSetHash_def)
qed

lemma nodeIdSetHash_set:
  assumes "distinct xs" and "distinct ys" and "set xs = set ys"
  shows "nodeIdSetHash xs = nodeIdSetHash ys"
  using assms by (simp add: nodeIdSetHash_sum sum_list_distinct_conv_sum_set)

lemma uniqueNodeIdSet_eq_iff:
  assumes "distinct xs" and "distinct ys"
  shows "uniqueNodeIdSet_eq xs ys \<longleftrightarrow> set xs = set ys"
proof
  assume "uniqueNodeIdSet_eq xs ys"
  then have "set xs \<subseteq> set ys" "card (set xs) = card (set ys)"
    using assms by (auto simp: uniqueNodeIdSet_eq_def list_all_iff distinct_card)
  then show "set xs = set ys" by (intro card_subset_eq) auto
next
  assume "set xs = set ys"
  moreover have "length xs = length ys" using assms calculation by (metis distinct_card)
  ultimately show "uniqueNodeIdSet_eq xs ys" by (simp add: uniqueNodeIdSet_eq_def list_all_iff)
qed

lemma table_find_set:
  assumes "distinct S" and "\<forall>(k, i) \<in> set tab. distinct k"
  shows "table_find S tab = find (\<lambda>(k, i). set k = set S) tab"
proof -
  have "(nodeIdSetHash k = nodeIdSetHash S \<and> uniqueNodeIdSet_eq k S) = (set k = set S)" if "(k, i) \<in> set tab" for k i
    using that assms nodeIdSetHash_set [of k S] uniqueNodeIdSet_eq_iff [of k S] by auto
  then show ?thesis unfolding table_find_def by (intro find_cong) auto
qed

lemma nodeSetActions_set:
  "set (nodeSetActions nfa S) = (\<Union>p \<in> set S. nfa_acts nfa p)" "distinct (nodeSetActions nfa S)"
proof -
  have "set (fold (\<lambda>p as. fold hs_add (actionsForNode nfa p) as) S acc) = set acc \<union> (\<Union>p \<in> set S. nfa_acts nfa p) \<and>
    (distinct acc \<longrightarrow> distinct (fold (\<lambda>p as. fold hs_add (actionsForNode nfa p) as) S acc))" for acc
    by (induction S arbitrary: acc) (auto simp: nfa_acts_def simp flip: hs_add_all_def)
  from this [of "[]"] show "set (nodeSetActions nfa S) = (\<Union>p \<in> set S. nfa_acts nfa p)" "distinct (nodeSetActions nfa S)"
    by (simp_all add: nodeSetActions_def)
qed

definition subset_acts :: "NFA \<Rightarrow> nat set \<Rightarrow> u64 set" where
  "subset_acts nfa S = (\<Union>p \<in> S. nfa_acts nfa p)"

definition key_ok :: "iteration_orders \<Rightarrow> NFA \<Rightarrow> nat list list \<Rightarrow> nat list \<Rightarrow> bool" where
  "key_ok ho nfa cl S \<longleftrightarrow> orders_ok ho \<and> card (set (nfa_actions nfa)) < 2 ^ 16 \<and> node_set_ok nfa cl S"

lemma node_actions_table: "nfa_acts nfa p \<subseteq> set (nfa_actions nfa)"
  by (auto simp: nfa_acts_def actionsForNode_def slice_def Let_def dest: in_set_takeD in_set_dropD)

lemma translate_add_node:
  assumes "key_ok ho nfa cl S"
  shows "\<exists>k as. translate ho (no_eps nfa) S d = Some ((k, length (dfa_nodes d)),
      d\<lparr>dfa_actions := dfa_actions d @ as, dfa_nodes := dfa_nodes d @ [setActions (length (dfa_actions d)) (length as) DFANode_default]\<rparr>) \<and>
    key_ok ho nfa cl k \<and> set k = set S \<and> set as = subset_acts nfa (set S) \<and> length as < 2 ^ 16"
proof -
  have S: "distinct S" and ho: "enumerates (node_order ho)" "enumerates (action_order ho)"
    using assms by (simp_all add: key_ok_def node_set_ok_def orders_ok_def)
  note k = enumerates_set [OF ho(1) S] enumerates_distinct [OF ho(1) S]
  define as where "as = action_order ho (nodeSetActions (no_eps nfa) (node_order ho S))"
  have "nfa_acts (no_eps nfa) p = nfa_acts nfa p" for p by (simp add: nfa_acts_def)
  then have as: "set as = subset_acts nfa (set S)" "distinct as"
    using nodeSetActions_set [of "no_eps nfa" "node_order ho S"] enumerates_set [OF ho(2)] enumerates_distinct [OF ho(2)] k(1)
    by (simp_all add: as_def subset_acts_def)
  have "set as \<subseteq> set (nfa_actions nfa)" using as(1) node_actions_table by (auto simp: subset_acts_def)
  then have len: "length as < 2 ^ 16"
    using as(2) card_mono [of "set (nfa_actions nfa)" "set as"] assms by (simp add: distinct_card key_ok_def)
  have ko: "key_ok ho nfa cl (node_order ho S)"
    using assms k by (auto simp: key_ok_def node_set_ok_def)
  show ?thesis
    using len as k(1) ko by (intro exI [of _ "node_order ho S"] exI [of _ as]) (simp add: translate_def Let_def flip: as_def)
qed

interpretation subset: worklist "createCombinedTransition cl (no_eps nfa)" "getOrCreateDFANode ho (no_eps nfa)"
  set set "key_ok ho nfa cl" "key_ok ho nfa cl" "Pow {..< length (nfa_nodes nfa)}" "subset_step nfa" "subset_acts nfa" for ho nfa cl
proof unfold_locales
  fix k
  assume "key_ok ho nfa cl k"
  then show "\<exists>rs. createCombinedTransition cl (no_eps nfa) k = Some rs \<and> items_from 0 rs \<and>
      (\<forall>(f, l, r) \<in> set rs. key_ok ho nfa cl r) \<and>
      (\<forall>c < 128. map_option set (item_lookup rs (int c)) = subset_step nfa (set k) c)"
    using createCombinedTransition_step [of nfa cl k] by (fastforce simp: key_ok_def)
next
  fix r and st :: "nat list build_state"
  assume r: "key_ok ho nfa cl r" and tab: "\<forall>(k, i) \<in> set (node_table st). key_ok ho nfa cl k"
  have f: "table_find r (node_table st) = find (\<lambda>(k, i). set k = set r) (node_table st)"
    by (rule table_find_set) (use r tab in \<open>auto simp: key_ok_def node_set_ok_def\<close>)
  show "(\<exists>k i. (k, i) \<in> set (node_table st) \<and> set k = set r \<and> getOrCreateDFANode ho (no_eps nfa) r st = Some (i, st)) \<or>
      (set r \<notin> set ` fst ` set (node_table st) \<and>
       (\<exists>k as. key_ok ho nfa cl k \<and> set k = set r \<and> set as = subset_acts nfa (set r) \<and> length as < 2 ^ 16 \<and>
         getOrCreateDFANode ho (no_eps nfa) r st = Some (length (dfa_nodes (out_dfa st)), add_node k as st)))"
  proof (cases "find (\<lambda>(k, i). set k = set r) (node_table st)")
    case None
    then have "set r \<notin> set ` fst ` set (node_table st)" by (auto simp: find_None_iff)
    moreover obtain k as where "translate ho (no_eps nfa) r (out_dfa st) = Some ((k, length (dfa_nodes (out_dfa st))),
      (out_dfa st)\<lparr>dfa_actions := dfa_actions (out_dfa st) @ as,
        dfa_nodes := dfa_nodes (out_dfa st) @ [setActions (length (dfa_actions (out_dfa st))) (length as) DFANode_default]\<rparr>)"
      "key_ok ho nfa cl k" "set k = set r" "set as = subset_acts nfa (set r)" "length as < 2 ^ 16"
      using translate_add_node [OF r] by blast
    ultimately show ?thesis
      using None f by (intro disjI2) (auto simp: getOrCreateDFANode_def add_node_def Let_def)
  next
    case (Some e)
    then have "e \<in> set (node_table st)" "set (fst e) = set r"
      using find_SomeD [of "\<lambda>(k, i). set k = set r" "node_table st" e] by (simp_all add: case_prod_beta)
    moreover obtain k i where "e = (k, i)" by (cases e)
    moreover from this have "getOrCreateDFANode ho (no_eps nfa) r st = Some (i, st)" using Some f by (simp add: getOrCreateDFANode_def)
    ultimately show ?thesis by (intro disjI1 exI [of _ k] exI [of _ i]) simp
  qed
qed (auto simp: key_ok_def node_set_ok_def)


section \<open>The language of the NFA\<close>

text \<open>The edges of an NFA, and the actions of the nodes that a prefix of a word reaches from the root.\<close>

definition nfa_graph :: "NFA \<Rightarrow> edge set" where
  "nfa_graph nfa = (\<Union>p < length (nfa_nodes nfa). node_graph nfa p)"

definition reached :: "NFA \<Rightarrow> nat set \<Rightarrow> nat list \<Rightarrow> nat set" where
  "reached nfa S w = {q. \<exists>p \<in> S. path (nfa_graph nfa) p w q}"

definition nfa_visit :: "NFA \<Rightarrow> nat list \<Rightarrow> u64 set" where
  "nfa_visit nfa w = {a. \<exists>u v q. w = u @ v \<and> path (nfa_graph nfa) 0 u q \<and> a \<in> nfa_acts nfa q}"

lemma nfa_graph_iff:
  "(p, a, q) \<in> nfa_graph nfa \<longleftrightarrow> p < length (nfa_nodes nfa) \<and>
     (case a of None \<Rightarrow> q \<in> nfa_eps nfa p | Some c \<Rightarrow> q \<in> nfa_edges nfa p (int c))"
  by (auto simp: nfa_graph_def node_graph_def out_edges_def split: option.split)

lemma path_eps_prefix:
  assumes "path (nfa_graph nfa) p w r" and "p \<in> S" and "eps_closure nfa S = S"
  shows "(w = [] \<longrightarrow> r \<in> S) \<and> (\<forall>c v. w = c # v \<longrightarrow>
    r \<in> reached nfa (eps_closure nfa (\<Union>p \<in> S. nfa_edges nfa p (int c))) v)"
  using assms(1,2)
proof (induction rule: path.induct)
  case (path_step p a q w r)
  show ?case
  proof (cases a)
    case None
    then have "q \<in> nfa_eps nfa p" using path_step.hyps by (simp add: nfa_graph_iff)
    then have "(p, q) \<in> (eps_rel nfa)\<^sup>*" by (simp add: eps_rel_def r_into_rtrancl)
    then have "q \<in> eps_closure nfa S" unfolding eps_closure_def using path_step.prems by (rule ImageI)
    then show ?thesis using path_step.IH None assms(3) by simp
  next
    case (Some c)
    then have "q \<in> nfa_edges nfa p (int c)" using path_step.hyps by (simp add: nfa_graph_iff)
    then have "q \<in> (\<Union>p \<in> S. nfa_edges nfa p (int c))" using path_step.prems by blast
    then have "q \<in> eps_closure nfa (\<Union>p \<in> S. nfa_edges nfa p (int c))"
      by (rule subsetD [OF eps_closure_extensive])
    then show ?thesis using Some path_step.hyps(2) by (auto simp: reached_def)
  qed
qed simp

lemma eps_path:
  assumes "wf_nfa nfa" and "p < length (nfa_nodes nfa)" and "(p, q) \<in> (eps_rel nfa)\<^sup>*"
  shows "path (nfa_graph nfa) p [] q \<and> q < length (nfa_nodes nfa)"
  using assms(3)
proof (induction rule: rtrancl_induct)
  case base
  then show ?case using assms(2) by (simp add: path_refl)
next
  case (step x y)
  then have "(x, None, y) \<in> nfa_graph nfa" by (simp add: nfa_graph_iff eps_rel_def)
  from path_append [OF conjunct1 [OF step.IH] path_edge [OF this]] show ?case
    using nfa_eps_less [OF assms(1) conjunct2 [OF step.IH]] step.hyps by (auto simp: eps_rel_def)
qed

lemma nfa_edges_less:
  assumes "wf_nfa nfa" and "p < length (nfa_nodes nfa)"
  shows "nfa_edges nfa p c \<subseteq> {..< length (nfa_nodes nfa)}"
proof -
  have n: "items_from 0 (transitionsForNode nfa p)"
    "\<forall>(f, l, ts) \<in> set (transitionsForNode nfa p). set ts \<subseteq> {..< length (nfa_nodes nfa)}"
    using assms by (fastforce simp: wf_nfa_iff wf_nfa_node_def list_all_iff Let_def)+
  then show ?thesis using item_data_lookup [OF n(1)] by (auto simp: nfa_edges_def targets_at_def split: option.split)
qed

lemma reached_Cons:
  assumes wf: "wf_nfa nfa" and S: "S \<subseteq> {..< length (nfa_nodes nfa)}" and c: "eps_closure nfa S = S"
  shows "reached nfa S (c # v) = reached nfa (eps_closure nfa (\<Union>p \<in> S. nfa_edges nfa p (int c))) v"
proof (intro set_eqI iffI)
  fix r
  assume "r \<in> reached nfa S (c # v)"
  then show "r \<in> reached nfa (eps_closure nfa (\<Union>p \<in> S. nfa_edges nfa p (int c))) v"
    using path_eps_prefix [OF _ _ c] by (auto simp: reached_def)
next
  fix r
  assume "r \<in> reached nfa (eps_closure nfa (\<Union>p \<in> S. nfa_edges nfa p (int c))) v"
  then obtain p q q' where h: "p \<in> S" "q \<in> nfa_edges nfa p (int c)" "(q, q') \<in> (eps_rel nfa)\<^sup>*" "path (nfa_graph nfa) q' v r"
    by (auto simp: reached_def eps_closure_def)
  have p: "p < length (nfa_nodes nfa)" and q: "q < length (nfa_nodes nfa)"
    using S h nfa_edges_less [OF wf, of p "int c"] by auto
  have "path (nfa_graph nfa) q v r" using path_append [OF conjunct1 [OF eps_path [OF wf q h(3)]] h(4)] by simp
  moreover have "(p, Some c, q) \<in> nfa_graph nfa" using p h(2) by (simp add: nfa_graph_iff)
  ultimately have "path (nfa_graph nfa) p (c # v) r" using path_step [of p "Some c" q] by simp
  then show "r \<in> reached nfa S (c # v)" using h(1) by (auto simp: reached_def)
qed

lemma reached_Nil: "eps_closure nfa S = S \<Longrightarrow> reached nfa S [] = S"
  using path_eps_prefix [of nfa _ "[]"] by (auto simp: reached_def intro: path_refl)

lemma subset_run:
  assumes "wf_nfa nfa" and "S \<subseteq> {..< length (nfa_nodes nfa)}" and "eps_closure nfa S = S"
  shows "subset_acts nfa S \<union> run_visit (subset_step nfa) (subset_acts nfa) S w =
    {a. \<exists>u v q. w = u @ v \<and> q \<in> reached nfa S u \<and> a \<in> nfa_acts nfa q}"
  using assms(2,3)
proof (induction w arbitrary: S)
  case Nil
  then show ?case using reached_Nil [OF Nil(2)] by (auto simp: subset_acts_def)
next
  case (Cons c w)
  define T where "T = eps_closure nfa (\<Union>p \<in> S. nfa_edges nfa p (int c))"
  have "(\<Union>p \<in> S. nfa_edges nfa p (int c)) \<subseteq> {..< length (nfa_nodes nfa)}"
    using nfa_edges_less [OF assms(1)] Cons.prems(1) by blast
  then have T: "T \<subseteq> {..< length (nfa_nodes nfa)}" "eps_closure nfa T = T"
    using eps_closure_less [OF assms(1)] by (simp_all add: T_def)
  have e: "reached nfa S (c # u) = reached nfa T u" for u unfolding T_def by (rule reached_Cons [OF assms(1) Cons.prems])
  have step: "subset_step nfa S c = (if T = {} then None else Some T)" by (simp only: T_def subset_step_def Let_def)
  have split: "{a. \<exists>u v q. c # w = u @ v \<and> q \<in> reached nfa S u \<and> a \<in> nfa_acts nfa q} =
    subset_acts nfa S \<union> {a. \<exists>u v q. w = u @ v \<and> q \<in> reached nfa T u \<and> a \<in> nfa_acts nfa q}"
    (is "?L = ?R")
  proof (intro set_eqI iffI)
    fix a
    assume "a \<in> ?L"
    then obtain u v q where "c # w = u @ v" "q \<in> reached nfa S u" "a \<in> nfa_acts nfa q" by blast
    then show "a \<in> ?R" using reached_Nil [OF Cons.prems(2)] e by (cases u) (auto simp: subset_acts_def)
  next
    fix a
    assume "a \<in> ?R"
    then consider p where "p \<in> reached nfa S []" "a \<in> nfa_acts nfa p"
      | u v q where "w = u @ v" "q \<in> reached nfa S (c # u)" "a \<in> nfa_acts nfa q"
      using reached_Nil [OF Cons.prems(2)] e by (auto simp: subset_acts_def)
    then show "a \<in> ?L"
    proof cases
      case 1
      then show ?thesis using append_Nil by blast
    next
      case 2
      then have "c # w = (c # u) @ v" by simp
      with 2 show ?thesis by blast
    qed
  qed
  have "run_visit (subset_step nfa) (subset_acts nfa) S (c # w) =
    subset_acts nfa T \<union> run_visit (subset_step nfa) (subset_acts nfa) T w"
  proof (cases "T = {}")
    case True
    then have "subset_step nfa T x = None" for x by (simp add: subset_step_def Let_def)
    then have "run_visit (subset_step nfa) (subset_acts nfa) T w = {}" by (cases w) simp_all
    with True step show ?thesis by (simp add: subset_acts_def)
  qed (simp add: step)
  then show ?case using Cons.IH [OF T] split by simp
qed

lemma subset_run_root:
  assumes "wf_nfa nfa" and "nfa_nodes nfa \<noteq> []"
  shows "subset_acts nfa (eps_closure nfa {0}) \<union> run_visit (subset_step nfa) (subset_acts nfa) (eps_closure nfa {0}) w = nfa_visit nfa w"
proof -
  have z: "{0} \<subseteq> {..< length (nfa_nodes nfa)}" using assms(2) by simp
  have "path (nfa_graph nfa) 0 u q \<longleftrightarrow> q \<in> reached nfa (eps_closure nfa {0}) u" for u q
  proof
    assume "path (nfa_graph nfa) 0 u q"
    then show "q \<in> reached nfa (eps_closure nfa {0}) u"
      using eps_closure_extensive [of "{0}" nfa] by (auto simp: reached_def)
  next
    assume "q \<in> reached nfa (eps_closure nfa {0}) u"
    then obtain p where "(0, p) \<in> (eps_rel nfa)\<^sup>*" "path (nfa_graph nfa) p u q" by (auto simp: reached_def eps_closure_def)
    then show "path (nfa_graph nfa) 0 u q" using path_append [of _ 0 "[]" p u q] eps_path [OF assms(1), of 0 p] z by simp
  qed
  then show ?thesis
    using subset_run [OF assms(1) eps_closure_less [OF assms(1) z], of w] by (simp add: nfa_visit_def)
qed

section \<open>The conversion\<close>

lemma NFAToDFA_convert_correct:
  assumes ho: "orders_ok ho" and wf: "wf_nfa nfa" and ne: "nfa_nodes nfa \<noteq> []" and acts: "card (set (nfa_actions nfa)) < 2 ^ 16"
  shows "\<exists>d. NFAToDFA_convert ho nfa = Some d \<and> dfa_root d = 0 \<and> dfa_nodes d \<noteq> [] \<and>
    (length (dfa_nodes d) < 2 ^ 32 - 1 \<longrightarrow> wf_dfa d) \<and>
    (\<forall>w. (\<forall>c \<in> set w. c < 128) \<longrightarrow> dfa_acts d (dfa_root d) \<union> dfa_visit d (dfa_root d) w = nfa_visit nfa w)"
proof -
  obtain cl where cl: "resolveEpsilonClosures nfa = Some (no_eps nfa, cl)" "closures_ok nfa cl"
    using resolveEpsilonClosures_ok [OF wf] by blast
  define S where "S = extendSetWithClosure cl 0 [0]"
  have S: "set S = eps_closure nfa {0}" "distinct S"
    using closures_nth [OF cl(2), of 0] ne by (auto simp: S_def extendSetWithClosure_def Let_def)
  have ok: "key_ok ho nfa cl S"
    using node_set_ok_closure [OF cl(2) _ _ S(2,1)] ho acts ne by (simp add: key_ok_def)
  obtain k as where t: "translate ho (no_eps nfa) S DFA_default = Some ((k, 0),
      DFA_default\<lparr>dfa_actions := as, dfa_nodes := [setActions 0 (length as) DFANode_default]\<rparr>)"
    and k: "key_ok ho nfa cl k" "set k = set S" "set as = subset_acts nfa (set S)" "length as < 2 ^ 16"
    using translate_add_node [OF ok, of DFA_default] by (auto simp: DFA_default_def)
  have st: "\<lparr>out_dfa = DFA_default\<lparr>dfa_actions := as, dfa_nodes := [setActions 0 (length as) DFANode_default]\<rparr>,
      node_table = [(k, 0)], unprocessed = [(k, 0)]\<rparr> = add_node k as \<lparr>out_dfa = DFA_default, node_table = [], unprocessed = []\<rparr>"
    by (simp add: add_node_def DFA_default_def Let_def)
  obtain st' where r: "buildLoop (createCombinedTransition cl (no_eps nfa)) (getOrCreateDFANode ho (no_eps nfa))
      (add_node k as \<lparr>out_dfa = DFA_default, node_table = [], unprocessed = []\<rparr>) = Some st'"
    and w: "dfa_root (out_dfa st') = 0" "dfa_nodes (out_dfa st') \<noteq> []" "length (dfa_nodes (out_dfa st')) < 2 ^ 32 - 1 \<longrightarrow> wf_dfa (out_dfa st')"
      "\<And>w. (\<forall>c \<in> set w. c < 128) \<longrightarrow> dfa_acts (out_dfa st') 0 \<union> dfa_visit (out_dfa st') 0 w =
        subset_acts nfa (eps_closure nfa {0}) \<union> run_visit (subset_step nfa) (subset_acts nfa) (eps_closure nfa {0}) w"
    using subset.build_new [OF k(1), of as] k(2-4) S(1) by auto
  have "NFAToDFA_convert ho nfa = Some (out_dfa st')"
    using cl(1) ne t r by (simp add: NFAToDFA_convert_def nfa_root_def Let_def flip: S_def st)
  then show ?thesis using w by (simp add: subset_run_root [OF wf ne])
qed

end
