(* ===== verification/Dfa_Combiner.thy ===== *)
theory Dfa_Combiner
  imports Worklist Nfa
begin

text \<open>
  The merge of two DFAs (\<open>DFAMerger\<close>) and the combination of a list of DFAs
  (\<open>DFACombiner::combineDFAs\<close>) of \<^verbatim>\<open>DFACombiner.cpp\<close>. A node of the product has a
  signature, the index of a node of each DFA or an invalid index, in the halves of a 64 bit word.
\<close>

section \<open>The code\<close>

datatype WhichDFA = WhichA | WhichB

definition invalidNodeIndex :: nat where
  "invalidNodeIndex = 0xffffffff"

definition setHalfSignature :: "WhichDFA \<Rightarrow> u64 \<Rightarrow> nat \<Rightarrow> u64" where
  "setHalfSignature whichDFA signature value =
     (let shiftAmount = (if whichDFA = WhichA then 32 else 0);
          mask = push_bit (32 - shiftAmount) 0xffffffff
      in (signature AND mask) OR push_bit shiftAmount (of_nat value))"

definition target_convert :: "WhichDFA \<Rightarrow> nat \<Rightarrow> u64" where
  "target_convert whichDFA target = setHalfSignature whichDFA 0xffffffffffffffff target"

definition target_extend :: "WhichDFA \<Rightarrow> u64 \<Rightarrow> nat \<Rightarrow> u64" where
  "target_extend whichDFA destination target = setHalfSignature whichDFA destination target"

definition signatureForIndices :: "nat \<Rightarrow> nat \<Rightarrow> u64" where
  "signatureForIndices aIndex bIndex = push_bit 32 (of_nat aIndex) OR of_nat bIndex"

definition extractIndexA :: "u64 \<Rightarrow> nat" where
  "extractIndexA signature = unat (ucast (drop_bit 32 signature) :: 32 word)"

definition extractIndexB :: "u64 \<Rightarrow> nat" where
  "extractIndexB signature = unat (ucast signature :: 32 word)"

text \<open>A queue entry is a signature with its node, the entry of \<open>m_nodeMapping\<close> for it.\<close>

definition getOrCreateCombinedNode ::
  "iteration_orders \<Rightarrow> DFA \<Rightarrow> DFA \<Rightarrow> u64 \<Rightarrow> u64 build_state \<Rightarrow> (nat \<times> u64 build_state) option" where
  "getOrCreateCombinedNode ho dfaA dfaB newNodeSignature st =
     (case map_of (node_table st) newNodeSignature of
        Some nodeId \<Rightarrow> Some (nodeId, st)
      | None \<Rightarrow>
          let newNodeIndex = length (dfa_nodes (out_dfa st));
              indexA = extractIndexA newNodeSignature;
              indexB = extractIndexB newNodeSignature;
              actionsA = (if indexA \<noteq> invalidNodeIndex then fold hs_add (node_actions dfaA (dfa_nodes dfaA ! indexA)) [] else []);
              actionsAB = (if indexB \<noteq> invalidNodeIndex then fold hs_add (node_actions dfaB (dfa_nodes dfaB ! indexB)) actionsA else actionsA);
              actionsStart = length (dfa_actions (out_dfa st));
              actions = dfa_actions (out_dfa st) @ action_order ho actionsAB
          in Some (newNodeIndex,
               \<lparr>out_dfa = (out_dfa st)\<lparr>dfa_actions := actions,
                  dfa_nodes := dfa_nodes (out_dfa st) @ [setActions actionsStart (length actions - actionsStart) DFANode_default]\<rparr>,
                node_table = node_table st @ [(newNodeSignature, newNodeIndex)],
                unprocessed = unprocessed st @ [(newNodeSignature, newNodeIndex)]\<rparr>))"

definition transition_items :: "DFA \<Rightarrow> nat \<Rightarrow> nat item list" where
  "transition_items d index = map (\<lambda>(r, t). (rangeFirst r, rangeLast r, t)) (node_transitions d (dfa_nodes d ! index))"

definition combinedTransitions :: "DFA \<Rightarrow> DFA \<Rightarrow> u64 \<Rightarrow> u64 item list option" where
  "combinedTransitions dfaA dfaB unprocessedNode = do {
     let indexA = extractIndexA unprocessedNode;
     rs1 \<leftarrow> (if indexA \<noteq> invalidNodeIndex
             then extendRanges (target_convert WhichA) (target_extend WhichA) (transition_items dfaA indexA) []
             else Some []);
     let indexB = extractIndexB unprocessedNode;
     rs2 \<leftarrow> (if indexB \<noteq> invalidNodeIndex
             then extendRanges (target_convert WhichB) (target_extend WhichB) (transition_items dfaB indexB) rs1
             else Some rs1);
     Some (rangeList_items rs2)
   }"

definition dfaMerge :: "iteration_orders \<Rightarrow> DFA \<Rightarrow> DFA \<Rightarrow> DFA option" where
  "dfaMerge ho dfaA dfaB = do {
     let rootSignature = signatureForIndices (dfa_root dfaA) (dfa_root dfaB);
     (rootNode, st) \<leftarrow> getOrCreateCombinedNode ho dfaA dfaB rootSignature
        \<lparr>out_dfa = DFA_default, node_table = [], unprocessed = []\<rparr>;
     st1 \<leftarrow> buildLoop (combinedTransitions dfaA dfaB) (getOrCreateCombinedNode ho dfaA dfaB) st;
     Some (out_dfa st1)
   }"

text \<open>
  \<open>combineDFAs\<close>: the DFAs handed to the handler, in order. \<open>splitLarge\<close> is the first loop, from the
  last DFA down; \<open>combineLoop\<close> is the second. \<open>minimize\<close> is \<open>DFA::minimize\<close>.
\<close>

definition splitLarge :: "nat \<Rightarrow> DFA list \<Rightarrow> DFA list \<times> DFA list" where
  "splitLarge minimumSize dfas =
     fold (\<lambda>i (handled, ds). if graphSize (ds ! i) > minimumSize
             then (handled @ [ds ! i], take i ds @ drop (Suc i) ds) else (handled, ds))
       (rev [0 ..< length dfas]) ([], dfas)"

function combineLoop ::
  "iteration_orders \<Rightarrow> (DFA \<Rightarrow> DFA option) \<Rightarrow> nat \<Rightarrow> DFA list \<Rightarrow> DFA list \<Rightarrow> DFA list option" where
  "combineLoop ho minimize minimumSize handled dfas =
     (if dfas = [] then Some handled
      else if length dfas = 1 then Some (handled @ [hd dfas])
      else
        let a = last dfas; rest = butlast dfas; b = last rest; rest' = butlast rest
        in case dfaMerge ho a b of
             None \<Rightarrow> None
           | Some c \<Rightarrow>
               (case (if graphSize c > minimumSize \<or> rest' = [] then minimize c else Some c) of
                  None \<Rightarrow> None
                | Some c' \<Rightarrow>
                    if graphSize c' > minimumSize then combineLoop ho minimize minimumSize (handled @ [c']) rest'
                    else combineLoop ho minimize minimumSize handled (rest' @ [c'])))"
  by pat_completeness auto

termination combineLoop
proof (relation "measure (\<lambda>(ho, minimize, minimumSize, handled, dfas). length dfas)")
  fix dfas :: "DFA list" and a rest b rest' c
  assume "dfas \<noteq> []" "length dfas \<noteq> 1" "rest = butlast dfas" "rest' = butlast rest"
  then have "Suc (length rest') < length dfas" by (cases dfas; cases "tl dfas") auto
  then show "\<And>ho minimize minimumSize handled c'. ((ho, minimize, minimumSize, handled, rest' @ [c']), (ho, minimize, minimumSize, handled, dfas))
      \<in> measure (\<lambda>(ho, minimize, minimumSize, handled, dfas). length dfas)"
    "\<And>ho minimize minimumSize handled c'. ((ho, minimize, minimumSize, handled @ [c'], rest'), (ho, minimize, minimumSize, handled, dfas))
      \<in> measure (\<lambda>(ho, minimize, minimumSize, handled, dfas). length dfas)" by simp_all
qed simp

definition combineDFAs :: "iteration_orders \<Rightarrow> (DFA \<Rightarrow> DFA option) \<Rightarrow> nat \<Rightarrow> DFA list \<Rightarrow> DFA list option" where
  "combineDFAs ho minimize minimumSize dfas =
     (if dfas = [] then Some []
      else case splitLarge minimumSize dfas of (handled, rest) \<Rightarrow> combineLoop ho minimize minimumSize handled rest)"

section \<open>Signatures\<close>

lemma mask32: "(0xffffffff :: u64) = mask 32"
  by (simp add: mask_eq_exp_minus_1)

lemma of_nat_low: "v < 2 ^ 32 \<Longrightarrow> unat (of_nat v :: 32 word) = v" for v :: nat
  by (simp add: unat_of_nat)

lemma bit_nat_low: "v < 2 ^ 32 \<Longrightarrow> bit v n \<Longrightarrow> n < 32" for v :: nat
proof -
  assume "v < 2 ^ 32" and b: "bit v n"
  then have "take_bit 32 v = v" by (simp add: take_bit_nat_eq_self)
  then have "bit (take_bit 32 v) n" using b by simp
  then show ?thesis by (simp add: bit_take_bit_iff)
qed

lemmas signature_bits = setHalfSignature_def signatureForIndices_def mask32 bit_simps

lemma extract_setHalf:
  assumes "v < 2 ^ 32"
  shows "extractIndexA (setHalfSignature WhichA s v) = v" "extractIndexB (setHalfSignature WhichA s v) = extractIndexB s"
    "extractIndexB (setHalfSignature WhichB s v) = v" "extractIndexA (setHalfSignature WhichB s v) = extractIndexA s"
proof -
  have "(ucast (drop_bit 32 (setHalfSignature WhichA s v)) :: 32 word) = of_nat v"
    by (rule bit_word_eqI) (auto simp: signature_bits)
  then show "extractIndexA (setHalfSignature WhichA s v) = v" using assms by (simp add: extractIndexA_def of_nat_low)
  have "(ucast (setHalfSignature WhichA s v) :: 32 word) = ucast s"
    by (rule bit_word_eqI) (auto simp: signature_bits)
  then show "extractIndexB (setHalfSignature WhichA s v) = extractIndexB s" by (simp add: extractIndexB_def)
  have "(ucast (setHalfSignature WhichB s v) :: 32 word) = of_nat v"
    by (rule bit_word_eqI) (auto simp: signature_bits)
  then show "extractIndexB (setHalfSignature WhichB s v) = v" using assms by (simp add: extractIndexB_def of_nat_low)
  have "(ucast (drop_bit 32 (setHalfSignature WhichB s v)) :: 32 word) = ucast (drop_bit 32 s)"
    by (rule bit_word_eqI) (auto simp: signature_bits dest: bit_nat_low [OF assms])
  then show "extractIndexA (setHalfSignature WhichB s v) = extractIndexA s" by (simp add: extractIndexA_def)
qed

lemma extract_ones: "extractIndexA 0xffffffffffffffff = invalidNodeIndex" "extractIndexB 0xffffffffffffffff = invalidNodeIndex"
  by code_simp+

lemma extract_signature:
  assumes "a < 2 ^ 32" and "b < 2 ^ 32"
  shows "extractIndexA (signatureForIndices a b) = a" "extractIndexB (signatureForIndices a b) = b"
proof -
  have "(ucast (drop_bit 32 (signatureForIndices a b)) :: 32 word) = of_nat a"
    by (rule bit_word_eqI) (auto simp: signature_bits dest: bit_nat_low [OF assms(2)])
  then show "extractIndexA (signatureForIndices a b) = a" using assms by (simp add: extractIndexA_def of_nat_low)
  have "(ucast (signatureForIndices a b) :: 32 word) = of_nat b"
    by (rule bit_word_eqI) (auto simp: signature_bits)
  then show "extractIndexB (signatureForIndices a b) = b" using assms by (simp add: extractIndexB_def of_nat_low)
qed

lemma signature_eqI:
  assumes "extractIndexA s = extractIndexA t" and "extractIndexB s = extractIndexB t"
  shows "s = t"
proof (rule bit_word_eqI)
  fix n
  assume n: "n < LENGTH(64)"
  have u: "(ucast (drop_bit 32 s) :: 32 word) = ucast (drop_bit 32 t)" "(ucast s :: 32 word) = ucast t"
    using assms by (simp_all only: extractIndexA_def extractIndexB_def unsigned_word_eqI)
  show "bit s n = bit t n"
  proof (cases "n < 32")
    case True
    then show ?thesis using arg_cong [OF u(2), of "\<lambda>w. bit w n"] by (simp add: bit_simps)
  next
    case False
    moreover have "n - 32 < 32" using n by simp
    ultimately show ?thesis using arg_cong [OF u(1), of "\<lambda>w. bit w (n - 32)"] by (simp add: bit_simps)
  qed
qed


section \<open>The product\<close>

definition half :: "nat \<Rightarrow> nat option" where
  "half i = (if i = invalidNodeIndex then None else Some i)"

definition halves :: "u64 \<Rightarrow> nat option \<times> nat option" where
  "halves s = (half (extractIndexA s), half (extractIndexB s))"

lemma half_inj: "half i = half j \<Longrightarrow> i = j"
  by (simp add: half_def split: if_splits)

lemma halves_inj: "halves s = halves t \<longleftrightarrow> s = t"
  by (auto simp: halves_def dest: half_inj intro: signature_eqI)

lemma half_Some: "i < 2 ^ 32 - 1 \<Longrightarrow> half i = Some i"
  by (simp add: half_def invalidNodeIndex_def)

text \<open>The targets in a signature.\<close>

definition sig_targets :: "u64 \<Rightarrow> (nat + nat) set" where
  "sig_targets s = Inl ` set_option (fst (halves s)) \<union> Inr ` set_option (snd (halves s))"

lemma target_convert_halves:
  assumes "t < 2 ^ 32 - 1"
  shows "halves (target_convert WhichA t) = (Some t, None)" "halves (target_convert WhichB t) = (None, Some t)"
  using assms extract_setHalf [of t "0xffffffffffffffff"] half_Some [OF assms]
  by (simp_all add: target_convert_def halves_def extract_ones half_def)

lemma target_extend_halves:
  assumes "t < 2 ^ 32 - 1"
  shows "halves (target_extend WhichA s t) = (Some t, snd (halves s))" "halves (target_extend WhichB s t) = (fst (halves s), Some t)"
  using assms extract_setHalf [of t s] half_Some [OF assms]
  by (simp_all add: target_extend_def halves_def)

interpretation convA: range_data_converter "target_convert WhichA" "target_extend WhichA" "\<lambda>s. fst (halves s) = None"
  "\<lambda>s. True" "\<lambda>t. t < 2 ^ 32 - 1" sig_targets "\<lambda>t. {Inl t}"
  by unfold_locales (auto simp: sig_targets_def target_convert_halves target_extend_halves)

interpretation convB: range_data_converter "target_convert WhichB" "target_extend WhichB" "\<lambda>s. snd (halves s) = None"
  "\<lambda>s. True" "\<lambda>t. t < 2 ^ 32 - 1" sig_targets "\<lambda>t. {Inr t}"
  by unfold_locales (auto simp: sig_targets_def target_convert_halves target_extend_halves)

definition opt_step :: "DFA \<Rightarrow> nat option \<Rightarrow> nat \<Rightarrow> nat option" where
  "opt_step d p c = (case p of None \<Rightarrow> None | Some i \<Rightarrow> dfa_step d i c)"

definition opt_acts :: "DFA \<Rightarrow> nat option \<Rightarrow> u64 set" where
  "opt_acts d p = (case p of None \<Rightarrow> {} | Some i \<Rightarrow> dfa_acts d i)"

definition pair_step :: "DFA \<Rightarrow> DFA \<Rightarrow> nat option \<times> nat option \<Rightarrow> nat \<Rightarrow> (nat option \<times> nat option) option" where
  "pair_step a b pq c =
     (let r = (opt_step a (fst pq) c, opt_step b (snd pq) c) in if r = (None, None) then None else Some r)"

definition pair_acts :: "DFA \<Rightarrow> DFA \<Rightarrow> nat option \<times> nat option \<Rightarrow> u64 set" where
  "pair_acts a b pq = opt_acts a (fst pq) \<union> opt_acts b (snd pq)"

definition opt_nodes :: "DFA \<Rightarrow> nat option set" where
  "opt_nodes d = insert None (Some ` {i. live d i})"

definition merge_ok :: "iteration_orders \<Rightarrow> DFA \<Rightarrow> DFA \<Rightarrow> bool" where
  "merge_ok ho a b \<longleftrightarrow> enumerates (action_order ho) \<and> wf_dfa a \<and> wf_dfa b \<and>
     card (set (dfa_actions a) \<union> set (dfa_actions b)) < 2 ^ 16"

definition sig_ok :: "iteration_orders \<Rightarrow> DFA \<Rightarrow> DFA \<Rightarrow> u64 \<Rightarrow> bool" where
  "sig_ok ho a b s \<longleftrightarrow> merge_ok ho a b \<and> halves s \<in> opt_nodes a \<times> opt_nodes b"

lemma transition_items_ok:
  assumes "wf_dfa d" and "live d i"
  shows "items_from 0 (transition_items d i)" "\<forall>(f, l, t) \<in> set (transition_items d i). t < 2 ^ 32 - 1"
    "item_lookup (transition_items d i) (int c) = dfa_step d i c"
    "dfa_step d i c = Some t \<Longrightarrow> live d t"
proof -
  have wf: "wf_node d (dfa_nodes d ! i)" using assms by (auto simp: wf_dfa_def live_def)
  have "sorted_from lo ts \<Longrightarrow> items_from lo (map (\<lambda>(r, t). (rangeFirst r, rangeLast r, t)) ts)" for lo ts
    by (induction lo ts rule: sorted_from.induct) auto
  then show "items_from 0 (transition_items d i)" using wf by (auto simp: wf_node_def transition_items_def)
  show "\<forall>(f, l, t) \<in> set (transition_items d i). t < 2 ^ 32 - 1"
    using wf assms(1) by (fastforce simp: wf_node_def transition_items_def wf_dfa_def)
  have "item_lookup (map (\<lambda>(r, t). (rangeFirst r, rangeLast r, t)) ts) (int c) = step_in ts c" for ts
    by (induction ts c rule: step_in.induct) (auto simp: in_range_def)
  then show "item_lookup (transition_items d i) (int c) = dfa_step d i c" by (simp add: transition_items_def dfa_step_def)
  show "dfa_step d i c = Some t \<Longrightarrow> live d t"
    using dfa_step_target [OF assms(1), of i c t] assms(2) by (simp add: live_def)
qed


definition half_items :: "DFA \<Rightarrow> nat option \<Rightarrow> nat item list" where
  "half_items d p = (case p of None \<Rightarrow> [] | Some i \<Rightarrow> transition_items d i)"

lemma half_items_ok:
  assumes "wf_dfa d" and "p \<in> opt_nodes d"
  shows "items_from 0 (half_items d p)" "\<forall>(f, l, t) \<in> set (half_items d p). t < 2 ^ 32 - 1"
    "item_lookup (half_items d p) (int c) = opt_step d p c"
proof -
  have i: "live d i" if "p = Some i" for i using assms(2) that by (auto simp: opt_nodes_def)
  show "items_from 0 (half_items d p)"
    by (cases p) (use i transition_items_ok(1) [OF assms(1)] in \<open>simp_all add: half_items_def\<close>)
  show "\<forall>(f, l, t) \<in> set (half_items d p). t < 2 ^ 32 - 1"
    by (cases p) (use i transition_items_ok(2) [OF assms(1)] in \<open>simp_all add: half_items_def\<close>)
  show "item_lookup (half_items d p) (int c) = opt_step d p c"
    by (cases p) (use i transition_items_ok(3) [OF assms(1)] in \<open>simp_all add: half_items_def opt_step_def\<close>)
qed

lemma extendRanges_Nil [simp]: "extendRanges cv ex [] m = Some m"
  by (simp add: extendRanges_def)

lemma combinedTransitions_halves:
  assumes "halves s = (p, q)"
  shows "combinedTransitions a b s = do {
     rs1 \<leftarrow> extendRanges (target_convert WhichA) (target_extend WhichA) (half_items a p) [];
     rs2 \<leftarrow> extendRanges (target_convert WhichB) (target_extend WhichB) (half_items b q) rs1;
     Some (rangeList_items rs2) }"
proof -
  have "p = half (extractIndexA s)" "q = half (extractIndexB s)" using assms by (simp_all add: halves_def)
  then show ?thesis by (simp add: combinedTransitions_def half_items_def half_def Let_def)
qed

lemma sig_targets_halves:
  assumes "sig_targets s = Inl ` set_option x \<union> Inr ` set_option y"
  shows "halves s = (x, y)"
proof -
  obtain p q where h: "halves s = (p, q)" by (cases "halves s")
  have "set_option p = {i. Inl i \<in> sig_targets s}" "set_option q = {i. Inr i \<in> sig_targets s}"
    by (auto simp: sig_targets_def h simp del: elem_set)
  moreover have "{i. Inl i \<in> sig_targets s} = set_option x" "{i. Inr i \<in> sig_targets s} = set_option y"
    unfolding assms by (auto simp del: elem_set)
  ultimately have "set_option p = set_option x" "set_option q = set_option y" by simp_all
  then have "p = x" "q = y" by (metis elem_set not_Some_eq option.inject)+
  then show ?thesis by (simp add: h)
qed

lemma targets_at_lookup: "targets_at f xs c = (case item_lookup xs c of None \<Rightarrow> {} | Some d \<Rightarrow> f d)"
  by (simp add: targets_at_def)

lemma half_targets:
  assumes "wf_dfa d" and "p \<in> opt_nodes d"
  shows "targets_at (\<lambda>t. {f t}) (half_items d p) (int c) = f ` set_option (opt_step d p c)"
  by (cases "opt_step d p c") (simp_all add: targets_at_lookup half_items_ok(3) [OF assms])

lemma opt_step_nodes:
  assumes "wf_dfa d" and "p \<in> opt_nodes d"
  shows "opt_step d p c \<in> opt_nodes d"
proof (cases "opt_step d p c")
  case (Some t)
  then obtain i where "live d i" "dfa_step d i c = Some t" using assms(2) by (auto simp: opt_step_def opt_nodes_def)
  then show ?thesis using transition_items_ok(4) [OF assms(1)] Some by (simp add: opt_nodes_def)
qed (simp add: opt_nodes_def)

lemma combinedTransitions_step:
  assumes ok: "sig_ok ho a b s"
  shows "\<exists>rs. combinedTransitions a b s = Some rs \<and> items_from 0 rs \<and>
    (\<forall>(f, l, d) \<in> set rs. sig_ok ho a b d) \<and>
    (\<forall>c < 128. map_option halves (item_lookup rs (int c)) = pair_step a b (halves s) c)"
proof -
  obtain p q where h: "halves s = (p, q)" by force
  have wf: "wf_dfa a" "wf_dfa b" "p \<in> opt_nodes a" "q \<in> opt_nodes b" using ok h by (auto simp: sig_ok_def merge_ok_def)
  note A = half_items_ok [OF wf(1,3)] and B = half_items_ok [OF wf(2,4)]
  obtain rs1 where r1: "extendRanges (target_convert WhichA) (target_extend WhichA) (half_items a p) [] = Some rs1" "range_list rs1"
    "\<And>c. targets_at sig_targets (rangeList_items rs1) c = targets_at (\<lambda>t. {Inl t}) (half_items a p) c"
    "\<And>c. item_lookup (rangeList_items rs1) c = None \<longleftrightarrow> item_lookup (half_items a p) c = None"
    using convA.extend_targets [of "[]", OF _ _ A(1,2)] by (auto simp: targets_at_lookup)
  have "\<forall>c d. item_lookup (rangeList_items rs1) c = Some d \<longrightarrow> snd (halves d) = None"
  proof (intro allI impI)
    fix c d
    assume l: "item_lookup (rangeList_items rs1) c = Some d"
    then obtain t where "item_lookup (half_items a p) c = Some t" using r1(4) [of c] by auto
    then have "sig_targets d = Inl ` set_option (Some t) \<union> Inr ` set_option None" using r1(3) [of c] l by (simp add: targets_at_lookup)
    from sig_targets_halves [OF this] show "snd (halves d) = None" by simp
  qed
  then have I: "\<forall>(f, l, d) \<in> set (rangeList_items rs1). snd (halves d) = None"
    unfolding item_data_lookup [OF range_list_sorted [OF r1(2)]] .
  obtain rs2 where r2: "extendRanges (target_convert WhichB) (target_extend WhichB) (half_items b q) rs1 = Some rs2" "range_list rs2"
    "\<And>c. targets_at sig_targets (rangeList_items rs2) c =
      targets_at sig_targets (rangeList_items rs1) c \<union> targets_at (\<lambda>t. {Inr t}) (half_items b q) c"
    "\<And>c. item_lookup (rangeList_items rs2) c = None \<longleftrightarrow> item_lookup (rangeList_items rs1) c = None \<and> item_lookup (half_items b q) c = None"
    using convB.extend_targets [OF r1(2) I B(1,2)] by blast
  have srt: "items_from 0 (rangeList_items rs2)" using range_list_sorted [OF r2(2)] .
  have step: "map_option halves (item_lookup (rangeList_items rs2) (int c)) = pair_step a b (p, q) c" for c
  proof (cases "item_lookup (rangeList_items rs2) (int c)")
    case None
    then show ?thesis using r2(4) [of "int c"] r1(4) [of "int c"] A(3) B(3) by (simp add: pair_step_def)
  next
    case (Some d)
    have "sig_targets d = Inl ` set_option (opt_step a p c) \<union> Inr ` set_option (opt_step b q c)"
      using r2(3) [of "int c"] Some half_targets [OF wf(1,3), of "Inl :: nat \<Rightarrow> nat + nat" c]
        half_targets [OF wf(2,4), of "Inr :: nat \<Rightarrow> nat + nat" c]
      by (simp add: r1(3) targets_at_lookup [of sig_targets "rangeList_items rs2"])
    moreover have "(opt_step a p c, opt_step b q c) \<noteq> (None, None)"
      using r2(4) [of "int c"] r1(4) [of "int c"] Some A(3) B(3) by auto
    ultimately show ?thesis using sig_targets_halves [of d] Some by (simp add: pair_step_def Let_def)
  qed
  have "\<forall>c d. item_lookup (rangeList_items rs2) c = Some d \<longrightarrow> sig_ok ho a b d"
  proof (intro allI impI)
    fix c d
    assume l: "item_lookup (rangeList_items rs2) c = Some d"
    then have "0 \<le> c" using srt item_lookup_SomeD [OF l] items_from_bounds [OF srt] by fastforce
    then obtain n where "c = int n" using nonneg_int_cases by blast
    then have "halves d = (opt_step a p n, opt_step b q n)"
      using step [of n] l by (auto simp: pair_step_def Let_def split: if_splits)
    then show "sig_ok ho a b d" using ok opt_step_nodes [OF wf(1,3)] opt_step_nodes [OF wf(2,4)] by (simp add: sig_ok_def)
  qed
  then have "\<forall>(f, l, d) \<in> set (rangeList_items rs2). sig_ok ho a b d" unfolding item_data_lookup [OF srt] .
  then show ?thesis using step srt r1(1) r2(1) by (simp add: combinedTransitions_halves [OF h] h)
qed


section \<open>The merged DFA\<close>

definition sig_actions :: "DFA \<Rightarrow> DFA \<Rightarrow> u64 \<Rightarrow> u64 list" where
  "sig_actions a b s =
     hs_add_all (case snd (halves s) of None \<Rightarrow> [] | Some i \<Rightarrow> node_actions b (dfa_nodes b ! i))
       (hs_add_all (case fst (halves s) of None \<Rightarrow> [] | Some i \<Rightarrow> node_actions a (dfa_nodes a ! i)) [])"

lemma sig_actions_acts: "set (sig_actions a b s) = pair_acts a b (halves s)" "distinct (sig_actions a b s)"
  by (auto simp: sig_actions_def pair_acts_def opt_acts_def dfa_acts_def split: option.split)

lemma getOrCreateCombinedNode_new:
  assumes "map_of (node_table st) s = None"
  shows "getOrCreateCombinedNode ho a b s st = Some (length (dfa_nodes (out_dfa st)), add_node s (action_order ho (sig_actions a b s)) st)"
  using assms by (simp add: getOrCreateCombinedNode_def sig_actions_def add_node_def halves_def half_def Let_def hs_add_all_def)

lemma node_actions_subset: "wf_dfa d \<Longrightarrow> live d i \<Longrightarrow> dfa_acts d i \<subseteq> set (dfa_actions d)"
  by (auto simp: wf_dfa_def live_def wf_node_def dfa_acts_def node_actions_def)

lemma sig_actions_order:
  assumes "sig_ok ho a b s"
  shows "set (action_order ho (sig_actions a b s)) = pair_acts a b (halves s)" "length (action_order ho (sig_actions a b s)) < 2 ^ 16"
proof -
  have ho: "enumerates (action_order ho)" and wf: "wf_dfa a" "wf_dfa b" and h: "halves s \<in> opt_nodes a \<times> opt_nodes b"
    and c: "card (set (dfa_actions a) \<union> set (dfa_actions b)) < 2 ^ 16"
    using assms by (auto simp: sig_ok_def merge_ok_def)
  show s: "set (action_order ho (sig_actions a b s)) = pair_acts a b (halves s)"
    using enumerates_set [OF ho sig_actions_acts(2)] sig_actions_acts(1) by simp
  have "pair_acts a b (halves s) \<subseteq> set (dfa_actions a) \<union> set (dfa_actions b)"
    using h node_actions_subset [OF wf(1)] node_actions_subset [OF wf(2)] by (fastforce simp: pair_acts_def opt_acts_def opt_nodes_def)
  then have "card (pair_acts a b (halves s)) \<le> card (set (dfa_actions a) \<union> set (dfa_actions b))" by (intro card_mono) auto
  then have "card (set (action_order ho (sig_actions a b s))) < 2 ^ 16" using c unfolding s by linarith
  then show "length (action_order ho (sig_actions a b s)) < 2 ^ 16"
    using enumerates_distinct [OF ho sig_actions_acts(2)] by (simp add: distinct_card)
qed

interpretation product: worklist "combinedTransitions a b" "getOrCreateCombinedNode ho a b" halves halves "sig_ok ho a b" "sig_ok ho a b"
  "opt_nodes a \<times> opt_nodes b" "pair_step a b" "pair_acts a b" for ho a b
proof unfold_locales
  have "finite {i. live d i}" for d by (rule finite_subset [of _ "{..< length (dfa_nodes d)}"]) (auto simp: live_def)
  then show "finite (opt_nodes a \<times> opt_nodes b)" by (simp add: opt_nodes_def)
next
  fix s
  assume "sig_ok ho a b s"
  then show "halves s \<in> opt_nodes a \<times> opt_nodes b" by (simp add: sig_ok_def)
next
  fix s
  assume "sig_ok ho a b s"
  then show "\<exists>rs. combinedTransitions a b s = Some rs \<and> items_from 0 rs \<and> (\<forall>(f, l, d) \<in> set rs. sig_ok ho a b d) \<and>
    (\<forall>c < 128. map_option halves (item_lookup rs (int c)) = pair_step a b (halves s) c)"
    by (rule combinedTransitions_step)
next
  fix s and st :: "u64 build_state"
  assume ok: "sig_ok ho a b s"
  show "(\<exists>k i. (k, i) \<in> set (node_table st) \<and> halves k = halves s \<and> getOrCreateCombinedNode ho a b s st = Some (i, st)) \<or>
      (halves s \<notin> halves ` fst ` set (node_table st) \<and>
       (\<exists>k as. sig_ok ho a b k \<and> halves k = halves s \<and> set as = pair_acts a b (halves s) \<and> length as < 2 ^ 16 \<and>
         getOrCreateCombinedNode ho a b s st = Some (length (dfa_nodes (out_dfa st)), add_node k as st)))"
  proof (cases "map_of (node_table st) s")
    case None
    then have "s \<notin> fst ` set (node_table st)" by (simp add: map_of_eq_None_iff)
    then have "halves s \<notin> halves ` fst ` set (node_table st)" using halves_inj by blast
    then show ?thesis using getOrCreateCombinedNode_new [OF None] sig_actions_order [OF ok] ok by blast
  next
    case (Some i)
    then have "getOrCreateCombinedNode ho a b s st = Some (i, st)" by (simp add: getOrCreateCombinedNode_def)
    then show ?thesis using map_of_SomeD [OF Some] by blast
  qed
qed

lemma pair_visit:
  "run_visit (pair_step a b) (pair_acts a b) (p, q) w =
    (case p of None \<Rightarrow> {} | Some i \<Rightarrow> dfa_visit a i w) \<union> (case q of None \<Rightarrow> {} | Some j \<Rightarrow> dfa_visit b j w)"
proof (induction w arbitrary: p q)
  case Nil
  then show ?case by (simp split: option.split)
next
  case (Cons c w)
  have e: "(case p of None \<Rightarrow> {} | Some i \<Rightarrow> dfa_visit d i (c # w)) =
    opt_acts d (opt_step d p c) \<union> (case opt_step d p c of None \<Rightarrow> {} | Some i \<Rightarrow> dfa_visit d i w)" for d p
    by (auto simp: opt_acts_def opt_step_def split: option.split)
  show ?case
    unfolding e using Cons.IH [of "opt_step a p c" "opt_step b q c"]
    by (auto simp: pair_step_def pair_acts_def Let_def opt_acts_def)
qed

lemma dfaMerge_correct:
  assumes ok: "merge_ok ho a b"
  shows "\<exists>d. dfaMerge ho a b = Some d \<and> (length (dfa_nodes d) < 2 ^ 32 - 1 \<longrightarrow> wf_dfa d) \<and>
    (\<forall>w. (\<forall>c \<in> set w. c < 128) \<longrightarrow> dfa_acts d (dfa_root d) \<union> dfa_visit d (dfa_root d) w =
      (dfa_acts a (dfa_root a) \<union> dfa_visit a (dfa_root a) w) \<union> (dfa_acts b (dfa_root b) \<union> dfa_visit b (dfa_root b) w))"
proof -
  have wf: "wf_dfa a" "wf_dfa b" using ok by (simp_all add: merge_ok_def)
  let ?s = "signatureForIndices (dfa_root a) (dfa_root b)" and ?st = "\<lparr>out_dfa = DFA_default, node_table = [], unprocessed = []\<rparr> :: u64 build_state"
  have r: "dfa_root a < 2 ^ 32 - 1" "dfa_root b < 2 ^ 32 - 1" "live a (dfa_root a)" "live b (dfa_root b)"
    using wf by (auto simp: wf_dfa_def live_def)
  then have h: "halves ?s = (Some (dfa_root a), Some (dfa_root b))" by (simp add: halves_def extract_signature half_Some)
  have s: "sig_ok ho a b ?s" using ok r by (simp add: sig_ok_def h opt_nodes_def)
  obtain st where st: "buildLoop (combinedTransitions a b) (getOrCreateCombinedNode ho a b) (add_node ?s (action_order ho (sig_actions a b ?s)) ?st) = Some st"
    "dfa_root (out_dfa st) = 0" "length (dfa_nodes (out_dfa st)) < 2 ^ 32 - 1 \<longrightarrow> wf_dfa (out_dfa st)"
    "\<forall>w. (\<forall>c \<in> set w. c < 128) \<longrightarrow> dfa_acts (out_dfa st) 0 \<union> dfa_visit (out_dfa st) 0 w =
      pair_acts a b (halves ?s) \<union> run_visit (pair_step a b) (pair_acts a b) (halves ?s) w"
    using product.build_new [OF s sig_actions_order [OF s]] by blast
  have "dfaMerge ho a b = Some (out_dfa st)"
    using st(1) getOrCreateCombinedNode_new [of ?st ?s ho a b] by (simp add: dfaMerge_def)
  then show ?thesis using st(2-4) by (auto simp: h pair_visit pair_acts_def opt_acts_def)
qed

end
