(* ===== verification/Url.thy ===== *)
theory Url
  imports CE_Prelude
begin

text \<open>
  The part of \<^verbatim>\<open>wtf/URL.h\<close> and \<^verbatim>\<open>URL.cpp\<close> that the content extensions use: a URL is its
  string with the offsets that the URL parser found. The parser is an argument of the operations that change a URL.
  Also the conversions between integers and decimal strings that ports go through
  (\<^verbatim>\<open>text/StringToIntegerConversion.h\<close>, \<^verbatim>\<open>text/IntegerToStringConversion.h\<close>).
\<close>

section \<open>Characters and numbers\<close>

definition isASCIIAlphaCaselessEqual :: "nat \<Rightarrow> nat \<Rightarrow> bool" where
  "isASCIIAlphaCaselessEqual inputCharacter expectedASCIILowercaseLetter \<longleftrightarrow>
     inputCharacter OR 32 = expectedASCIILowercaseLetter"

definition isCharacterAllowedInBase :: "nat \<Rightarrow> nat \<Rightarrow> bool" where
  "isCharacterAllowedInBase c base \<longleftrightarrow>
     (if c > 127 then False
      else if isASCIIDigit c then c - 48 < base
      else if isASCIIAlpha c then
        (let base' = min base 36 in (97 \<le> c \<and> c + 10 < 97 + base') \<or> (65 \<le> c \<and> c + 10 < 65 + base'))
      else False)"

definition digitValue :: "nat \<Rightarrow> nat" where
  "digitValue c = (if isASCIIDigit c then c - 48 else if 97 \<le> c then c - 97 + 10 else c - 65 + 10)"

text \<open>\<open>toIntegralType\<close> at the type \<open>unsigned\<close>, for characters of at most 8 bits: the value, unless the text is not a number or
  the number does not fit.\<close>

fun digitsLoop :: "nat \<Rightarrow> nat \<Rightarrow> nat list \<Rightarrow> (nat \<times> nat list) option" where
  "digitsLoop base v [] = Some (v, [])"
| "digitsLoop base v (c # cs) =
     (if isCharacterAllowedInBase c base then
        (let integralMax = 2 ^ 32 - 1; maxMultiplier = integralMax div base
         in if v > maxMultiplier \<or> (v = maxMultiplier \<and> digitValue c > integralMax mod base) then None
            else digitsLoop base (base * v + digitValue c) cs)
      else Some (v, c # cs))"

definition skipPlus :: "nat list \<Rightarrow> nat list" where
  "skipPlus cs = (case cs of [] \<Rightarrow> [] | c # r \<Rightarrow> if c = 43 then r else cs)"

definition charactersToUIntStrict :: "nat \<Rightarrow> nat list \<Rightarrow> nat option" where
  "charactersToUIntStrict base cs =
     (let cs1 = skipPlus (dropWhile isASCIISpace cs)
      in if cs1 = [] \<or> \<not> isCharacterAllowedInBase (hd cs1) base then None
         else case digitsLoop base 0 cs1 of
           None \<Rightarrow> None
         | Some (v, rest) \<Rightarrow> if dropWhile isASCIISpace rest = [] then Some v else None)"

text \<open>\<open>String::number\<close> of an unsigned number.\<close>

fun numberToString :: "nat \<Rightarrow> nat list" where
  "numberToString n = (if n < 10 then [n mod 10 + 48] else numberToString (n div 10) @ [n mod 10 + 48])"

declare numberToString.simps [simp del]

section \<open>URLs\<close>

record URL =
  url_string :: "nat list option"
  url_isValid :: bool
  url_portLength :: nat
  url_schemeEnd :: nat
  url_userStart :: nat
  url_passwordEnd :: nat
  url_hostEnd :: nat

text \<open>The default constructor: the null string.\<close>

definition URL_null :: URL where
  "URL_null = \<lparr>url_string = None, url_isValid = False, url_portLength = 0, url_schemeEnd = 0, url_userStart = 0,
     url_passwordEnd = 0, url_hostEnd = 0\<rparr>"

definition url_chars :: "URL \<Rightarrow> nat list" where
  "url_chars u = (case url_string u of None \<Rightarrow> [] | Some s \<Rightarrow> s)"

definition url_eq :: "URL \<Rightarrow> URL \<Rightarrow> bool" where
  "url_eq a b \<longleftrightarrow> url_string a = url_string b"

definition protocol :: "URL \<Rightarrow> nat list" where
  "protocol u = take (url_schemeEnd u) (url_chars u)"

definition hostStart :: "URL \<Rightarrow> nat" where
  "hostStart u = (if url_passwordEnd u = url_userStart u then url_passwordEnd u else url_passwordEnd u + 1)"

definition host :: "URL \<Rightarrow> nat list" where
  "host u = take (url_hostEnd u - hostStart u) (drop (hostStart u) (url_chars u))"

definition port :: "URL \<Rightarrow> nat option" where
  "port u =
     (if url_portLength u = 0 then None
      else case charactersToUIntStrict 10 (take (url_portLength u - 1) (drop (url_hostEnd u + 1) (url_chars u))) of
        None \<Rightarrow> None
      | Some number \<Rightarrow> if number > 2 ^ 16 - 1 then None else Some number)"

fun protocolLoop :: "nat list \<Rightarrow> nat list \<Rightarrow> bool" where
  "protocolLoop [] ps = (ps = [])"
| "protocolLoop (c # cs) [] = False"
| "protocolLoop (c # cs) (p # ps) = (isASCIIAlphaCaselessEqual c p \<and> protocolLoop cs ps)"

definition protocolIs :: "URL \<Rightarrow> string \<Rightarrow> bool" where
  "protocolIs u p \<longleftrightarrow> url_isValid u \<and> protocolLoop (protocol u) (ascii p)"

definition protocolIsData :: "URL \<Rightarrow> bool" where
  "protocolIsData u \<longleftrightarrow> protocolIs u ''data''"

text \<open>\<open>URLParser::defaultPortForProtocol\<close>. In the case of the letter \<open>w\<close> the code returns \<open>false\<close>,
  which the return type turns into port 0.\<close>

definition defaultPortForProtocol :: "nat list \<Rightarrow> nat option" where
  "defaultPortForProtocol scheme =
     (if scheme = [] then None
      else if scheme ! 0 = of_char (CHR ''w'') then
        (if length scheme = 2 then (if scheme = ascii ''ws'' then Some 80 else None)
         else if length scheme = 3 then (if scheme = ascii ''wss'' then Some 443 else None)
         else Some 0)
      else if scheme ! 0 = of_char (CHR ''h'') then
        (if scheme = ascii ''http'' then Some 80 else if scheme = ascii ''https'' then Some 443 else None)
      else if scheme ! 0 = of_char (CHR ''g'') then (if scheme = ascii ''gopher'' then Some 70 else None)
      else if scheme ! 0 = of_char (CHR ''f'') then (if scheme = ascii ''ftp'' then Some 21 else None)
      else None)"

definition isDefaultPortForProtocol :: "nat \<Rightarrow> nat list \<Rightarrow> bool" where
  "isDefaultPortForProtocol p scheme \<longleftrightarrow> defaultPortForProtocol scheme = Some p"

definition maybeCanonicalizeScheme :: "nat list \<Rightarrow> nat list option" where
  "maybeCanonicalizeScheme scheme =
     (if scheme = [] then None
      else if \<not> isASCIIAlpha (hd scheme) then None
      else if list_all (\<lambda>c. isASCIIAlphanumeric c \<or> c = of_char (CHR ''+'') \<or> c = of_char (CHR ''-'') \<or> c = of_char (CHR ''.'')) (tl scheme)
        then Some (map toASCIILower scheme) else None)"

type_synonym url_parser = "nat list \<Rightarrow> URL"

definition setProtocol :: "url_parser \<Rightarrow> nat list \<Rightarrow> URL \<Rightarrow> URL" where
  "setProtocol parser s u =
     (let newProtocol = takeWhile (\<lambda>c. c \<noteq> 58) s
      in case maybeCanonicalizeScheme newProtocol of
           None \<Rightarrow> u
         | Some canonicalized \<Rightarrow>
             if \<not> url_isValid u then parser (canonicalized @ [58] @ url_chars u)
             else parser (canonicalized @ drop (url_schemeEnd u) (url_chars u)))"

definition setPort :: "url_parser \<Rightarrow> nat \<Rightarrow> URL \<Rightarrow> URL" where
  "setPort parser i u =
     (if \<not> url_isValid u then u
      else
        let colonNeeded = url_portLength u = 0;
            portStart = (if colonNeeded then url_hostEnd u else url_hostEnd u + 1)
        in parser (take portStart (url_chars u) @ (if colonNeeded then [58] else []) @ numberToString i @
             drop (url_hostEnd u + url_portLength u) (url_chars u)))"

section \<open>Numbers and their text\<close>

lemma digit_allowed: "c \<in> {48 .. 57} \<Longrightarrow> isCharacterAllowedInBase c 10 \<and> digitValue c = c - 48"
  by (auto simp: isCharacterAllowedInBase_def isASCIIDigit_def digitValue_def)

text \<open>The value of decimal digits, most significant first.\<close>

definition decimal :: "nat \<Rightarrow> nat list \<Rightarrow> nat" where
  "decimal v cs = foldl (\<lambda>v c. 10 * v + (c - 48)) v cs"

lemma decimal_simps [simp]: "decimal v [] = v" "decimal v (c # cs) = decimal (10 * v + (c - 48)) cs"
  "decimal v (cs @ ds) = decimal (decimal v cs) ds"
  by (simp_all add: decimal_def)

lemma decimal_mono: "v \<le> decimal v cs"
proof (induction cs arbitrary: v)
  case (Cons c cs)
  show ?case using Cons.IH [of "10 * v + (c - 48)"] by simp
qed simp

lemma digitsLoop_decimal:
  "\<lbrakk>\<forall>c \<in> set cs. c \<in> {48 .. 57}; decimal v cs < 2 ^ 32\<rbrakk> \<Longrightarrow> digitsLoop 10 v cs = Some (decimal v cs, [])"
proof (induction cs arbitrary: v)
  case (Cons c cs)
  have d: "isCharacterAllowedInBase c 10" "digitValue c = c - 48" "c - 48 \<le> 9" using Cons.prems(1) digit_allowed [of c] by auto
  have b: "10 * v + (c - 48) < 2 ^ 32" using decimal_mono [of "10 * v + (c - 48)" cs] Cons.prems(2) by simp
  have "\<not> (v > (2 ^ 32 - 1) div 10 \<or> (v = (2 ^ 32 - 1) div 10 \<and> c - 48 > (2 ^ 32 - 1) mod 10))" using b by auto
  then show ?case using Cons.IH [of "10 * v + (c - 48)"] Cons.prems d by (simp add: Let_def)
qed simp

lemma numberToString_digits: "numberToString n \<noteq> [] \<and> (\<forall>c \<in> set (numberToString n). c \<in> {48 .. 57}) \<and> decimal 0 (numberToString n) = n"
proof (induction n rule: numberToString.induct)
  case (1 n)
  show ?case
  proof (cases "n < 10")
    case False
    then show ?thesis using 1 [OF False] by (subst numberToString.simps) (auto simp: numberToString.simps [of n])
  qed (simp add: numberToString.simps [of n])
qed

lemma charactersToUIntStrict_number:
  assumes "n < 2 ^ 32"
  shows "charactersToUIntStrict 10 (numberToString n) = Some n"
proof -
  let ?cs = "numberToString n"
  note d = numberToString_digits [of n]
  obtain c r where cs: "?cs = c # r" using d by (cases ?cs) auto
  then have c: "c \<in> {48 .. 57}" using d by auto
  have "skipPlus (dropWhile isASCIISpace ?cs) = ?cs" using c by (simp add: cs isASCIISpace_def skipPlus_def)
  moreover have "digitsLoop 10 0 ?cs = Some (n, [])" using digitsLoop_decimal [of ?cs 0] d assms by simp
  ultimately show ?thesis using digit_allowed [OF c] cs by (simp add: charactersToUIntStrict_def Let_def)
qed

lemma digitsLoop_bound: "digitsLoop base v cs = Some (n, rest) \<Longrightarrow> 0 < base \<Longrightarrow> v < 2 ^ 32 \<Longrightarrow> n < 2 ^ 32"
proof (induction cs arbitrary: v)
  case (Cons c cs)
  show ?case
  proof (cases "isCharacterAllowedInBase c base")
    case True
    define M :: nat where "M = 2 ^ 32 - 1"
    have a: "digitsLoop base (base * v + digitValue c) cs = Some (n, rest)"
      and g: "\<not> (v > M div base \<or> (v = M div base \<and> digitValue c > M mod base))"
      using Cons.prems(1) True by (auto simp: Let_def M_def split: if_splits)
    have dv: "digitValue c < base"
      using True by (auto simp: isCharacterAllowedInBase_def digitValue_def isASCIIDigit_def Let_def split: if_splits)
    have "base * v + digitValue c \<le> M"
    proof (cases "v = M div base")
      case True
      then have "base * v = base * (M div base)" "digitValue c \<le> M mod base" using g by auto
      then show ?thesis using mult_div_mod_eq [of base M] by linarith
    next
      case False
      then have "v + 1 \<le> M div base" using g by linarith
      then have "base * (v + 1) \<le> base * (M div base)" by (rule mult_le_mono2)
      moreover have "base * (M div base) \<le> M" by simp
      ultimately show ?thesis using dv unfolding distrib_left mult_1_right by linarith
    qed
    then have "base * v + digitValue c < 2 ^ 32" by (simp add: M_def)
    from Cons.IH [OF a Cons.prems(2) this] show ?thesis .
  qed (use Cons.prems in simp)
qed simp

section \<open>Protocols and ports\<close>

lemma protocolLoop_iff: "protocolLoop cs ps \<longleftrightarrow> list_all2 isASCIIAlphaCaselessEqual cs ps"
  by (induction cs ps rule: protocolLoop.induct) auto

end
