(* ===== verification/Rules.thy ===== *)
theory Rules
  imports Resource_Info "HOL-Library.Monad_Syntax"
begin

text \<open>
  Rules and their actions: \<^verbatim>\<open>ContentExtensionActions.h\<close>, \<^verbatim>\<open>ContentExtensionRule.h\<close> and
  \<^verbatim>\<open>.cpp\<close>, with the strings they carry. An action is written as a byte for its type, followed by
  its string argument if it has one: four bytes of length, a byte that says whether the characters
  are wide, and the characters.
\<close>

section \<open>Strings\<close>

text \<open>A \<^verbatim>\<open>WTF::String\<close> has characters of 8 or of 16 bits; comparison looks at the characters only.\<close>

record wtf_string =
  is8Bit :: bool
  characters :: "nat list"

definition string_length :: "wtf_string \<Rightarrow> nat" where
  "string_length s = length (characters s)"

definition string_eq :: "wtf_string \<Rightarrow> wtf_string \<Rightarrow> bool" where
  "string_eq s t \<longleftrightarrow> characters s = characters t"

definition emptyString :: wtf_string where
  "emptyString = \<lparr>is8Bit = True, characters = []\<rparr>"

definition ascii8 :: "string \<Rightarrow> wtf_string" where
  "ascii8 s = \<lparr>is8Bit = True, characters = ascii s\<rparr>"

definition wf_string :: "wtf_string \<Rightarrow> bool" where
  "wf_string s \<longleftrightarrow> (\<forall>c \<in> set (characters s). c < (if is8Bit s then 256 else 65536))"

section \<open>Triggers, actions and rules\<close>

datatype ActionType = BlockLoad | BlockCookies | CSSDisplayNoneSelector | Notify | IgnorePreviousRules | MakeHTTPS

fun ActionType_code :: "ActionType \<Rightarrow> byte" where
  "ActionType_code BlockLoad = 0"
| "ActionType_code BlockCookies = 1"
| "ActionType_code CSSDisplayNoneSelector = 2"
| "ActionType_code Notify = 3"
| "ActionType_code IgnorePreviousRules = 4"
| "ActionType_code MakeHTTPS = 5"

fun hasStringArgument :: "ActionType \<Rightarrow> bool" where
  "hasStringArgument CSSDisplayNoneSelector = True"
| "hasStringArgument Notify = True"
| "hasStringArgument BlockLoad = False"
| "hasStringArgument BlockCookies = False"
| "hasStringArgument IgnorePreviousRules = False"
| "hasStringArgument MakeHTTPS = False"

datatype ConditionType = CT_None | CT_IfDomain | CT_UnlessDomain | CT_IfTopURL | CT_UnlessTopURL

record Trigger =
  urlFilter :: wtf_string
  urlFilterIsCaseSensitive :: bool
  topURLConditionIsCaseSensitive :: bool
  trigger_flags :: u16
  conditions :: "wtf_string list"
  conditionType :: ConditionType

definition Trigger_default :: Trigger where
  "Trigger_default = \<lparr>urlFilter = emptyString, urlFilterIsCaseSensitive = False, topURLConditionIsCaseSensitive = False,
     trigger_flags = 0, conditions = [], conditionType = CT_None\<rparr>"

definition Trigger_eq :: "Trigger \<Rightarrow> Trigger \<Rightarrow> bool" where
  "Trigger_eq a b \<longleftrightarrow> string_eq (urlFilter a) (urlFilter b) \<and>
     urlFilterIsCaseSensitive a = urlFilterIsCaseSensitive b \<and>
     topURLConditionIsCaseSensitive a = topURLConditionIsCaseSensitive b \<and>
     trigger_flags a = trigger_flags b \<and>
     list_all2 string_eq (conditions a) (conditions b) \<and> conditionType a = conditionType b"

text \<open>An action without an argument has the null string.\<close>

record Action =
  m_extensionIdentifier :: "wtf_string option"
  m_type :: ActionType
  m_actionID :: nat
  m_stringArgument :: "wtf_string option"

definition Action_string :: "ActionType \<Rightarrow> wtf_string \<Rightarrow> nat \<Rightarrow> Action" where
  "Action_string type stringArgument actionID =
     \<lparr>m_extensionIdentifier = None, m_type = type, m_actionID = actionID, m_stringArgument = Some stringArgument\<rparr>"

definition Action_plain :: "ActionType \<Rightarrow> nat \<Rightarrow> Action" where
  "Action_plain type actionID =
     \<lparr>m_extensionIdentifier = None, m_type = type, m_actionID = actionID, m_stringArgument = None\<rparr>"

definition setExtensionIdentifier :: "wtf_string \<Rightarrow> Action \<Rightarrow> Action" where
  "setExtensionIdentifier extensionIdentifier a = a\<lparr>m_extensionIdentifier := Some extensionIdentifier\<rparr>"

record ContentExtensionRule =
  rule_trigger :: Trigger
  rule_action :: Action

section \<open>Reading actions\<close>

definition ActionType_of :: "byte \<Rightarrow> ActionType option" where
  "ActionType_of b = find (\<lambda>t. ActionType_code t = b)
     [BlockLoad, BlockCookies, CSSDisplayNoneSelector, Notify, IgnorePreviousRules, MakeHTTPS]"

definition read_byte :: "byte list \<Rightarrow> nat \<Rightarrow> byte result" where
  "read_byte actions i = (if i < length actions then Inr (actions ! i) else Inl OutOfBounds)"

definition read_u32 :: "byte list \<Rightarrow> nat \<Rightarrow> nat result" where
  "read_u32 actions i =
     (if i + 4 \<le> length actions then Inr (nat (le_uint (take 4 (drop i actions)))) else Inl OutOfBounds)"

primrec read_wide :: "nat \<Rightarrow> byte list \<Rightarrow> nat list" where
  "read_wide 0 bs = []"
| "read_wide (Suc n) bs = nat (le_uint (take 2 bs)) # read_wide n (drop 2 bs)"

definition deserializeString :: "byte list \<Rightarrow> nat \<Rightarrow> wtf_string result" where
  "deserializeString actions beginIndex =
     (let prefixLength = 5; stringStartIndex = u32 (beginIndex + prefixLength)
      in release_assert (stringStartIndex \<le> length actions)
        (rbind (read_u32 actions beginIndex) (\<lambda>stringLength.
         rbind (read_byte actions (beginIndex + 4)) (\<lambda>wideCharacters.
           if wideCharacters \<noteq> 0
           then release_assert (stringStartIndex + stringLength * 2 \<le> length actions)
             (Inr \<lparr>is8Bit = False, characters = read_wide stringLength (drop stringStartIndex actions)\<rparr>)
           else release_assert (stringStartIndex + stringLength \<le> length actions)
             (Inr \<lparr>is8Bit = True, characters = map unat (take stringLength (drop stringStartIndex actions))\<rparr>)))))"

definition deserialize :: "byte list \<Rightarrow> nat \<Rightarrow> Action result" where
  "deserialize actions location =
     release_assert (location < length actions)
       (case ActionType_of (actions ! location) of
          None \<Rightarrow> Inl ReleaseAssert
        | Some actionType \<Rightarrow>
            if hasStringArgument actionType
            then rbind (deserializeString actions (u32 (location + 1))) (\<lambda>s. Inr (Action_string actionType s location))
            else Inr (Action_plain actionType location))"

definition deserializeType :: "byte list \<Rightarrow> nat \<Rightarrow> ActionType result" where
  "deserializeType actions location =
     release_assert (location < length actions)
       (case ActionType_of (actions ! location) of None \<Rightarrow> Inl ReleaseAssert | Some type \<Rightarrow> Inr type)"

definition serializedLength :: "byte list \<Rightarrow> nat \<Rightarrow> nat result" where
  "serializedLength actions location =
     release_assert (location < length actions)
       (case ActionType_of (actions ! location) of
          None \<Rightarrow> Inl ReleaseAssert
        | Some actionType \<Rightarrow>
            if \<not> hasStringArgument actionType then Inr 1
            else
              let prefixLength = 6; stringStartIndex = u32 (location + prefixLength)
              in release_assert (stringStartIndex \<le> length actions)
                (rbind (read_u32 actions (location + 1)) (\<lambda>stringLength.
                 rbind (read_byte actions (location + 5)) (\<lambda>wideCharacters.
                   if wideCharacters \<noteq> 0 then Inr (u32 (prefixLength + stringLength * 2))
                   else Inr (u32 (prefixLength + stringLength))))))"

section \<open>Writing actions\<close>

definition serializeString :: "wtf_string \<Rightarrow> byte list \<Rightarrow> byte list" where
  "serializeString s actions =
     actions @ le_bytes 4 (int (string_length s)) @ [if is8Bit s then 0 else 1] @
       (if \<not> is8Bit s then concat (map (\<lambda>c. le_bytes 2 (int c)) (characters s))
        else map of_nat (characters s))"

text \<open>The bytes of an action of a given type and argument.\<close>

definition action_bytes :: "ActionType \<Rightarrow> wtf_string option \<Rightarrow> byte list" where
  "action_bytes type arg =
     ActionType_code type # (if hasStringArgument type then serializeString (case arg of None \<Rightarrow> emptyString | Some s \<Rightarrow> s) [] else [])"

section \<open>Round trips\<close>

lemma ActionType_of_code [simp]: "ActionType_of (ActionType_code t) = Some t"
  by (cases t) (simp_all add: ActionType_of_def)

lemma read_u32_bytes:
  assumes "actions = pre @ le_bytes 4 v @ post" and "i = length pre" and "0 \<le> v" and "v < 2 ^ 32"
  shows "read_u32 actions i = Inr (nat v)"
  using assms by (simp add: read_u32_def le_uint_le_bytes)

lemma read_byte_at: "actions = pre @ b # post \<Longrightarrow> i = length pre \<Longrightarrow> read_byte actions i = Inr b"
  by (simp add: read_byte_def)

lemma read_wide_bytes:
  "\<forall>c \<in> set cs. c < 65536 \<Longrightarrow> read_wide (length cs) (concat (map (\<lambda>c. le_bytes 2 (int c)) cs) @ post) = cs"
proof (induction cs)
  case (Cons c cs)
  have "le_uint (le_bytes 2 (int c)) = int c" using Cons.prems by (simp add: le_uint_le_bytes)
  then show ?case using Cons by simp
qed simp

lemma length_wide: "length (concat (map (\<lambda>c. le_bytes 2 (int c)) cs)) = 2 * length cs"
  by (induction cs) simp_all

lemma serializeString_append: "serializeString s actions = actions @ serializeString s []"
  by (simp add: serializeString_def)

lemma length_serializeString:
  "length (serializeString s []) = 5 + (if is8Bit s then 1 else 2) * length (characters s)"
  by (simp add: serializeString_def length_wide)

lemma deserializeString_serialized:
  assumes s: "wf_string s" and len: "length actions < 2 ^ 32"
    and a: "actions = pre @ serializeString s [] @ post" and i: "i = length pre"
  shows "deserializeString actions i = Inr s"
proof -
  define body where "body = (if \<not> is8Bit s then concat (map (\<lambda>c. le_bytes 2 (int c)) (characters s)) else map of_nat (characters s))"
  have split: "actions = pre @ le_bytes 4 (int (length (characters s))) @ [if is8Bit s then 0 else 1] @ body @ post"
    by (simp add: a serializeString_def body_def string_length_def)
  have "length (characters s) \<le> length body" by (simp add: body_def length_wide)
  then have "length (characters s) < 2 ^ 32" using len unfolding split by simp
  then have u: "read_u32 actions i = Inr (length (characters s))"
    using read_u32_bytes [OF split i] by simp
  have b: "read_byte actions (i + 4) = Inr (if is8Bit s then 0 else 1)"
    by (rule read_byte_at [of _ "pre @ le_bytes 4 (int (length (characters s)))" _ "body @ post"]) (simp_all add: split i)
  have d: "drop (i + 5) actions = body @ post" by (simp add: split i)
  have L: "length actions = i + 5 + length body + length post" by (simp add: split i)
  have w: "u32 (i + 5) = i + 5" using L len by (simp add: u32_id)
  show ?thesis
  proof (cases "is8Bit s")
    case True
    then have "map unat (take (length (characters s)) (body @ post)) = characters s"
      using s by (auto simp: body_def wf_string_def unat_of_nat map_idI)
    moreover have "length body = length (characters s)" using True by (simp add: body_def)
    ultimately show ?thesis using True L u b d by (simp add: deserializeString_def w Let_def)
  next
    case False
    then have "read_wide (length (characters s)) (body @ post) = characters s"
      using s by (simp add: body_def wf_string_def read_wide_bytes)
    moreover have "length body = 2 * length (characters s)" using False by (simp add: body_def length_wide)
    ultimately show ?thesis using False L u b d by (simp add: deserializeString_def w Let_def)
  qed
qed

definition arg_ok :: "ActionType \<Rightarrow> wtf_string option \<Rightarrow> bool" where
  "arg_ok type arg \<longleftrightarrow> (if hasStringArgument type then \<exists>s. arg = Some s \<and> wf_string s else arg = None)"

lemma deserialize_serialized:
  assumes ok: "arg_ok type arg" and len: "length actions < 2 ^ 32"
    and a: "actions = pre @ action_bytes type arg @ post" and i: "i = length pre"
  shows "deserialize actions i = Inr \<lparr>m_extensionIdentifier = None, m_type = type, m_actionID = i, m_stringArgument = arg\<rparr>"
    "deserializeType actions i = Inr type"
    "serializedLength actions i = Inr (length (action_bytes type arg))"
proof -
  have t: "i < length actions" "actions ! i = ActionType_code type" by (simp_all add: a i action_bytes_def nth_append)
  then show "deserializeType actions i = Inr type" by (simp add: deserializeType_def)
  show "deserialize actions i = Inr \<lparr>m_extensionIdentifier = None, m_type = type, m_actionID = i, m_stringArgument = arg\<rparr>"
    "serializedLength actions i = Inr (length (action_bytes type arg))"
  proof -
    consider (plain) "\<not> hasStringArgument type" "arg = None" | (str) s where "hasStringArgument type" "arg = Some s" "wf_string s"
      using ok by (auto simp: arg_ok_def split: if_splits)
    then have "deserialize actions i = Inr \<lparr>m_extensionIdentifier = None, m_type = type, m_actionID = i, m_stringArgument = arg\<rparr> \<and>
      serializedLength actions i = Inr (length (action_bytes type arg))"
    proof cases
      case plain
      then show ?thesis using t by (simp add: deserialize_def serializedLength_def Action_plain_def action_bytes_def)
    next
      case (str s)
      have split: "actions = (pre @ [ActionType_code type]) @ serializeString s [] @ post"
        using str by (simp add: a action_bytes_def)
      have L: "length actions = i + 6 + (if is8Bit s then 1 else 2) * length (characters s) + length post"
        by (simp add: split i length_serializeString)
      have w: "u32 (i + 1) = i + 1" "u32 (i + 5) = i + 5" "u32 (i + 6) = i + 6"
        "u32 (6 + length (characters s) * 2) = 6 + length (characters s) * 2" if "\<not> is8Bit s"
        using L len that by (simp_all add: u32_id)
      have w': "u32 (i + 1) = i + 1" "u32 (i + 5) = i + 5" "u32 (i + 6) = i + 6"
        "u32 (6 + length (characters s)) = 6 + length (characters s)"
        using L len by (simp_all add: u32_id split: if_splits)
      have "deserializeString actions (i + 1) = Inr s"
        by (rule deserializeString_serialized [OF str(3) len split]) (simp add: i)
      then have "deserialize actions i = Inr \<lparr>m_extensionIdentifier = None, m_type = type, m_actionID = i, m_stringArgument = arg\<rparr>"
        using t str w'(1) by (simp add: deserialize_def Action_string_def)
      moreover have "read_u32 actions (i + 1) = Inr (length (characters s))"
        using read_u32_bytes [of actions "pre @ [ActionType_code type]" "int (length (characters s))" _ "i + 1"] L len
        by (simp add: split serializeString_def i string_length_def split: if_splits)
      moreover have "read_byte actions (i + 5) = Inr (if is8Bit s then 0 else 1)"
        by (rule read_byte_at [of _ "pre @ [ActionType_code type] @ le_bytes 4 (int (length (characters s)))"])
          (simp_all add: split serializeString_def i string_length_def)
      ultimately show ?thesis
        using t str w w' L by (simp add: serializedLength_def action_bytes_def length_serializeString Let_def)
    qed
    then show "deserialize actions i = Inr \<lparr>m_extensionIdentifier = None, m_type = type, m_actionID = i, m_stringArgument = arg\<rparr>"
      "serializedLength actions i = Inr (length (action_bytes type arg))" by simp_all
  qed
qed

end
