(* ===== verification/Serialize_Actions.thy ===== *)
theory Serialize_Actions
  imports Rules
begin

text \<open>
  \<open>serializeActions\<close> of \<^verbatim>\<open>ContentExtensionCompiler.cpp\<close>: the actions of a rule list written as bytes, rules
  with equal actions sharing one location and the selectors of \<open>css-display-none\<close> rules with equal triggers joined.
  The locations are what the order of rules is later read from, so sharing must not move an action
  across an \<open>ignore-previous-rules\<close> action.
\<close>

section \<open>The code\<close>

text \<open>\<^verbatim>\<open>StringBuilder::append\<close> of a string and of the character \<open>,\<close>.\<close>

definition builder_append :: "wtf_string \<Rightarrow> wtf_string \<Rightarrow> wtf_string" where
  "builder_append b s =
     (if characters s = [] then b
      else if characters b = [] then s
      else \<lparr>is8Bit = (is8Bit b \<and> (is8Bit s \<or> length (characters s) = 1 \<and> hd (characters s) < 256)),
            characters = characters b @ characters s\<rparr>)"

definition builder_append_comma :: "wtf_string \<Rightarrow> wtf_string" where
  "builder_append_comma b = b\<lparr>characters := characters b @ [44]\<rparr>"

record PendingDisplayNoneActions =
  combinedSelectors :: wtf_string
  clientLocations :: "nat list"

type_synonym pending_map = "(Trigger \<times> PendingDisplayNoneActions) list"

record serialize_state =
  ss_actions :: "byte list"
  actionLocations :: "nat list"
  blockLoadActionsMap :: "u16 \<rightharpoonup> nat"
  blockCookiesActionsMap :: "u16 \<rightharpoonup> nat"
  cssDisplayNoneActionsMap :: pending_map
  ignorePreviousRuleActionsMap :: "u16 \<rightharpoonup> nat"
  makeHTTPSActionsMap :: "u16 \<rightharpoonup> nat"
  notifyActionsMap :: "(nat list \<times> u16) \<rightharpoonup> nat"

definition initial_state :: serialize_state where
  "initial_state = \<lparr>ss_actions = [], actionLocations = [], blockLoadActionsMap = Map.empty, blockCookiesActionsMap = Map.empty,
     cssDisplayNoneActionsMap = [], ignorePreviousRuleActionsMap = Map.empty, makeHTTPSActionsMap = Map.empty,
     notifyActionsMap = Map.empty\<rparr>"

text \<open>\<open>resolvePendingDisplayNoneActions\<close>; \<open>ord\<close> is the order in which the hash map is iterated.\<close>

definition resolveEntry :: "Trigger \<times> PendingDisplayNoneActions \<Rightarrow> serialize_state \<Rightarrow> serialize_state" where
  "resolveEntry e st =
     (let actionLocation = length (ss_actions st)
      in st\<lparr>ss_actions := serializeString (combinedSelectors (snd e)) (ss_actions st @ [ActionType_code CSSDisplayNoneSelector]),
            actionLocations := fold (\<lambda>clientLocation ls. ls[clientLocation := actionLocation]) (clientLocations (snd e)) (actionLocations st)\<rparr>)"

definition resolvePendingDisplayNoneActions ::
  "(Trigger \<times> PendingDisplayNoneActions) iteration_order \<Rightarrow> serialize_state \<Rightarrow> serialize_state" where
  "resolvePendingDisplayNoneActions ord st =
     (fold resolveEntry (ord (cssDisplayNoneActionsMap st)) st)\<lparr>cssDisplayNoneActionsMap := []\<rparr>"

definition findOrMakeActionLocation :: "ActionType \<Rightarrow> u16 \<Rightarrow> (u16 \<rightharpoonup> nat) \<Rightarrow> byte list \<Rightarrow> nat \<times> (u16 \<rightharpoonup> nat) \<times> byte list" where
  "findOrMakeActionLocation actionType flags m actions =
     (case m flags of
        None \<Rightarrow> (length actions, m(flags \<mapsto> length actions), actions @ [ActionType_code actionType])
      | Some l \<Rightarrow> (l, m, actions))"

definition findOrMakeStringActionLocation ::
  "ActionType \<Rightarrow> wtf_string \<Rightarrow> u16 \<Rightarrow> (nat list \<times> u16 \<rightharpoonup> nat) \<Rightarrow> byte list \<Rightarrow> nat \<times> (nat list \<times> u16 \<rightharpoonup> nat) \<times> byte list" where
  "findOrMakeStringActionLocation actionType argument flags m actions =
     (case m (characters argument, flags) of
        None \<Rightarrow> (length actions, m((characters argument, flags) \<mapsto> length actions),
                serializeString argument (actions @ [ActionType_code actionType]))
      | Some l \<Rightarrow> (l, m, actions))"

definition stringArgument :: "Action \<Rightarrow> wtf_string" where
  "stringArgument a = (case m_stringArgument a of None \<Rightarrow> emptyString | Some s \<Rightarrow> s)"

text \<open>\<^verbatim>\<open>cssDisplayNoneActionsMap.add\<close> and the update of the entry it returns.\<close>

definition add_selector :: "wtf_string \<Rightarrow> nat \<Rightarrow> PendingDisplayNoneActions \<Rightarrow> PendingDisplayNoneActions" where
  "add_selector argument client p =
     p\<lparr>combinedSelectors :=
         builder_append (if characters (combinedSelectors p) \<noteq> [] then builder_append_comma (combinedSelectors p) else combinedSelectors p) argument,
       clientLocations := clientLocations p @ [client]\<rparr>"

fun pending_add :: "Trigger \<Rightarrow> wtf_string \<Rightarrow> nat \<Rightarrow> pending_map \<Rightarrow> pending_map" where
  "pending_add t argument client [] = [(t, add_selector argument client \<lparr>combinedSelectors = emptyString, clientLocations = []\<rparr>)]"
| "pending_add t argument client ((t', p) # m) =
     (if Trigger_eq t' t then (t', add_selector argument client p) # m else (t', p) # pending_add t argument client m)"

definition startRule :: "(Trigger \<times> PendingDisplayNoneActions) iteration_order \<Rightarrow> ActionType \<Rightarrow> serialize_state \<Rightarrow> serialize_state" where
  "startRule ord actionType st =
     (if actionType = IgnorePreviousRules
      then (resolvePendingDisplayNoneActions ord st)\<lparr>blockLoadActionsMap := Map.empty, blockCookiesActionsMap := Map.empty,
        cssDisplayNoneActionsMap := [], makeHTTPSActionsMap := Map.empty, notifyActionsMap := Map.empty\<rparr>
      else st\<lparr>ignorePreviousRuleActionsMap := Map.empty\<rparr>)"

definition pushAction :: "Action \<Rightarrow> serialize_state \<Rightarrow> serialize_state" where
  "pushAction a st =
     st\<lparr>actionLocations := actionLocations st @ [length (ss_actions st)],
        ss_actions := (if hasStringArgument (m_type a)
           then serializeString (stringArgument a) (ss_actions st @ [ActionType_code (m_type a)])
           else ss_actions st @ [ActionType_code (m_type a)])\<rparr>"

definition mergeAction :: "Trigger \<Rightarrow> Action \<Rightarrow> serialize_state \<Rightarrow> serialize_state" where
  "mergeAction t a st =
     (let flags = trigger_flags t; actionType = m_type a
      in case actionType of
           CSSDisplayNoneSelector \<Rightarrow>
             st\<lparr>cssDisplayNoneActionsMap := pending_add t (stringArgument a) (length (actionLocations st)) (cssDisplayNoneActionsMap st),
                actionLocations := actionLocations st @ [2 ^ 32 - 1]\<rparr>
         | IgnorePreviousRules \<Rightarrow>
             (case findOrMakeActionLocation actionType flags (ignorePreviousRuleActionsMap st) (ss_actions st) of (l, m, actions) \<Rightarrow>
                st\<lparr>ignorePreviousRuleActionsMap := m, ss_actions := actions, actionLocations := actionLocations st @ [l]\<rparr>)
         | BlockLoad \<Rightarrow>
             (case findOrMakeActionLocation actionType flags (blockLoadActionsMap st) (ss_actions st) of (l, m, actions) \<Rightarrow>
                st\<lparr>blockLoadActionsMap := m, ss_actions := actions, actionLocations := actionLocations st @ [l]\<rparr>)
         | BlockCookies \<Rightarrow>
             (case findOrMakeActionLocation actionType flags (blockCookiesActionsMap st) (ss_actions st) of (l, m, actions) \<Rightarrow>
                st\<lparr>blockCookiesActionsMap := m, ss_actions := actions, actionLocations := actionLocations st @ [l]\<rparr>)
         | MakeHTTPS \<Rightarrow>
             (case findOrMakeActionLocation actionType flags (makeHTTPSActionsMap st) (ss_actions st) of (l, m, actions) \<Rightarrow>
                st\<lparr>makeHTTPSActionsMap := m, ss_actions := actions, actionLocations := actionLocations st @ [l]\<rparr>)
         | Notify \<Rightarrow>
             (case findOrMakeStringActionLocation actionType (stringArgument a) flags (notifyActionsMap st) (ss_actions st) of (l, m, actions) \<Rightarrow>
                st\<lparr>notifyActionsMap := m, ss_actions := actions, actionLocations := actionLocations st @ [l]\<rparr>))"

definition serializeRule ::
  "(Trigger \<times> PendingDisplayNoneActions) iteration_order \<Rightarrow> ContentExtensionRule \<Rightarrow> serialize_state \<Rightarrow> serialize_state" where
  "serializeRule ord rule st =
     (let st1 = startRule ord (m_type (rule_action rule)) st
      in if conditions (rule_trigger rule) \<noteq> [] then pushAction (rule_action rule) st1
         else mergeAction (rule_trigger rule) (rule_action rule) st1)"

definition serializeActions ::
  "(Trigger \<times> PendingDisplayNoneActions) iteration_order \<Rightarrow> ContentExtensionRule list \<Rightarrow> byte list \<times> nat list" where
  "serializeActions ord ruleList =
     (let st = resolvePendingDisplayNoneActions ord (fold (serializeRule ord) ruleList initial_state)
      in (ss_actions st, actionLocations st))"

section \<open>What the bytes hold\<close>

text \<open>A list of actions written one after the other, and the location of an action in it.\<close>

type_synonym emitted = "(ActionType \<times> wtf_string option) list"

definition stream :: "emitted \<Rightarrow> byte list" where
  "stream E = concat (map (\<lambda>(t, a). action_bytes t a) E)"

definition emitted_at :: "emitted \<Rightarrow> nat \<Rightarrow> ActionType \<Rightarrow> wtf_string option \<Rightarrow> bool" where
  "emitted_at E l t a \<longleftrightarrow> (\<exists>E1 E2. E = E1 @ (t, a) # E2 \<and> l = length (stream E1))"

definition emitted_ok :: "emitted \<Rightarrow> bool" where
  "emitted_ok E \<longleftrightarrow> (\<forall>(t, a) \<in> set E. arg_ok t a)"

lemma emitted_ok_simps [simp]: "emitted_ok []" "emitted_ok (E @ F) \<longleftrightarrow> emitted_ok E \<and> emitted_ok F"
  "emitted_ok ((t, a) # E) \<longleftrightarrow> arg_ok t a \<and> emitted_ok E"
  by (auto simp: emitted_ok_def)

lemma stream_simps [simp]: "stream [] = []" "stream (E @ F) = stream E @ stream F" "stream [(t, a)] = action_bytes t a"
  by (simp_all add: stream_def)

lemma emitted_at_append: "emitted_at E l t a \<Longrightarrow> emitted_at (E @ F) l t a"
  unfolding emitted_at_def by (elim exE conjE) (metis append.assoc append_Cons)

lemma emitted_at_new: "emitted_at (E @ [(t, a)]) (length (stream E)) t a"
  unfolding emitted_at_def by blast

lemma action_bytes_nonempty [simp]: "action_bytes t a \<noteq> []"
  by (simp add: action_bytes_def)

lemma emitted_at_less: "emitted_at E l t a \<Longrightarrow> l < length (stream E)"
  unfolding emitted_at_def by (auto simp: stream_def action_bytes_def)

lemma emitted_deserialize:
  assumes "emitted_at E l t a" and "arg_ok t a" and "length (stream E) < 2 ^ 32"
  shows "deserialize (stream E) l = Inr \<lparr>m_extensionIdentifier = None, m_type = t, m_actionID = l, m_stringArgument = a\<rparr>"
proof -
  obtain E1 E2 where E: "E = E1 @ (t, a) # E2" "l = length (stream E1)" using assms(1) by (auto simp: emitted_at_def)
  then have "stream E = stream E1 @ action_bytes t a @ stream E2" by (simp add: stream_def)
  from deserialize_serialized(1) [OF assms(2,3) this E(2)] show ?thesis .
qed

text \<open>Selectors joined with commas.\<close>

definition css_join :: "nat list list \<Rightarrow> nat list" where
  "css_join cs = foldl (\<lambda>acc c. if acc = [] then c else acc @ (44 # c)) [] cs"


section \<open>The invariant\<close>

abbreviation rule_type :: "ContentExtensionRule \<Rightarrow> ActionType" where
  "rule_type r \<equiv> m_type (rule_action r)"

abbreviation rule_arg :: "ContentExtensionRule \<Rightarrow> wtf_string option" where
  "rule_arg r \<equiv> m_stringArgument (rule_action r)"

definition ignores :: "ContentExtensionRule \<Rightarrow> bool" where
  "ignores r \<longleftrightarrow> rule_type r = IgnorePreviousRules"

definition joinable :: "ContentExtensionRule \<Rightarrow> bool" where
  "joinable r \<longleftrightarrow> rule_type r = CSSDisplayNoneSelector \<and> conditions (rule_trigger r) = []"

definition rule_ok :: "ContentExtensionRule \<Rightarrow> bool" where
  "rule_ok r \<longleftrightarrow> arg_ok (rule_type r) (rule_arg r)"

definition selectors :: "ContentExtensionRule list \<Rightarrow> nat list \<Rightarrow> nat list list" where
  "selectors rs G = map (\<lambda>j. characters (stringArgument (rule_action (rs ! j)))) G"

text \<open>Rules whose selectors are joined: equal triggers, no conditions.\<close>

definition group :: "ContentExtensionRule list \<Rightarrow> Trigger \<Rightarrow> nat list \<Rightarrow> bool" where
  "group rs t G \<longleftrightarrow> (\<forall>j \<in> set G. j < length rs \<and> joinable (rs ! j) \<and> Trigger_eq t (rule_trigger (rs ! j)))"

text \<open>The action at the location of a rule is the action of the rule, or the joined one of its group.\<close>

definition located :: "ContentExtensionRule list \<Rightarrow> emitted \<Rightarrow> nat \<Rightarrow> nat \<Rightarrow> bool" where
  "located rs E l i \<longleftrightarrow> (\<exists>a. emitted_at E l (rule_type (rs ! i)) a \<and> arg_ok (rule_type (rs ! i)) a \<and>
     (if joinable (rs ! i)
      then \<exists>t G s. group rs t G \<and> i \<in> set G \<and> a = Some s \<and> characters s = css_join (selectors rs G)
      else map_option characters a = map_option characters (rule_arg (rs ! i))))"

definition pending :: "pending_map \<Rightarrow> nat set" where
  "pending m = (\<Union>e \<in> set m. set (clientLocations (snd e)))"

definition pending_entry :: "ContentExtensionRule list \<Rightarrow> Trigger \<times> PendingDisplayNoneActions \<Rightarrow> bool" where
  "pending_entry rs e \<longleftrightarrow> group rs (fst e) (clientLocations (snd e)) \<and> wf_string (combinedSelectors (snd e)) \<and>
     characters (combinedSelectors (snd e)) = css_join (selectors rs (clientLocations (snd e)))"

definition above :: "ContentExtensionRule list \<Rightarrow> nat list \<Rightarrow> nat \<Rightarrow> bool" where
  "above rs L l \<longleftrightarrow> (\<forall>i < length rs. ignores (rs ! i) \<longrightarrow> L ! i < l)"

definition plain_map :: "ContentExtensionRule list \<Rightarrow> emitted \<Rightarrow> nat list \<Rightarrow> ActionType \<Rightarrow> (u16 \<rightharpoonup> nat) \<Rightarrow> bool" where
  "plain_map rs E L t m \<longleftrightarrow> (\<forall>f l. m f = Some l \<longrightarrow> emitted_at E l t None \<and> above rs L l)"

definition notify_map :: "ContentExtensionRule list \<Rightarrow> emitted \<Rightarrow> nat list \<Rightarrow> (nat list \<times> u16 \<rightharpoonup> nat) \<Rightarrow> bool" where
  "notify_map rs E L m \<longleftrightarrow> (\<forall>cs f l. m (cs, f) = Some l \<longrightarrow>
     (\<exists>s. emitted_at E l Notify (Some s) \<and> wf_string s \<and> characters s = cs) \<and> above rs L l)"

definition below :: "ContentExtensionRule list \<Rightarrow> pending_map \<Rightarrow> nat list \<Rightarrow> nat \<Rightarrow> bool" where
  "below rs m L l \<longleftrightarrow> (\<forall>j < length rs. \<not> ignores (rs ! j) \<longrightarrow> j \<notin> pending m \<and> L ! j < l)"

definition ordered :: "ContentExtensionRule list \<Rightarrow> pending_map \<Rightarrow> nat list \<Rightarrow> bool" where
  "ordered rs m L \<longleftrightarrow> (\<forall>i < length rs. \<forall>j < length rs. ignores (rs ! i) \<longrightarrow> \<not> ignores (rs ! j) \<longrightarrow>
     (i < j \<longrightarrow> j \<in> pending m \<or> L ! i < L ! j) \<and> (j < i \<longrightarrow> j \<notin> pending m \<and> L ! j < L ! i))"

definition sinv :: "ContentExtensionRule list \<Rightarrow> emitted \<Rightarrow> serialize_state \<Rightarrow> bool" where
  "sinv rs E st \<longleftrightarrow>
     ss_actions st = stream E \<and> emitted_ok E \<and> length (actionLocations st) = length rs \<and>
     (\<forall>i < length rs. i \<in> pending (cssDisplayNoneActionsMap st) \<or> located rs E (actionLocations st ! i) i) \<and>
     ordered rs (cssDisplayNoneActionsMap st) (actionLocations st) \<and>
     (\<forall>e \<in> set (cssDisplayNoneActionsMap st). pending_entry rs e) \<and>
     sorted_wrt (\<lambda>d e. \<not> Trigger_eq (fst d) (fst e)) (cssDisplayNoneActionsMap st) \<and>
     plain_map rs E (actionLocations st) BlockLoad (blockLoadActionsMap st) \<and>
     plain_map rs E (actionLocations st) BlockCookies (blockCookiesActionsMap st) \<and>
     plain_map rs E (actionLocations st) MakeHTTPS (makeHTTPSActionsMap st) \<and>
     notify_map rs E (actionLocations st) (notifyActionsMap st) \<and>
     (\<forall>f l. ignorePreviousRuleActionsMap st f = Some l \<longrightarrow>
        emitted_at E l IgnorePreviousRules None \<and> below rs (cssDisplayNoneActionsMap st) (actionLocations st) l)"

lemma string_eq_refl [simp]: "string_eq s s" by (simp add: string_eq_def)

lemma Trigger_eq_refl [simp]: "Trigger_eq t t"
  by (simp add: Trigger_eq_def list_all2_conv_all_nth)

lemma located_emitted: "located rs E l i \<Longrightarrow> l < length (stream E)"
  unfolding located_def using emitted_at_less by blast

lemma located_mono:
  assumes "located rs E l i" and "i < length rs"
  shows "located (rs @ [r]) (E @ F) l i"
proof -
  have g: "group rs t G \<Longrightarrow> group (rs @ [r]) t G" "group rs t G \<Longrightarrow> selectors (rs @ [r]) G = selectors rs G" for t G
    by (auto simp: group_def selectors_def nth_append)
  have i: "(rs @ [r]) ! i = rs ! i" using assms(2) by (simp add: nth_append)
  show ?thesis
    using assms(1) g unfolding located_def i by (cases "joinable (rs ! i)") (auto intro: emitted_at_append, metis emitted_at_append)
qed

lemma located_grow: "located rs E l i \<Longrightarrow> located rs (E @ F) l i"
  unfolding located_def using emitted_at_append by metis

section \<open>Resolving pending selectors\<close>

lemma resolve_entries:
  assumes "\<forall>e \<in> set es. pending_entry rs e" and "ss_actions st = stream E" and "length (actionLocations st) = length rs"
  shows "\<exists>F. ss_actions (fold resolveEntry es st) = stream (E @ F) \<and> emitted_ok F \<and>
    length (actionLocations (fold resolveEntry es st)) = length rs \<and>
    (\<forall>j < length rs. actionLocations (fold resolveEntry es st) ! j = actionLocations st ! j \<and> j \<notin> pending es \<or>
       j \<in> pending es \<and> length (stream E) \<le> actionLocations (fold resolveEntry es st) ! j \<and>
       located rs (E @ F) (actionLocations (fold resolveEntry es st) ! j) j)"
  using assms
proof (induction es arbitrary: st E)
  case Nil
  then show ?case by (intro exI [of _ "[]"]) (simp add: pending_def)
next
  case (Cons e es)
  define s where "s = combinedSelectors (snd e)"
  define F1 where "F1 = [(CSSDisplayNoneSelector, Some s)]"
  let ?st = "resolveEntry e st" and ?G = "clientLocations (snd e)"
  have e: "group rs (fst e) ?G" "wf_string s" "characters s = css_join (selectors rs ?G)"
    using Cons.prems(1) by (simp_all add: pending_entry_def s_def)
  have a: "ss_actions ?st = stream (E @ F1)"
    using Cons.prems(2) serializeString_append [of s "stream E @ [2]"]
    by (simp add: resolveEntry_def F1_def action_bytes_def s_def Let_def)
  have len: "length (actionLocations ?st) = length rs" using Cons.prems(3) by (simp add: resolveEntry_def Let_def)
  have L: "actionLocations ?st ! j = (if j \<in> set ?G then length (stream E) else actionLocations st ! j)" if "j < length rs" for j
    using that Cons.prems(2,3) nth_fold_list_update [of j "actionLocations st" "\<lambda>i. i"] by (simp add: resolveEntry_def Let_def)
  obtain F where F0: "emitted_ok F" and F: "ss_actions (fold resolveEntry es ?st) = stream ((E @ F1) @ F)"
    "length (actionLocations (fold resolveEntry es ?st)) = length rs"
    "\<And>j. j < length rs \<Longrightarrow> actionLocations (fold resolveEntry es ?st) ! j = actionLocations ?st ! j \<and> j \<notin> pending es \<or>
       j \<in> pending es \<and> length (stream (E @ F1)) \<le> actionLocations (fold resolveEntry es ?st) ! j \<and>
       located rs ((E @ F1) @ F) (actionLocations (fold resolveEntry es ?st) ! j) j"
    using Cons.IH [OF _ a len] Cons.prems(1) by auto
  have new: "located rs (E @ F1) (length (stream E)) j" if "j \<in> set ?G" for j
  proof -
    have "j < length rs" "joinable (rs ! j)" using e(1) that by (simp_all add: group_def)
    then show ?thesis
      unfolding located_def F1_def using e that emitted_at_new [of E CSSDisplayNoneSelector "Some s"]
      by (intro exI [of _ "Some s"]) (auto simp: joinable_def arg_ok_def)
  qed
  show ?case
  proof (intro exI [of _ "F1 @ F"] conjI allI impI)
    show "ss_actions (fold resolveEntry (e # es) st) = stream (E @ F1 @ F)" using F(1) by simp
    show "emitted_ok (F1 @ F)" using F0 e(2) by (simp add: F1_def arg_ok_def)
    show "length (actionLocations (fold resolveEntry (e # es) st)) = length rs" using F(2) by simp
    fix j
    assume j: "j < length rs"
    have p: "j \<in> pending (e # es) \<longleftrightarrow> j \<in> set ?G \<or> j \<in> pending es" by (simp add: pending_def)
    show "actionLocations (fold resolveEntry (e # es) st) ! j = actionLocations st ! j \<and> j \<notin> pending (e # es) \<or>
       j \<in> pending (e # es) \<and> length (stream E) \<le> actionLocations (fold resolveEntry (e # es) st) ! j \<and>
       located rs (E @ F1 @ F) (actionLocations (fold resolveEntry (e # es) st) ! j) j"
      using F(3) [OF j] L [OF j] located_grow [OF new, of j F] by (auto simp: p)
  qed
qed


lemma sinvD:
  assumes "sinv rs E st"
  shows "ss_actions st = stream E" "length (actionLocations st) = length rs"
    "i < length rs \<Longrightarrow> i \<in> pending (cssDisplayNoneActionsMap st) \<or> located rs E (actionLocations st ! i) i"
    "ordered rs (cssDisplayNoneActionsMap st) (actionLocations st)"
    "\<forall>e \<in> set (cssDisplayNoneActionsMap st). pending_entry rs e"
    "sorted_wrt (\<lambda>d e. \<not> Trigger_eq (fst d) (fst e)) (cssDisplayNoneActionsMap st)"
    "plain_map rs E (actionLocations st) BlockLoad (blockLoadActionsMap st)"
    "plain_map rs E (actionLocations st) BlockCookies (blockCookiesActionsMap st)"
    "plain_map rs E (actionLocations st) MakeHTTPS (makeHTTPSActionsMap st)"
    "notify_map rs E (actionLocations st) (notifyActionsMap st)"
    "ignorePreviousRuleActionsMap st f = Some l \<Longrightarrow>
        emitted_at E l IgnorePreviousRules None \<and> below rs (cssDisplayNoneActionsMap st) (actionLocations st) l"
  using assms by (simp_all add: sinv_def)

lemma sinv_emitted: "sinv rs E st \<Longrightarrow> emitted_ok E"
  by (simp add: sinv_def)

lemma pending_joinable:
  assumes "sinv rs E st" and "i \<in> pending (cssDisplayNoneActionsMap st)"
  shows "i < length rs" "joinable (rs ! i)" "\<not> ignores (rs ! i)"
  using assms(2) sinvD(5) [OF assms(1)]
  by (auto simp: pending_def pending_entry_def group_def joinable_def ignores_def)

lemma ignores_located:
  assumes "sinv rs E st" and "i < length rs" and "ignores (rs ! i)"
  shows "actionLocations st ! i < length (stream E)"
  using sinvD(3) [OF assms(1,2)] pending_joinable(3) [OF assms(1), of i] assms(3) located_emitted by blast

lemma pending_entries_distinct:
  assumes "sinv rs E st"
  shows "distinct (cssDisplayNoneActionsMap st)"
proof -
  have "sorted_wrt (\<lambda>d e. \<not> Trigger_eq (fst d) (fst e)) m \<Longrightarrow> distinct m" for m :: pending_map
    by (induction m) auto
  then show ?thesis using sinvD(6) [OF assms] .
qed

lemma resolveEntry_maps [simp]:
  "blockLoadActionsMap (fold resolveEntry es st) = blockLoadActionsMap st"
  "blockCookiesActionsMap (fold resolveEntry es st) = blockCookiesActionsMap st"
  "ignorePreviousRuleActionsMap (fold resolveEntry es st) = ignorePreviousRuleActionsMap st"
  "makeHTTPSActionsMap (fold resolveEntry es st) = makeHTTPSActionsMap st"
  "notifyActionsMap (fold resolveEntry es st) = notifyActionsMap st"
  by (induction es arbitrary: st) (simp_all add: resolveEntry_def Let_def)

lemma plain_map_mono:
  assumes "plain_map rs E L t m" and "\<And>i. i < length rs \<Longrightarrow> ignores (rs ! i) \<Longrightarrow> L' ! i = L ! i"
  shows "plain_map rs (E @ F) L' t m"
  using assms by (auto simp: plain_map_def above_def intro: emitted_at_append)

lemma notify_map_mono:
  assumes "notify_map rs E L m" and "\<And>i. i < length rs \<Longrightarrow> ignores (rs ! i) \<Longrightarrow> L' ! i = L ! i"
  shows "notify_map rs (E @ F) L' m"
  using assms unfolding notify_map_def above_def by (metis emitted_at_append)

lemma orderedD:
  assumes "ordered rs m L" and "i < length rs" and "j < length rs" and "ignores (rs ! i)" and "\<not> ignores (rs ! j)"
  shows "i < j \<Longrightarrow> j \<in> pending m \<or> L ! i < L ! j" "j < i \<Longrightarrow> j \<notin> pending m \<and> L ! j < L ! i"
  using assms by (simp_all add: ordered_def)

lemma resolve_inv:
  assumes inv: "sinv rs E st" and ord: "enumerates ord"
  shows "\<exists>F. sinv rs (E @ F) (resolvePendingDisplayNoneActions ord st)"
proof -
  let ?m = "cssDisplayNoneActionsMap st" and ?L = "actionLocations st"
  have es: "set (ord ?m) = set ?m" using enumerates_set [OF ord pending_entries_distinct [OF inv]] .
  then have p: "pending (ord ?m) = pending ?m" by (simp add: pending_def)
  obtain F where F0: "emitted_ok F" and F: "ss_actions (fold resolveEntry (ord ?m) st) = stream (E @ F)"
    "length (actionLocations (fold resolveEntry (ord ?m) st)) = length rs"
    "\<And>j. j < length rs \<Longrightarrow> actionLocations (fold resolveEntry (ord ?m) st) ! j = ?L ! j \<and> j \<notin> pending ?m \<or>
       j \<in> pending ?m \<and> length (stream E) \<le> actionLocations (fold resolveEntry (ord ?m) st) ! j \<and>
       located rs (E @ F) (actionLocations (fold resolveEntry (ord ?m) st) ! j) j"
    using resolve_entries [of "ord ?m" rs st E] sinvD(1,2,5) [OF inv] es p by auto
  define L' where "L' = actionLocations (fold resolveEntry (ord ?m) st)"
  note F3 = F(3) [folded L'_def]
  have ign: "L' ! i = ?L ! i" if "i < length rs" "ignores (rs ! i)" for i
    using F3 [OF that(1)] pending_joinable(3) [OF inv, of i] that(2) by auto
  have "located rs (E @ F) (L' ! i) i" if "i < length rs" for i
    using F3 [OF that] sinvD(3) [OF inv that] located_grow by metis
  moreover have "ordered rs [] L'"
  proof -
    have "L' ! i < L' ! j" if ij: "i < length rs" "j < length rs" "ignores (rs ! i)" "\<not> ignores (rs ! j)" "i < j" for i j
      using orderedD(1) [OF sinvD(4) [OF inv] ij] F3 [OF ij(2)] ign [OF ij(1,3)] ignores_located [OF inv ij(1,3)] by auto
    moreover have "L' ! j < L' ! i" if ij: "i < length rs" "j < length rs" "ignores (rs ! i)" "\<not> ignores (rs ! j)" "j < i" for i j
      using orderedD(2) [OF sinvD(4) [OF inv] ij] F3 [OF ij(2)] ign [OF ij(1,3)] by auto
    ultimately show ?thesis by (simp add: ordered_def pending_def)
  qed
  moreover have "below rs [] L' l" if "below rs ?m ?L l" for l
    using that F3 by (fastforce simp: below_def pending_def)
  ultimately have "sinv rs (E @ F) (resolvePendingDisplayNoneActions ord st)"
    using F0 F(1,2) sinv_emitted [OF inv] sinvD(11) [OF inv] plain_map_mono [OF sinvD(7) [OF inv] ign] plain_map_mono [OF sinvD(8) [OF inv] ign]
      plain_map_mono [OF sinvD(9) [OF inv] ign] notify_map_mono [OF sinvD(10) [OF inv] ign] emitted_at_append
    by (simp add: sinv_def resolvePendingDisplayNoneActions_def flip: L'_def)
  then show ?thesis ..
qed


section \<open>One rule\<close>

definition started :: "ActionType \<Rightarrow> serialize_state \<Rightarrow> bool" where
  "started t st \<longleftrightarrow>
     (if t = IgnorePreviousRules
      then cssDisplayNoneActionsMap st = [] \<and> blockLoadActionsMap st = Map.empty \<and> blockCookiesActionsMap st = Map.empty \<and>
        makeHTTPSActionsMap st = Map.empty \<and> notifyActionsMap st = Map.empty
      else ignorePreviousRuleActionsMap st = Map.empty)"

lemma startRule_inv:
  assumes "sinv rs E st" and "enumerates ord"
  shows "\<exists>F. sinv rs (E @ F) (startRule ord t st) \<and> started t (startRule ord t st)"
proof (cases "t = IgnorePreviousRules")
  case True
  obtain F where F: "sinv rs (E @ F) (resolvePendingDisplayNoneActions ord st)" using resolve_inv [OF assms] by blast
  have "cssDisplayNoneActionsMap (resolvePendingDisplayNoneActions ord st) = []" by (simp add: resolvePendingDisplayNoneActions_def)
  then show ?thesis using F True
    by (intro exI [of _ F]) (simp add: startRule_def started_def sinv_def plain_map_def notify_map_def)
next
  case False
  then show ?thesis using assms(1)
    by (intro exI [of _ "[]"]) (simp add: startRule_def started_def sinv_def)
qed

text \<open>A rule whose location \<open>l\<close> is known: the maps \<open>bl\<close>, \<open>bc\<close>, \<open>ig\<close>, \<open>mh\<close>, \<open>nt\<close> may have gained \<open>l\<close>.\<close>

definition appended :: "serialize_state \<Rightarrow> emitted \<Rightarrow> nat \<Rightarrow> serialize_state \<Rightarrow> bool" where
  "appended st E l st' \<longleftrightarrow> ss_actions st' = stream E \<and> actionLocations st' = actionLocations st @ [l] \<and>
     cssDisplayNoneActionsMap st' = cssDisplayNoneActionsMap st"

lemma plain_map_snoc:
  assumes "plain_map rs E L t m" and "length L = length rs" and "ignores r \<Longrightarrow> m = Map.empty"
  shows "plain_map (rs @ [r]) (E @ F) (L @ [l]) t m"
  using assms by (auto simp: plain_map_def above_def nth_append less_Suc_eq intro: emitted_at_append)

lemma notify_map_snoc:
  assumes "notify_map rs E L m" and "length L = length rs" and "ignores r \<Longrightarrow> m = Map.empty"
  shows "notify_map (rs @ [r]) (E @ F) (L @ [l]) m"
  using assms unfolding notify_map_def above_def
  by (cases "ignores r") (auto simp: nth_append less_Suc_eq, metis emitted_at_append)

lemma below_snoc:
  assumes "below rs m L l" and "length L = length rs" and "ignores r"
  shows "below (rs @ [r]) m (L @ [l']) l"
  using assms by (auto simp: below_def nth_append less_Suc_eq)

lemma pending_entry_snoc: "pending_entry rs e \<Longrightarrow> pending_entry (rs @ [r]) e"
proof -
  assume "pending_entry rs e"
  moreover from this have "selectors (rs @ [r]) (clientLocations (snd e)) = selectors rs (clientLocations (snd e))"
    by (auto simp: pending_entry_def group_def selectors_def nth_append)
  ultimately show ?thesis by (auto simp: pending_entry_def group_def nth_append)
qed

lemma append_inv:
  assumes inv: "sinv rs E st" and start: "started (rule_type r) st" and app: "appended st (E @ F) l st'"
    and F: "emitted_ok F" and loc: "located (rs @ [r]) (E @ F) l (length rs)"
    and lo: "\<not> ignores r \<Longrightarrow> above rs (actionLocations st) l"
    and hi: "ignores r \<Longrightarrow> below rs (cssDisplayNoneActionsMap st) (actionLocations st) l"
    and maps: "plain_map (rs @ [r]) (E @ F) (actionLocations st') BlockLoad (blockLoadActionsMap st')"
      "plain_map (rs @ [r]) (E @ F) (actionLocations st') BlockCookies (blockCookiesActionsMap st')"
      "plain_map (rs @ [r]) (E @ F) (actionLocations st') MakeHTTPS (makeHTTPSActionsMap st')"
      "notify_map (rs @ [r]) (E @ F) (actionLocations st') (notifyActionsMap st')"
      "\<forall>f l. ignorePreviousRuleActionsMap st' f = Some l \<longrightarrow> emitted_at (E @ F) l IgnorePreviousRules None \<and>
        below (rs @ [r]) (cssDisplayNoneActionsMap st') (actionLocations st') l"
  shows "sinv (rs @ [r]) (E @ F) st'"
proof -
  have a: "ss_actions st' = stream (E @ F)" "actionLocations st' = actionLocations st @ [l]"
    "cssDisplayNoneActionsMap st' = cssDisplayNoneActionsMap st" using app by (simp_all add: appended_def)
  have len: "length (actionLocations st) = length rs" using sinvD(2) [OF inv] .
  have "i \<in> pending (cssDisplayNoneActionsMap st) \<or> located (rs @ [r]) (E @ F) (actionLocations st' ! i) i"
    if "i < length (rs @ [r])" for i
    using that loc sinvD(3) [OF inv, of i] located_mono [of rs E _ i r F] len by (cases "i = length rs") (auto simp: a nth_append)
  moreover have "ordered (rs @ [r]) (cssDisplayNoneActionsMap st) (actionLocations st')"
    unfolding ordered_def
  proof (intro allI impI)
    fix i j
    assume ij: "i < length (rs @ [r])" "j < length (rs @ [r])" "ignores ((rs @ [r]) ! i)" "\<not> ignores ((rs @ [r]) ! j)"
    have np: "length rs \<notin> pending (cssDisplayNoneActionsMap st)" using pending_joinable(1) [OF inv] by blast
    show "(i < j \<longrightarrow> j \<in> pending (cssDisplayNoneActionsMap st) \<or> actionLocations st' ! i < actionLocations st' ! j) \<and>
      (j < i \<longrightarrow> j \<notin> pending (cssDisplayNoneActionsMap st) \<and> actionLocations st' ! j < actionLocations st' ! i)"
    proof (cases "i = length rs")
      case True
      then have "j < length rs" "ignores r" "\<not> ignores (rs ! j)" using ij by (auto simp: nth_append less_Suc_eq)
      then show ?thesis using hi True len by (simp add: below_def a nth_append)
    next
      case False
      then have i: "i < length rs" "ignores (rs ! i)" using ij by (auto simp: nth_append less_Suc_eq)
      show ?thesis
      proof (cases "j = length rs")
        case True
        then have "\<not> ignores r" using ij by (simp add: nth_append)
        then show ?thesis using lo True i len by (simp add: above_def a nth_append)
      next
        case False
        then have "j < length rs" "\<not> ignores (rs ! j)" using ij by (auto simp: nth_append less_Suc_eq)
        then show ?thesis using orderedD [OF sinvD(4) [OF inv], of i j] i len by (simp add: a nth_append)
      qed
    qed
  qed
  ultimately show ?thesis
    using a len maps F sinv_emitted [OF inv] sinvD(5,6) [OF inv] pending_entry_snoc unfolding sinv_def by simp
qed


lemma located_action:
  assumes "emitted_at E l (rule_type r) a" and "arg_ok (rule_type r) a" and "\<not> joinable r"
    and "map_option characters a = map_option characters (rule_arg r)"
  shows "located (rs @ [r]) E l (length rs)"
  using assms by (auto simp: located_def)

lemma above_end: "sinv rs E st \<Longrightarrow> above rs (actionLocations st) (length (stream E))"
  using ignores_located by (auto simp: above_def)

lemma below_end:
  assumes "sinv rs E st" and "cssDisplayNoneActionsMap st = []"
  shows "below rs (cssDisplayNoneActionsMap st) (actionLocations st) (length (stream E))"
proof -
  have "pending (cssDisplayNoneActionsMap st) = {}" by (simp add: assms(2) pending_def)
  then have "located rs E (actionLocations st ! j) j" if "j < length rs" for j using sinvD(3) [OF assms(1) that] by simp
  from located_emitted [OF this] show ?thesis by (simp add: below_def assms(2) pending_def)
qed

lemma action_stream:
  "arg_ok t a \<Longrightarrow> (if hasStringArgument t then serializeString (case a of None \<Rightarrow> emptyString | Some s \<Rightarrow> s) (stream E @ [ActionType_code t])
     else stream E @ [ActionType_code t]) = stream (E @ [(t, a)])"
  using serializeString_append [of _ "stream E @ [ActionType_code t]"] by (simp add: action_bytes_def)

lemma other_maps:
  assumes inv: "sinv rs E st" and start: "started (rule_type r) st"
  shows "plain_map (rs @ [r]) (E @ F) (actionLocations st @ [l]) BlockLoad (blockLoadActionsMap st)"
    "plain_map (rs @ [r]) (E @ F) (actionLocations st @ [l]) BlockCookies (blockCookiesActionsMap st)"
    "plain_map (rs @ [r]) (E @ F) (actionLocations st @ [l]) MakeHTTPS (makeHTTPSActionsMap st)"
    "notify_map (rs @ [r]) (E @ F) (actionLocations st @ [l]) (notifyActionsMap st)"
    "\<forall>f k. ignorePreviousRuleActionsMap st f = Some k \<longrightarrow> emitted_at (E @ F) k IgnorePreviousRules None \<and>
        below (rs @ [r]) (cssDisplayNoneActionsMap st) (actionLocations st @ [l]) k"
proof -
  note len = sinvD(2) [OF inv]
  have e: "blockLoadActionsMap st = Map.empty" "blockCookiesActionsMap st = Map.empty" "makeHTTPSActionsMap st = Map.empty"
    "notifyActionsMap st = Map.empty" if "ignores r" using start that by (simp_all add: started_def ignores_def)
  show "plain_map (rs @ [r]) (E @ F) (actionLocations st @ [l]) BlockLoad (blockLoadActionsMap st)"
    "plain_map (rs @ [r]) (E @ F) (actionLocations st @ [l]) BlockCookies (blockCookiesActionsMap st)"
    "plain_map (rs @ [r]) (E @ F) (actionLocations st @ [l]) MakeHTTPS (makeHTTPSActionsMap st)"
    "notify_map (rs @ [r]) (E @ F) (actionLocations st @ [l]) (notifyActionsMap st)"
    using plain_map_snoc [OF sinvD(7) [OF inv] len e(1)] plain_map_snoc [OF sinvD(8) [OF inv] len e(2)]
      plain_map_snoc [OF sinvD(9) [OF inv] len e(3)] notify_map_snoc [OF sinvD(10) [OF inv] len e(4)] by blast+
  show "\<forall>f k. ignorePreviousRuleActionsMap st f = Some k \<longrightarrow> emitted_at (E @ F) k IgnorePreviousRules None \<and>
        below (rs @ [r]) (cssDisplayNoneActionsMap st) (actionLocations st @ [l]) k"
  proof (intro allI impI)
    fix f k
    assume k: "ignorePreviousRuleActionsMap st f = Some k"
    then have "ignores r" using start by (auto simp: started_def ignores_def split: if_splits)
    then show "emitted_at (E @ F) k IgnorePreviousRules None \<and> below (rs @ [r]) (cssDisplayNoneActionsMap st) (actionLocations st @ [l]) k"
      using sinvD(11) [OF inv k] below_snoc [OF _ len] emitted_at_append by blast
  qed
qed

lemma pushAction_inv:
  assumes inv: "sinv rs E st" and start: "started (rule_type r) st" and ok: "rule_ok r" and c: "conditions (rule_trigger r) \<noteq> []"
  shows "\<exists>F. sinv (rs @ [r]) (E @ F) (pushAction (rule_action r) st)"
proof -
  let ?F = "[(rule_type r, rule_arg r)]" and ?st = "pushAction (rule_action r) st"
  have app: "appended st (E @ ?F) (length (stream E)) ?st"
    using sinvD(1) [OF inv] action_stream [OF ok [unfolded rule_ok_def], of E]
    by (simp add: appended_def pushAction_def stringArgument_def split: if_splits)
  have loc: "located (rs @ [r]) (E @ ?F) (length (stream E)) (length rs)"
    by (rule located_action [OF emitted_at_new]) (use ok c in \<open>simp_all add: rule_ok_def joinable_def\<close>)
  have L: "actionLocations ?st = actionLocations st @ [length (stream E)]" "cssDisplayNoneActionsMap ?st = cssDisplayNoneActionsMap st"
    "blockLoadActionsMap ?st = blockLoadActionsMap st" "blockCookiesActionsMap ?st = blockCookiesActionsMap st"
    "makeHTTPSActionsMap ?st = makeHTTPSActionsMap st" "notifyActionsMap ?st = notifyActionsMap st"
    "ignorePreviousRuleActionsMap ?st = ignorePreviousRuleActionsMap st"
    using sinvD(1) [OF inv] by (simp_all add: pushAction_def)
  have "sinv (rs @ [r]) (E @ ?F) ?st"
  proof (rule append_inv [OF inv start app _ loc])
    show "emitted_ok ?F" using ok by (simp add: rule_ok_def)
    show "ignores r \<Longrightarrow> below rs (cssDisplayNoneActionsMap st) (actionLocations st) (length (stream E))"
      using below_end [OF inv] start by (simp add: started_def ignores_def)
  qed (use above_end [OF inv] other_maps [OF inv start] in \<open>simp_all add: L\<close>)
  then show ?thesis ..
qed

text \<open>A location that is found or made in one of the maps by flags.\<close>

lemma findOrMake_plain:
  assumes inv: "sinv rs E st" and start: "started t st" and r: "rule_type r = t" "rule_arg r = None" "\<not> hasStringArgument t"
    and ig: "t \<noteq> IgnorePreviousRules" and m: "plain_map rs E (actionLocations st) t m"
    and f: "findOrMakeActionLocation t f m (stream E) = (l, m', actions)"
  shows "\<exists>F. actions = stream (E @ F) \<and> emitted_ok F \<and> located (rs @ [r]) (E @ F) l (length rs) \<and> above rs (actionLocations st) l \<and>
    plain_map (rs @ [r]) (E @ F) (actionLocations st @ [l]) t m'"
proof (cases "m f")
  case None
  let ?F = "[(t, None)] :: emitted"
  have l: "l = length (stream E)" "m' = m(f \<mapsto> l)" "actions = stream E @ [ActionType_code t]"
    using f None by (auto simp: findOrMakeActionLocation_def)
  have nj: "\<not> joinable r" "\<not> ignores r" using r ig by (auto simp: joinable_def ignores_def)
  have "actions = stream (E @ ?F)" "emitted_ok ?F" using l(3) r(3) by (simp_all add: action_bytes_def arg_ok_def)
  moreover have "located (rs @ [r]) (E @ ?F) l (length rs)"
    using located_action [of "E @ ?F" l r None rs] emitted_at_new [of E t None] l(1) r nj by (simp add: arg_ok_def)
  moreover have a: "above rs (actionLocations st) l" using above_end [OF inv] l(1) by simp
  moreover have "plain_map (rs @ [r]) (E @ ?F) (actionLocations st @ [l]) t m'"
  proof -
    have "above (rs @ [r]) (actionLocations st @ [l]) l"
      using a nj(2) sinvD(2) [OF inv] by (auto simp: above_def nth_append less_Suc_eq)
    then show ?thesis
      using plain_map_snoc [OF m sinvD(2) [OF inv], of r ?F l] nj(2) emitted_at_new [of E t None] l(1)
      by (auto simp: plain_map_def l(2))
  qed
  ultimately show ?thesis by blast
next
  case (Some k)
  then have l: "l = k" "m' = m" "actions = stream E" using f by (auto simp: findOrMakeActionLocation_def)
  have k: "emitted_at E k t None" "above rs (actionLocations st) k" using m Some by (simp_all add: plain_map_def)
  have nj: "\<not> joinable r" "\<not> ignores r" using r ig by (auto simp: joinable_def ignores_def)
  have "located (rs @ [r]) (E @ []) l (length rs)"
    using located_action [of E k r None rs] k(1) r nj l(1) by (simp add: arg_ok_def)
  moreover have "plain_map (rs @ [r]) (E @ []) (actionLocations st @ [l]) t m'"
    using plain_map_snoc [OF m sinvD(2) [OF inv], of r "[]" l] nj(2) l(2) by simp
  ultimately show ?thesis using l k by (intro exI [of _ "[]"]) simp
qed


lemma findOrMake_ignore:
  assumes inv: "sinv rs E st" and start: "started IgnorePreviousRules st"
    and r: "rule_type r = IgnorePreviousRules" "rule_arg r = None"
    and f: "findOrMakeActionLocation IgnorePreviousRules f (ignorePreviousRuleActionsMap st) (stream E) = (l, m', actions)"
  shows "\<exists>F. actions = stream (E @ F) \<and> emitted_ok F \<and> located (rs @ [r]) (E @ F) l (length rs) \<and>
    below rs (cssDisplayNoneActionsMap st) (actionLocations st) l \<and>
    (\<forall>g k. m' g = Some k \<longrightarrow> emitted_at (E @ F) k IgnorePreviousRules None \<and>
       below (rs @ [r]) (cssDisplayNoneActionsMap st) (actionLocations st @ [l]) k)"
proof -
  let ?m = "ignorePreviousRuleActionsMap st"
  have nj: "\<not> joinable r" "ignores r" using r by (auto simp: joinable_def ignores_def)
  have st: "started (rule_type r) st" using start r by simp
  show ?thesis
  proof (cases "?m f")
    case None
    let ?F = "[(IgnorePreviousRules, None)] :: emitted"
    have l: "l = length (stream E)" "m' = ?m(f \<mapsto> l)" "actions = stream E @ [ActionType_code IgnorePreviousRules]"
      using f None by (auto simp: findOrMakeActionLocation_def)
    have b: "below rs (cssDisplayNoneActionsMap st) (actionLocations st) l"
      using below_end [OF inv] start l(1) by (simp add: started_def)
    have "located (rs @ [r]) (E @ ?F) l (length rs)"
      using located_action [of "E @ ?F" l r None rs] emitted_at_new [of E IgnorePreviousRules None] l(1) r nj by (simp add: arg_ok_def)
    moreover have "emitted_at (E @ ?F) k IgnorePreviousRules None \<and> below (rs @ [r]) (cssDisplayNoneActionsMap st) (actionLocations st @ [l]) k"
      if "m' g = Some k" for g k
      using that other_maps(5) [OF inv st, of ?F l] emitted_at_new [of E IgnorePreviousRules None] b below_snoc [OF b sinvD(2) [OF inv] nj(2), of l] l(1)
      by (auto simp: l(2) split: if_splits)
    ultimately show ?thesis using l(3) b by (intro exI [of _ ?F]) (simp add: action_bytes_def arg_ok_def)
  next
    case (Some k)
    then have l: "l = k" "m' = ?m" "actions = stream E" using f by (auto simp: findOrMakeActionLocation_def)
    have k: "emitted_at E k IgnorePreviousRules None" "below rs (cssDisplayNoneActionsMap st) (actionLocations st) k"
      using sinvD(11) [OF inv Some] by simp_all
    have "located (rs @ [r]) (E @ []) l (length rs)"
      using located_action [of E k r None rs] k(1) r nj l(1) by (simp add: arg_ok_def)
    then show ?thesis using l k other_maps(5) [OF inv st, of "[]" l] by (intro exI [of _ "[]"]) simp
  qed
qed

lemma findOrMake_notify:
  assumes inv: "sinv rs E st" and r: "rule_type r = Notify" "rule_arg r = Some s" "wf_string s"
    and f: "findOrMakeStringActionLocation Notify s f (notifyActionsMap st) (stream E) = (l, m', actions)"
  shows "\<exists>F. actions = stream (E @ F) \<and> emitted_ok F \<and> located (rs @ [r]) (E @ F) l (length rs) \<and> above rs (actionLocations st) l \<and>
    notify_map (rs @ [r]) (E @ F) (actionLocations st @ [l]) m'"
proof -
  let ?m = "notifyActionsMap st"
  have nj: "\<not> joinable r" "\<not> ignores r" using r by (auto simp: joinable_def ignores_def)
  note snoc = notify_map_snoc [OF sinvD(10) [OF inv] sinvD(2) [OF inv], of r]
  show ?thesis
  proof (cases "?m (characters s, f)")
    case None
    let ?F = "[(Notify, Some s)]"
    have l: "l = length (stream E)" "m' = ?m((characters s, f) \<mapsto> l)" "actions = serializeString s (stream E @ [ActionType_code Notify])"
      using f None by (auto simp: findOrMakeStringActionLocation_def)
    have "actions = stream (E @ ?F)" "emitted_ok ?F" using l(3) action_stream [of Notify "Some s" E] r(3) by (simp_all add: arg_ok_def)
    moreover have "located (rs @ [r]) (E @ ?F) l (length rs)"
      using located_action [of "E @ ?F" l r "Some s" rs] emitted_at_new [of E Notify "Some s"] l(1) r nj by (simp add: arg_ok_def)
    moreover have a: "above rs (actionLocations st) l" using above_end [OF inv] l(1) by simp
    moreover have "notify_map (rs @ [r]) (E @ ?F) (actionLocations st @ [l]) m'"
    proof -
      have "above (rs @ [r]) (actionLocations st @ [l]) l"
        using a nj(2) sinvD(2) [OF inv] by (auto simp: above_def nth_append less_Suc_eq)
      moreover have "notify_map (rs @ [r]) (E @ ?F) (actionLocations st @ [l]) ?m" using snoc nj(2) by blast
      ultimately show ?thesis
        using emitted_at_new [of E Notify "Some s"] r(3) unfolding notify_map_def l(2) by (auto simp: l(1))
    qed
    ultimately show ?thesis by blast
  next
    case (Some k)
    then have l: "l = k" "m' = ?m" "actions = stream E" using f by (auto simp: findOrMakeStringActionLocation_def)
    obtain s' where k: "emitted_at E k Notify (Some s')" "wf_string s'" "characters s' = characters s" "above rs (actionLocations st) k"
      using sinvD(10) [OF inv] Some unfolding notify_map_def by blast
    have "located (rs @ [r]) (E @ []) l (length rs)"
      using located_action [of E k r "Some s'" rs] k r nj l(1) by (simp add: arg_ok_def)
    then show ?thesis using l k(4) snoc [of "[]" l] nj(2) by (intro exI [of _ "[]"]) simp
  qed
qed


section \<open>Joining selectors\<close>

lemma css_join_snoc: "css_join (cs @ [c]) = (if css_join cs = [] then c else css_join cs @ 44 # c)"
  by (simp add: css_join_def)

lemma css_join_Nil [simp]: "css_join [] = []"
  by (simp add: css_join_def)

lemma add_selector_characters:
  "characters (combinedSelectors (add_selector s n p)) =
     (if characters (combinedSelectors p) = [] then characters s else characters (combinedSelectors p) @ 44 # characters s)"
  by (simp add: add_selector_def builder_append_def builder_append_comma_def)

lemma wf_builder_append: "wf_string b \<Longrightarrow> wf_string s \<Longrightarrow> wf_string (builder_append b s)"
proof -
  assume b: "wf_string b" and s: "wf_string s"
  have w: "\<forall>c \<in> set (characters t). c < 65536" if "wf_string t" for t
    using that by (cases "is8Bit t") (auto simp: wf_string_def)
  have n: "\<forall>c \<in> set (characters s). c < 256" if "is8Bit s \<or> length (characters s) = 1 \<and> hd (characters s) < 256"
    using that s by (cases "characters s") (auto simp: wf_string_def)
  consider "characters s = []" | "characters s \<noteq> []" "characters b = []" | "characters s \<noteq> []" "characters b \<noteq> []" by blast
  then show ?thesis
  proof cases
    case 3
    then show ?thesis using w [OF b] w [OF s] n b
      by (cases "is8Bit b \<and> (is8Bit s \<or> length (characters s) = 1 \<and> hd (characters s) < 256)")
        (auto simp: builder_append_def wf_string_def)
  qed (use b s in \<open>simp_all add: builder_append_def\<close>)
qed

lemma wf_comma: "wf_string b \<Longrightarrow> wf_string (builder_append_comma b)"
  by (simp add: builder_append_comma_def wf_string_def)

lemma wf_add_selector: "wf_string (combinedSelectors p) \<Longrightarrow> wf_string s \<Longrightarrow> wf_string (combinedSelectors (add_selector s n p))"
  by (simp add: add_selector_def wf_builder_append wf_comma)

lemma add_selector_entry:
  assumes r: "joinable r" "wf_string (stringArgument (rule_action r))" and t: "Trigger_eq t (rule_trigger r)"
    and g: "group rs t (clientLocations p)" "wf_string (combinedSelectors p)"
      "characters (combinedSelectors p) = css_join (selectors rs (clientLocations p))"
  shows "pending_entry (rs @ [r]) (t, add_selector (stringArgument (rule_action r)) (length rs) p)"
proof -
  have c: "clientLocations (add_selector (stringArgument (rule_action r)) (length rs) p) = clientLocations p @ [length rs]"
    by (simp add: add_selector_def)
  have "selectors (rs @ [r]) (clientLocations p) = selectors rs (clientLocations p)"
    using g(1) by (auto simp: group_def selectors_def nth_append)
  then have sel: "selectors (rs @ [r]) (clientLocations p @ [length rs]) = selectors rs (clientLocations p) @ [characters (stringArgument (rule_action r))]"
    by (simp add: selectors_def)
  have "group (rs @ [r]) t (clientLocations p @ [length rs])" using g(1) r(1) t by (auto simp: group_def nth_append)
  then show ?thesis
    using wf_add_selector [OF g(2) r(2)] by (simp add: pending_entry_def c sel css_join_snoc add_selector_characters g(3))
qed

lemma pending_add_entries:
  assumes r: "joinable r" "wf_string (stringArgument (rule_action r))" and m: "\<forall>e \<in> set m. pending_entry rs e"
  shows "\<forall>e \<in> set (pending_add (rule_trigger r) (stringArgument (rule_action r)) (length rs) m). pending_entry (rs @ [r]) e"
  using m
proof (induction m)
  case Nil
  have "pending_entry (rs @ [r]) (rule_trigger r, add_selector (stringArgument (rule_action r)) (length rs) \<lparr>combinedSelectors = emptyString, clientLocations = []\<rparr>)"
    by (rule add_selector_entry [OF r Trigger_eq_refl]) (simp_all add: group_def selectors_def emptyString_def wf_string_def)
  then show ?case by simp
next
  case (Cons e m)
  obtain t p where e: "e = (t, p)" by (cases e)
  show ?case
  proof (cases "Trigger_eq t (rule_trigger r)")
    case True
    have "pending_entry (rs @ [r]) (t, add_selector (stringArgument (rule_action r)) (length rs) p)"
      by (rule add_selector_entry [OF r True]) (use Cons.prems in \<open>simp_all add: e pending_entry_def\<close>)
    then show ?thesis using Cons.prems True pending_entry_snoc by (auto simp: e)
  next
    case False
    then show ?thesis using Cons pending_entry_snoc by (auto simp: e)
  qed
qed

lemma pending_add_pending: "pending (pending_add t s n m) = insert n (pending m)"
  by (induction t s n m rule: pending_add.induct) (auto simp: pending_def add_selector_def)

lemma pending_add_keys:
  "fst ` set (pending_add t s n m) \<subseteq> insert t (fst ` set m)"
  by (induction t s n m rule: pending_add.induct) auto

lemma pending_add_sorted:
  assumes "sorted_wrt (\<lambda>d e. \<not> Trigger_eq (fst d) (fst e)) m"
  shows "sorted_wrt (\<lambda>d e. \<not> Trigger_eq (fst d) (fst e)) (pending_add t s n m)"
  using assms
proof (induction t s n m rule: pending_add.induct)
  case (2 t s n t' p m)
  have "\<not> Trigger_eq t' (fst e)" if "\<not> Trigger_eq t' t" "e \<in> set (pending_add t s n m)" for e
    using pending_add_keys [of t s n m] that 2(2) by fastforce
  then show ?case using 2 by auto
qed simp

lemma css_inv:
  assumes inv: "sinv rs E st" and start: "started (rule_type r) st" and r: "joinable r" "rule_ok r"
  shows "sinv (rs @ [r]) E (mergeAction (rule_trigger r) (rule_action r) st)"
proof -
  let ?m = "cssDisplayNoneActionsMap st" and ?L = "actionLocations st"
  let ?m' = "pending_add (rule_trigger r) (stringArgument (rule_action r)) (length rs) ?m"
  note len = sinvD(2) [OF inv]
  have ty: "rule_type r = CSSDisplayNoneSelector" using r(1) by (simp add: joinable_def)
  then have ni: "\<not> ignores r" by (simp add: ignores_def)
  have wf: "wf_string (stringArgument (rule_action r))"
    using r(2) ty by (auto simp: rule_ok_def arg_ok_def stringArgument_def)
  have p: "pending ?m' = insert (length rs) (pending ?m)" by (rule pending_add_pending)
  have "i \<in> pending ?m' \<or> located (rs @ [r]) E ((?L @ [x]) ! i) i" if "i < length (rs @ [r])" for i x
    using that sinvD(3) [OF inv, of i] located_mono [of rs E _ i r "[]"] len by (cases "i = length rs") (auto simp: p nth_append)
  moreover have "ordered (rs @ [r]) ?m' (?L @ [x])" for x
    unfolding ordered_def p
  proof (intro allI impI)
    fix i j
    assume ij: "i < length (rs @ [r])" "j < length (rs @ [r])" "ignores ((rs @ [r]) ! i)" "\<not> ignores ((rs @ [r]) ! j)"
    then have i: "i < length rs" "ignores (rs ! i)" using ni by (auto simp: nth_append less_Suc_eq split: if_splits)
    show "(i < j \<longrightarrow> j \<in> insert (length rs) (pending ?m) \<or> (?L @ [x]) ! i < (?L @ [x]) ! j) \<and>
      (j < i \<longrightarrow> j \<notin> insert (length rs) (pending ?m) \<and> (?L @ [x]) ! j < (?L @ [x]) ! i)"
    proof (cases "j = length rs")
      case False
      then have "j < length rs" "\<not> ignores (rs ! j)" using ij by (auto simp: nth_append less_Suc_eq)
      then show ?thesis using orderedD [OF sinvD(4) [OF inv] i(1) _ i(2), of j] i len by (auto simp: nth_append)
    qed (use i in simp)
  qed
  moreover note pending_add_entries [OF r(1) wf sinvD(5) [OF inv]] pending_add_sorted [OF sinvD(6) [OF inv]]
  moreover have "ignorePreviousRuleActionsMap st = Map.empty" using start ty by (simp add: started_def)
  ultimately show ?thesis
    using sinvD(1) [OF inv] sinv_emitted [OF inv] len other_maps(1-4) [OF inv start, of "[]"]
    unfolding sinv_def mergeAction_def Let_def ty by simp
qed


section \<open>The whole list\<close>

lemma mergeAction_inv:
  assumes inv: "sinv rs E st" and start: "started (rule_type r) st" and ok: "rule_ok r" and c: "conditions (rule_trigger r) = []"
  shows "\<exists>F. sinv (rs @ [r]) (E @ F) (mergeAction (rule_trigger r) (rule_action r) st)"
proof -
  let ?st = "mergeAction (rule_trigger r) (rule_action r) st" and ?f = "trigger_flags (rule_trigger r)"
  note a = sinvD(1) [OF inv] and maps = other_maps [OF inv start]
  have plain: "rule_arg r = None" if "\<not> hasStringArgument (rule_type r)" using ok that by (simp add: rule_ok_def arg_ok_def)
  show ?thesis
  proof (cases "rule_type r")
    case BlockLoad
    obtain l m acts where f: "findOrMakeActionLocation BlockLoad ?f (blockLoadActionsMap st) (stream E) = (l, m, acts)" by (cases "findOrMakeActionLocation BlockLoad ?f (blockLoadActionsMap st) (stream E)")
    obtain F where F: "acts = stream (E @ F)" "emitted_ok F" "located (rs @ [r]) (E @ F) l (length rs)" "above rs (actionLocations st) l"
      "plain_map (rs @ [r]) (E @ F) (actionLocations st @ [l]) BlockLoad m"
      using findOrMake_plain [OF inv _ BlockLoad _ _ _ sinvD(7) [OF inv] f] start BlockLoad plain by auto
    have "sinv (rs @ [r]) (E @ F) ?st"
      by (rule append_inv [OF inv start _ F(2,3)])
        (use F maps f a BlockLoad in \<open>simp_all add: appended_def mergeAction_def ignores_def\<close>)
    then show ?thesis ..
  next
    case BlockCookies
    obtain l m acts where f: "findOrMakeActionLocation BlockCookies ?f (blockCookiesActionsMap st) (stream E) = (l, m, acts)" by (cases "findOrMakeActionLocation BlockCookies ?f (blockCookiesActionsMap st) (stream E)")
    obtain F where F: "acts = stream (E @ F)" "emitted_ok F" "located (rs @ [r]) (E @ F) l (length rs)" "above rs (actionLocations st) l"
      "plain_map (rs @ [r]) (E @ F) (actionLocations st @ [l]) BlockCookies m"
      using findOrMake_plain [OF inv _ BlockCookies _ _ _ sinvD(8) [OF inv] f] start BlockCookies plain by auto
    have "sinv (rs @ [r]) (E @ F) ?st"
      by (rule append_inv [OF inv start _ F(2,3)])
        (use F maps f a BlockCookies in \<open>simp_all add: appended_def mergeAction_def ignores_def\<close>)
    then show ?thesis ..
  next
    case MakeHTTPS
    obtain l m acts where f: "findOrMakeActionLocation MakeHTTPS ?f (makeHTTPSActionsMap st) (stream E) = (l, m, acts)" by (cases "findOrMakeActionLocation MakeHTTPS ?f (makeHTTPSActionsMap st) (stream E)")
    obtain F where F: "acts = stream (E @ F)" "emitted_ok F" "located (rs @ [r]) (E @ F) l (length rs)" "above rs (actionLocations st) l"
      "plain_map (rs @ [r]) (E @ F) (actionLocations st @ [l]) MakeHTTPS m"
      using findOrMake_plain [OF inv _ MakeHTTPS _ _ _ sinvD(9) [OF inv] f] start MakeHTTPS plain by auto
    have "sinv (rs @ [r]) (E @ F) ?st"
      by (rule append_inv [OF inv start _ F(2,3)])
        (use F maps f a MakeHTTPS in \<open>simp_all add: appended_def mergeAction_def ignores_def\<close>)
    then show ?thesis ..
  next
    case IgnorePreviousRules
    obtain l m acts where f: "findOrMakeActionLocation IgnorePreviousRules ?f (ignorePreviousRuleActionsMap st) (stream E) = (l, m, acts)" by (cases "findOrMakeActionLocation IgnorePreviousRules ?f (ignorePreviousRuleActionsMap st) (stream E)")
    obtain F where F: "acts = stream (E @ F)" "emitted_ok F" "located (rs @ [r]) (E @ F) l (length rs)"
      "below rs (cssDisplayNoneActionsMap st) (actionLocations st) l"
      "\<forall>g k. m g = Some k \<longrightarrow> emitted_at (E @ F) k IgnorePreviousRules None \<and>
        below (rs @ [r]) (cssDisplayNoneActionsMap st) (actionLocations st @ [l]) k"
      using findOrMake_ignore [OF inv _ IgnorePreviousRules _ f] start IgnorePreviousRules plain by auto
    have "sinv (rs @ [r]) (E @ F) ?st"
      by (rule append_inv [OF inv start _ F(2,3)])
        (use F maps f a IgnorePreviousRules in \<open>simp_all add: appended_def mergeAction_def ignores_def\<close>)
    then show ?thesis ..
  next
    case Notify
    then obtain s where s: "rule_arg r = Some s" "wf_string s" using ok by (auto simp: rule_ok_def arg_ok_def)
    then have sa: "stringArgument (rule_action r) = s" by (simp add: stringArgument_def)
    obtain l m acts where f: "findOrMakeStringActionLocation Notify s ?f (notifyActionsMap st) (stream E) = (l, m, acts)" by (cases "findOrMakeStringActionLocation Notify s ?f (notifyActionsMap st) (stream E)")
    obtain F where F: "acts = stream (E @ F)" "emitted_ok F" "located (rs @ [r]) (E @ F) l (length rs)" "above rs (actionLocations st) l"
      "notify_map (rs @ [r]) (E @ F) (actionLocations st @ [l]) m"
      using findOrMake_notify [OF inv Notify s f] by auto
    have "sinv (rs @ [r]) (E @ F) ?st"
      by (rule append_inv [OF inv start _ F(2,3)])
        (use F maps f a Notify sa in \<open>simp_all add: appended_def mergeAction_def ignores_def\<close>)
    then show ?thesis ..
  next
    case CSSDisplayNoneSelector
    then have "sinv (rs @ [r]) (E @ []) ?st" using css_inv [OF inv start _ ok] c by (simp add: joinable_def)
    then show ?thesis ..
  qed
qed

lemma serializeRule_inv:
  assumes inv: "sinv rs E st" and ord: "enumerates ord" and ok: "rule_ok r"
  shows "\<exists>E'. sinv (rs @ [r]) E' (serializeRule ord r st)"
proof -
  obtain F where F: "sinv rs (E @ F) (startRule ord (rule_type r) st)" "started (rule_type r) (startRule ord (rule_type r) st)"
    using startRule_inv [OF inv ord] by blast
  show ?thesis
    using pushAction_inv [OF F ok] mergeAction_inv [OF F ok] by (auto simp: serializeRule_def Let_def)
qed

lemma serializeRules_inv:
  assumes ord: "enumerates ord" and "\<forall>r \<in> set rules. rule_ok r" and "sinv rs E st"
  shows "\<exists>E'. sinv (rs @ rules) E' (fold (serializeRule ord) rules st)"
  using assms(2,3)
proof (induction rules arbitrary: rs E st)
  case (Cons r rules)
  obtain E' where "sinv (rs @ [r]) E' (serializeRule ord r st)" using serializeRule_inv [OF Cons.prems(2) ord] Cons.prems(1) by auto
  from Cons.IH [OF _ this] Cons.prems(1) show ?case by simp
qed auto

lemma serializeActions_inv:
  assumes ord: "enumerates ord" and ok: "\<forall>r \<in> set rules. rule_ok r" and s: "serializeActions ord rules = (actions, locations)"
  shows "\<exists>E. actions = stream E \<and> emitted_ok E \<and> length locations = length rules \<and>
    (\<forall>i < length rules. located rules E (locations ! i) i) \<and> ordered rules [] locations"
proof -
  have "sinv [] [] initial_state" by (simp add: sinv_def initial_state_def ordered_def plain_map_def notify_map_def)
  then obtain E where "sinv rules E (fold (serializeRule ord) rules initial_state)"
    using serializeRules_inv [OF ord ok, of "[]"] by auto
  from resolve_inv [OF this ord] obtain F where
    inv: "sinv rules (E @ F) (resolvePendingDisplayNoneActions ord (fold (serializeRule ord) rules initial_state))" by blast
  let ?st = "resolvePendingDisplayNoneActions ord (fold (serializeRule ord) rules initial_state)"
  have p: "cssDisplayNoneActionsMap ?st = []" by (simp add: resolvePendingDisplayNoneActions_def)
  have "actions = ss_actions ?st" "locations = actionLocations ?st" using s by (simp_all add: serializeActions_def Let_def)
  then show ?thesis
    using sinvD(1-4) [OF inv] sinv_emitted [OF inv] by (intro exI [of _ "E @ F"]) (auto simp: p pending_def)
qed


lemma located_read:
  assumes "located rs E l i" and "length (stream E) < 2 ^ 32"
  shows "\<exists>a. deserialize (stream E) l = Inr a \<and> m_type a = rule_type (rs ! i) \<and>
    (if joinable (rs ! i)
     then \<exists>t G. group rs t G \<and> i \<in> set G \<and> characters (stringArgument a) = css_join (selectors rs G)
     else map_option characters (m_stringArgument a) = map_option characters (rule_arg (rs ! i)))"
proof -
  obtain a where a: "emitted_at E l (rule_type (rs ! i)) a" "arg_ok (rule_type (rs ! i)) a"
    and c: "if joinable (rs ! i)
       then \<exists>t G s. group rs t G \<and> i \<in> set G \<and> a = Some s \<and> characters s = css_join (selectors rs G)
       else map_option characters a = map_option characters (rule_arg (rs ! i))"
    using assms(1) unfolding located_def by blast
  note d = emitted_deserialize [OF a assms(2)]
  show ?thesis
  proof (cases "joinable (rs ! i)")
    case True
    then obtain t G s where g: "group rs t G" "i \<in> set G" "a = Some s" "characters s = css_join (selectors rs G)" using c by auto
    have "characters (stringArgument \<lparr>m_extensionIdentifier = None, m_type = rule_type (rs ! i), m_actionID = l, m_stringArgument = a\<rparr>)
        = css_join (selectors rs G)" using g(3,4) by (simp add: stringArgument_def)
    then have "\<exists>t G. group rs t G \<and> i \<in> set G \<and>
        characters (stringArgument \<lparr>m_extensionIdentifier = None, m_type = rule_type (rs ! i), m_actionID = l, m_stringArgument = a\<rparr>)
          = css_join (selectors rs G)" using g(1,2) by blast
    then show ?thesis unfolding d using True by simp
  qed (use c d in auto)
qed

end
