(* ===== verification/Content_Extension.thy ===== *)
theory Content_Extension
  imports Url Serialize_Actions Bytecode_Interpreter
begin

text \<open>
  \<^verbatim>\<open>ContentExtension.cpp\<close>: a compiled rule list as it is used when resources are loaded. The constructor
  collects the actions that match every URL and turns the selectors among them into one style sheet; the conditions on
  the URL of the main document are cached for the last such URL. The order in which a hash set is iterated and the outcome of the
  CSS parser are arguments.
\<close>

section \<open>The code\<close>

text \<open>A routine that can crash, or run forever in the interpreter.\<close>

definition obind :: "'a result option \<Rightarrow> ('a \<Rightarrow> 'b result option) \<Rightarrow> 'b result option" where
  "obind m f = (case m of None \<Rightarrow> None | Some (Inl e) \<Rightarrow> Some (Inl e) | Some (Inr x) \<Rightarrow> f x)"

lemma obind_simps [simp]: "obind None f = None" "obind (Some (Inl e)) f = Some (Inl e)" "obind (Some (Inr x)) f = f x"
  by (simp_all add: obind_def)

lemma obind_eq_Inr: "obind m f = Some (Inr y) \<longleftrightarrow> (\<exists>x. m = Some (Inr x) \<and> f x = Some (Inr y))"
  by (auto simp: obind_def split: option.splits sum.splits)

record CompiledContentExtension =
  filtersWithoutConditionsBytecode :: "byte list"
  filtersWithConditionsBytecode :: "byte list"
  topURLFiltersBytecode :: "byte list"
  compiled_actions :: "byte list"
  conditionsApplyOnlyToDomain :: bool

record ContentExtension =
  m_identifier :: wtf_string
  m_compiledExtension :: CompiledContentExtension
  m_globalDisplayNoneStyleSheet :: "wtf_string option"
  m_cachedTopURL :: URL
  m_cachedTopURLActions :: Actions
  m_cachedUniversalConditionedActions :: "nat list"
  m_universalActionsWithoutConditions :: "nat list"
  m_universalActionsWithConditions :: "u64 list"


definition result :: "'a result \<Rightarrow> 'a result option" where
  "result r = Some r"

partial_function (option) findFirstLoop :: "byte list \<Rightarrow> nat \<Rightarrow> nat result option" where
  "findFirstLoop actions currentActionIndex =
     (if currentActionIndex < length actions then
        (case deserializeType actions currentActionIndex of
           Inl e \<Rightarrow> Some (Inl e)
         | Inr type \<Rightarrow>
             if type = IgnorePreviousRules then Some (Inr currentActionIndex)
             else
               (case serializedLength actions currentActionIndex of
                  Inl e \<Rightarrow> Some (Inl e)
                | Inr n \<Rightarrow> findFirstLoop actions (u32 (currentActionIndex + n))))
      else Some (Inr (2 ^ 32 - 1)))"

definition findFirstIgnorePreviousRules :: "ContentExtension \<Rightarrow> nat result option" where
  "findFirstIgnorePreviousRules e = findFirstLoop (compiled_actions (m_compiledExtension e)) 0"

definition inGlobalDisplayNoneStyleSheet :: "byte list \<Rightarrow> nat \<Rightarrow> nat \<Rightarrow> bool result" where
  "inGlobalDisplayNoneStyleSheet actions firstIgnorePreviousRules location =
     (if location < firstIgnorePreviousRules
      then rbind (deserializeType actions location) (\<lambda>type. Inr (type = CSSDisplayNoneSelector))
      else Inr False)"

fun globalSelectors :: "byte list \<Rightarrow> nat \<Rightarrow> nat list \<Rightarrow> wtf_string \<Rightarrow> wtf_string result" where
  "globalSelectors actions first [] css = Inr css"
| "globalSelectors actions first (l # ls) css =
     rbind (inGlobalDisplayNoneStyleSheet actions first l) (\<lambda>b.
       if b then
         rbind (deserialize actions l) (\<lambda>action.
           globalSelectors actions first ls
             (builder_append (if characters css \<noteq> [] then builder_append_comma css else css) (stringArgument action)))
       else globalSelectors actions first ls css)"

text \<open>\<open>Vector::removeAllMatching\<close>.\<close>

fun removeAllMatching :: "('a \<Rightarrow> bool result) \<Rightarrow> 'a list \<Rightarrow> 'a list result" where
  "removeAllMatching p [] = Inr []"
| "removeAllMatching p (x # xs) =
     rbind (p x) (\<lambda>b. rbind (removeAllMatching p xs) (\<lambda>ys. Inr (if b then ys else x # ys)))"

definition displayNoneCSSRule :: wtf_string where
  "displayNoneCSSRule = ascii8 ''display:none !important;''"

definition compileGlobalDisplayNoneStyleSheet :: "(wtf_string \<Rightarrow> bool) \<Rightarrow> ContentExtension \<Rightarrow> ContentExtension result option" where
  "compileGlobalDisplayNoneStyleSheet parseString e =
     (let actions = compiled_actions (m_compiledExtension e); universal = m_universalActionsWithoutConditions e
      in obind (findFirstIgnorePreviousRules e) (\<lambda>first.
         obind (result (globalSelectors actions first universal emptyString)) (\<lambda>css.
           if characters css = [] then Some (Inr e)
           else
             let text = builder_append (builder_append (builder_append css (ascii8 ''{'')) displayNoneCSSRule) (ascii8 ''}'')
             in obind (result (removeAllMatching (inGlobalDisplayNoneStyleSheet actions first) universal)) (\<lambda>rest.
                  Some (Inr (e\<lparr>m_globalDisplayNoneStyleSheet := (if parseString text then Some text else None),
                               m_universalActionsWithoutConditions := rest\<rparr>))))))"

datatype ShouldCompileCSS = CompileCSS_No | CompileCSS_Yes

text \<open>The constructor.\<close>

definition ContentExtension_create ::
  "u64 iteration_order \<Rightarrow> (wtf_string \<Rightarrow> bool) \<Rightarrow> wtf_string \<Rightarrow> CompiledContentExtension \<Rightarrow> ShouldCompileCSS \<Rightarrow>
     ContentExtension result option" where
  "ContentExtension_create ord parseString identifier compiled shouldCompileCSS =
     obind (actionsMatchingEverything (filtersWithoutConditionsBytecode compiled)) (\<lambda>withoutConditions.
     obind (actionsMatchingEverything (filtersWithConditionsBytecode compiled)) (\<lambda>withConditions.
       let e = \<lparr>m_identifier = identifier, m_compiledExtension = compiled, m_globalDisplayNoneStyleSheet = None,
                m_cachedTopURL = URL_null, m_cachedTopURLActions = [], m_cachedUniversalConditionedActions = [],
                m_universalActionsWithoutConditions = map action_location (ord withoutConditions),
                m_universalActionsWithConditions = ord withConditions\<rparr>
       in if shouldCompileCSS = CompileCSS_Yes then compileGlobalDisplayNoneStyleSheet parseString e else Some (Inr e)))"

definition allLoadTypesAndResourceTypes :: u16 where
  "allLoadTypesAndResourceTypes = LoadTypeMask OR ResourceTypeMask"

definition populateConditionCacheIfNeeded ::
  "u64 iteration_order \<Rightarrow> URL \<Rightarrow> ContentExtension \<Rightarrow> ContentExtension result option" where
  "populateConditionCacheIfNeeded ord topURL e =
     (if url_eq (m_cachedTopURL e) topURL then Some (Inr e)
      else
        let compiled = m_compiledExtension e; bytecode = topURLFiltersBytecode compiled;
            string = (if conditionsApplyOnlyToDomain compiled then host topURL else url_chars topURL)
        in obind (interpretUrl bytecode string allLoadTypesAndResourceTypes) (\<lambda>topURLActions.
           obind (actionsMatchingEverything bytecode) (\<lambda>everything.
             let cached = hs_add_all (ord everything) (hs_add_all (ord topURLActions) [])
             in Some (Inr (e\<lparr>m_cachedTopURLActions := cached,
                  m_cachedUniversalConditionedActions :=
                    map action_location (filter (\<lambda>action. matchesCondition action cached) (m_universalActionsWithConditions e)),
                  m_cachedTopURL := topURL\<rparr>)))))"

definition topURLActions :: "u64 iteration_order \<Rightarrow> URL \<Rightarrow> ContentExtension \<Rightarrow> (Actions \<times> ContentExtension) result option" where
  "topURLActions ord topURL e =
     obind (populateConditionCacheIfNeeded ord topURL e) (\<lambda>e'. Some (Inr (m_cachedTopURLActions e', e')))"

definition universalActionsWithConditions ::
  "u64 iteration_order \<Rightarrow> URL \<Rightarrow> ContentExtension \<Rightarrow> (nat list \<times> ContentExtension) result option" where
  "universalActionsWithConditions ord topURL e =
     obind (populateConditionCacheIfNeeded ord topURL e) (\<lambda>e'. Some (Inr (m_cachedUniversalConditionedActions e', e')))"

section \<open>The first ignoring rule\<close>

lemma stream_at:
  assumes "E = E1 @ (t, a) # E2" and "arg_ok t a" and "length (stream E) < 2 ^ 32"
  shows "deserializeType (stream E) (length (stream E1)) = Inr t"
    and "serializedLength (stream E) (length (stream E1)) = Inr (length (action_bytes t a))"
    and "deserialize (stream E) (length (stream E1)) =
      Inr \<lparr>m_extensionIdentifier = None, m_type = t, m_actionID = length (stream E1), m_stringArgument = a\<rparr>"
proof -
  have "stream E = stream E1 @ action_bytes t a @ stream E2" using assms(1) by (simp add: stream_def)
  note d = deserialize_serialized [OF assms(2,3) this refl]
  show "deserializeType (stream E) (length (stream E1)) = Inr t"
    and "serializedLength (stream E) (length (stream E1)) = Inr (length (action_bytes t a))"
    and "deserialize (stream E) (length (stream E1)) =
      Inr \<lparr>m_extensionIdentifier = None, m_type = t, m_actionID = length (stream E1), m_stringArgument = a\<rparr>"
    using d by simp_all
qed


definition ignoring :: "ActionType \<times> wtf_string option \<Rightarrow> bool" where
  "ignoring x \<longleftrightarrow> fst x = IgnorePreviousRules"

definition first_ignore :: "emitted \<Rightarrow> nat" where
  "first_ignore E = (if list_ex ignoring E then length (stream (takeWhile (\<lambda>x. \<not> ignoring x) E)) else 2 ^ 32 - 1)"

lemma findFirstLoop_stream:
  assumes "emitted_ok (E1 @ E2)" and "length (stream (E1 @ E2)) < 2 ^ 32" and "\<not> list_ex ignoring E1"
  shows "findFirstLoop (stream (E1 @ E2)) (length (stream E1)) = Some (Inr (first_ignore (E1 @ E2)))"
  using assms
proof (induction E2 arbitrary: E1)
  case Nil
  then show ?case by (subst findFirstLoop.simps) (simp add: first_ignore_def)
next
  case (Cons x E2)
  obtain t a where x: "x = (t, a)" by (cases x)
  have ok: "arg_ok t a" using Cons.prems(1) x by simp
  note at = stream_at [of "E1 @ x # E2" E1 t a E2, OF _ ok Cons.prems(2)]
  have len: "length (stream E1) < length (stream (E1 @ x # E2))" by (simp add: x stream_def)
  show ?case
  proof (cases "t = IgnorePreviousRules")
    case True
    have "takeWhile (\<lambda>x. \<not> ignoring x) (E1 @ x # E2) = E1"
      using Cons.prems(3) True by (subst takeWhile_append2) (auto simp: list_ex_iff x ignoring_def)
    then show ?thesis
      using at(1) True len x by (subst findFirstLoop.simps) (simp add: first_ignore_def ignoring_def)
  next
    case False
    have e: "length (stream (E1 @ [x])) = length (stream E1) + length (action_bytes t a)" by (simp add: x)
    have "length (stream (E1 @ [x])) \<le> length (stream (E1 @ x # E2))" by (simp add: stream_def)
    then have u: "u32 (length (stream E1) + length (action_bytes t a)) = length (stream (E1 @ [x]))"
      using Cons.prems(2) e u32_id [of "length (stream E1) + length (action_bytes t a)"] by linarith
    have "findFirstLoop (stream (E1 @ x # E2)) (length (stream E1)) = findFirstLoop (stream (E1 @ x # E2)) (length (stream (E1 @ [x])))"
      using at False len u x by (subst findFirstLoop.simps) simp
    then show ?thesis using Cons.IH [of "E1 @ [x]"] Cons.prems False by (simp add: x ignoring_def)
  qed
qed

lemma findFirstIgnorePreviousRules_stream:
  assumes "compiled_actions (m_compiledExtension e) = stream E" and "emitted_ok E" and "length (stream E) < 2 ^ 32"
  shows "findFirstIgnorePreviousRules e = Some (Inr (first_ignore E))"
  using findFirstLoop_stream [of "[]" E] assms by (simp add: findFirstIgnorePreviousRules_def)

text \<open>An action that ignores is not before the first such action.\<close>

lemma first_ignore_least:
  assumes "emitted_at E l IgnorePreviousRules a"
  shows "first_ignore E \<le> l"
proof -
  obtain E1 E2 where E: "E = E1 @ (IgnorePreviousRules, a) # E2" "l = length (stream E1)" using assms by (auto simp: emitted_at_def)
  have "takeWhile (\<lambda>x. \<not> ignoring x) E = takeWhile (\<lambda>x. \<not> ignoring x) E1"
    using E(1) by (simp add: takeWhile_tail ignoring_def)
  moreover have "length (stream (takeWhile (\<lambda>x. \<not> ignoring x) E1)) \<le> length (stream E1)"
    unfolding stream_def by (induction E1) auto
  moreover have "list_ex ignoring E" using E(1) by (simp add: ignoring_def)
  ultimately show ?thesis using E(2) by (simp add: first_ignore_def)
qed

lemma first_ignore_type:
  assumes "emitted_ok E" and "length (stream E) < 2 ^ 32"
  shows "first_ignore E = 2 ^ 32 - 1 \<or> deserializeType (stream E) (first_ignore E) = Inr IgnorePreviousRules"
proof (cases "list_ex ignoring E")
  case True
  let ?p = "\<lambda>x. \<not> ignoring x"
  have "dropWhile ?p E \<noteq> []" using True by (simp add: list_ex_iff dropWhile_eq_Nil_conv)
  then obtain t a E2 where d: "dropWhile ?p E = (t, a) # E2" by (cases "dropWhile ?p E") auto
  have "ignoring (t, a)" using hd_dropWhile [of ?p E] d by simp
  then have t: "t = IgnorePreviousRules" by (simp add: ignoring_def)
  have E: "E = takeWhile ?p E @ (t, a) # E2" using takeWhile_dropWhile_id [of ?p E] d by simp
  have "(t, a) \<in> set E" by (subst E) simp
  then have "arg_ok t a" using assms(1) by (auto simp: emitted_ok_def)
  from stream_at(1) [OF E this assms(2)] t True show ?thesis by (simp add: first_ignore_def)
qed (simp add: first_ignore_def)

section \<open>The global style sheet\<close>

text \<open>Every given location is that of an action.\<close>

definition locations_ok :: "emitted \<Rightarrow> nat list \<Rightarrow> bool" where
  "locations_ok E ls \<longleftrightarrow> emitted_ok E \<and> length (stream E) < 2 ^ 32 \<and> (\<forall>l \<in> set ls. \<exists>t a. emitted_at E l t a)"

definition action_at :: "byte list \<Rightarrow> nat \<Rightarrow> Action" where
  "action_at actions l = (case deserialize actions l of Inr a \<Rightarrow> a | Inl _ \<Rightarrow> Action_plain BlockLoad 0)"

definition global :: "byte list \<Rightarrow> nat \<Rightarrow> nat \<Rightarrow> bool" where
  "global actions first l \<longleftrightarrow> l < first \<and> m_type (action_at actions l) = CSSDisplayNoneSelector"

definition selector_at :: "byte list \<Rightarrow> nat \<Rightarrow> nat list" where
  "selector_at actions l = characters (stringArgument (action_at actions l))"

lemma action_at_emitted:
  assumes "locations_ok E ls" and "l \<in> set ls"
  shows "\<exists>a. emitted_at E l (m_type (action_at (stream E) l)) a" and "deserialize (stream E) l = Inr (action_at (stream E) l)"
    and "deserializeType (stream E) l = Inr (m_type (action_at (stream E) l))"
proof -
  obtain t a where at: "emitted_at E l t a" using assms by (auto simp: locations_ok_def)
  then obtain E1 E2 where E: "E = E1 @ (t, a) # E2" "l = length (stream E1)" by (auto simp: emitted_at_def)
  have "arg_ok t a" using assms(1) E(1) by (simp add: locations_ok_def)
  from stream_at [OF E(1) this] assms(1) E(2) at show
    "\<exists>a. emitted_at E l (m_type (action_at (stream E) l)) a" "deserialize (stream E) l = Inr (action_at (stream E) l)"
    "deserializeType (stream E) l = Inr (m_type (action_at (stream E) l))"
    by (auto simp: locations_ok_def action_at_def)
qed

lemma inGlobal_iff:
  "locations_ok E ls \<Longrightarrow> l \<in> set ls \<Longrightarrow> inGlobalDisplayNoneStyleSheet (stream E) first l = Inr (global (stream E) first l)"
  using action_at_emitted(3) [of E ls l] by (auto simp: inGlobalDisplayNoneStyleSheet_def global_def)

lemma removeAllMatching_filter: "(\<forall>x \<in> set xs. p x = Inr (P x)) \<Longrightarrow> removeAllMatching p xs = Inr (filter (\<lambda>x. \<not> P x) xs)"
  by (induction xs) auto

abbreviation join_selector :: "nat list \<Rightarrow> nat list \<Rightarrow> nat list" where
  "join_selector acc c \<equiv> (if acc = [] then c else acc @ (44 # c))"

lemma characters_join: "characters (builder_append (if characters css \<noteq> [] then builder_append_comma css else css) s) =
    join_selector (characters css) (characters s)"
  by (simp add: builder_append_def builder_append_comma_def)

lemma globalSelectors_join:
  assumes "locations_ok E us" and "set ls \<subseteq> set us"
  shows "\<exists>css'. globalSelectors (stream E) first ls css = Inr css' \<and>
    characters css' = foldl join_selector (characters css) (map (selector_at (stream E)) (filter (global (stream E) first) ls))"
  using assms(2)
proof (induction ls arbitrary: css)
  case (Cons l ls)
  have l: "l \<in> set us" using Cons.prems by simp
  note i = inGlobal_iff [OF assms(1) l] and d = action_at_emitted(2) [OF assms(1) l]
  show ?case
  proof (cases "global (stream E) first l")
    case True
    show ?thesis
      using Cons.IH [of "builder_append (if characters css \<noteq> [] then builder_append_comma css else css) (stringArgument (action_at (stream E) l))"]
        Cons.prems True i d
      unfolding characters_join by (simp add: selector_at_def)
  qed (use Cons i in simp)
qed simp

definition global_css :: "emitted \<Rightarrow> nat list \<Rightarrow> nat list" where
  "global_css E ls = css_join (map (selector_at (stream E)) (filter (global (stream E) (first_ignore E)) ls))"

definition sheet_text :: "nat list \<Rightarrow> nat list" where
  "sheet_text css = css @ ascii ''{'' @ ascii ''display:none !important;'' @ ascii ''}''"

lemma compileGlobalDisplayNoneStyleSheet_spec:
  assumes c: "compiled_actions (m_compiledExtension e) = stream E" and ok: "locations_ok E (m_universalActionsWithoutConditions e)"
  shows "\<exists>text. characters text = sheet_text (global_css E (m_universalActionsWithoutConditions e)) \<and>
    compileGlobalDisplayNoneStyleSheet parseString e = Some (Inr
      (if global_css E (m_universalActionsWithoutConditions e) = [] then e
       else e\<lparr>m_globalDisplayNoneStyleSheet := (if parseString text then Some text else None),
              m_universalActionsWithoutConditions :=
                filter (\<lambda>l. \<not> global (stream E) (first_ignore E) l) (m_universalActionsWithoutConditions e)\<rparr>))"
proof -
  let ?us = "m_universalActionsWithoutConditions e"
  have f: "findFirstIgnorePreviousRules e = Some (Inr (first_ignore E))"
    using findFirstIgnorePreviousRules_stream [OF c] ok by (simp add: locations_ok_def)
  obtain css where css: "globalSelectors (stream E) (first_ignore E) ?us emptyString = Inr css" "characters css = global_css E ?us"
    using globalSelectors_join [OF ok order_refl, of "first_ignore E" emptyString]
    by (auto simp: global_css_def css_join_def emptyString_def)
  let ?text = "builder_append (builder_append (builder_append css (ascii8 ''{'')) displayNoneCSSRule) (ascii8 ''}'')"
  have r: "removeAllMatching (inGlobalDisplayNoneStyleSheet (stream E) (first_ignore E)) ?us =
      Inr (filter (\<lambda>l. \<not> global (stream E) (first_ignore E) l) ?us)"
    by (rule removeAllMatching_filter) (simp add: inGlobal_iff [OF ok])
  have t: "characters ?text = sheet_text (global_css E ?us)" if "global_css E ?us \<noteq> []"
    using that css(2) by (simp add: builder_append_def sheet_text_def displayNoneCSSRule_def ascii8_def ascii_def)
  show ?thesis
  proof (cases "global_css E ?us = []")
    case True
    then show ?thesis
      using f css c by (intro exI [of _ "\<lparr>is8Bit = True, characters = sheet_text []\<rparr>"])
        (simp add: compileGlobalDisplayNoneStyleSheet_def result_def)
  next
    case False
    then show ?thesis
      using f css c r t by (intro exI [of _ ?text]) (simp add: compileGlobalDisplayNoneStyleSheet_def result_def Let_def)
  qed
qed


section \<open>The cache of conditions\<close>

text \<open>What the conditions of a rule list say about the URL of a main document: the conditioned actions that match it, and the
  locations of the actions for every URL whose condition holds.\<close>

definition condition_cache :: "u64 iteration_order \<Rightarrow> URL \<Rightarrow> ContentExtension \<Rightarrow> (Actions \<times> nat list) result option" where
  "condition_cache ord topURL e =
     (let compiled = m_compiledExtension e;
          string = (if conditionsApplyOnlyToDomain compiled then host topURL else url_chars topURL)
      in obind (interpretUrl (topURLFiltersBytecode compiled) string allLoadTypesAndResourceTypes) (\<lambda>acts.
         obind (actionsMatchingEverything (topURLFiltersBytecode compiled)) (\<lambda>everything.
           let cached = hs_add_all (ord everything) (hs_add_all (ord acts) [])
           in Some (Inr (cached, map action_location (filter (\<lambda>a. matchesCondition a cached) (m_universalActionsWithConditions e)))))))"

definition cache_ok :: "u64 iteration_order \<Rightarrow> ContentExtension \<Rightarrow> bool" where
  "cache_ok ord e \<longleftrightarrow>
     url_string (m_cachedTopURL e) = None \<and> m_cachedTopURLActions e = [] \<and> m_cachedUniversalConditionedActions e = [] \<or>
     condition_cache ord (m_cachedTopURL e) e = Some (Inr (m_cachedTopURLActions e, m_cachedUniversalConditionedActions e))"

lemma condition_cache_cong:
  "url_chars u = url_chars v \<Longrightarrow> host u = host v \<Longrightarrow> m_compiledExtension e' = m_compiledExtension e \<Longrightarrow>
    m_universalActionsWithConditions e' = m_universalActionsWithConditions e \<Longrightarrow> condition_cache ord u e' = condition_cache ord v e"
  by (simp add: condition_cache_def Let_def)

lemma create_cache_ok:
  assumes "ContentExtension_create ord parseString identifier compiled css = Some (Inr e)"
  shows "cache_ok ord e"
proof -
  have "m_cachedTopURL e = URL_null \<and> m_cachedTopURLActions e = [] \<and> m_cachedUniversalConditionedActions e = []"
    using assms by (auto simp: ContentExtension_create_def compileGlobalDisplayNoneStyleSheet_def obind_eq_Inr Let_def split: if_splits)
  then show ?thesis by (simp add: cache_ok_def URL_null_def)
qed

lemma populate_cache_ok:
  assumes p: "populateConditionCacheIfNeeded ord topURL e = Some (Inr e')" and ok: "cache_ok ord e"
    and u: "url_string topURL = url_string (m_cachedTopURL e) \<Longrightarrow> host topURL = host (m_cachedTopURL e)"
  shows "cache_ok ord e'"
    and "url_string topURL \<noteq> None \<Longrightarrow> condition_cache ord topURL e = Some (Inr (m_cachedTopURLActions e', m_cachedUniversalConditionedActions e'))"
proof -
  have "cache_ok ord e' \<and> (url_string topURL \<noteq> None \<longrightarrow>
      condition_cache ord topURL e = Some (Inr (m_cachedTopURLActions e', m_cachedUniversalConditionedActions e')))"
  proof (cases "url_eq (m_cachedTopURL e) topURL")
    case True
    then have e: "e' = e" and s: "url_string topURL = url_string (m_cachedTopURL e)"
      using p by (simp_all add: populateConditionCacheIfNeeded_def url_eq_def)
    have "condition_cache ord topURL e = condition_cache ord (m_cachedTopURL e) e"
      by (rule condition_cache_cong) (use u s in \<open>simp_all add: url_chars_def\<close>)
    then show ?thesis using ok s unfolding e cache_ok_def by auto
  next
    case False
    have c: "condition_cache ord topURL e = Some (Inr (m_cachedTopURLActions e', m_cachedUniversalConditionedActions e'))"
      and k: "m_cachedTopURL e' = topURL" "m_compiledExtension e' = m_compiledExtension e"
        "m_universalActionsWithConditions e' = m_universalActionsWithConditions e"
      using p False by (auto simp: populateConditionCacheIfNeeded_def condition_cache_def obind_eq_Inr Let_def)
    have "condition_cache ord topURL e' = condition_cache ord topURL e" by (rule condition_cache_cong) (simp_all add: k)
    then show ?thesis using c k(1) by (simp add: cache_ok_def)
  qed
  then show "cache_ok ord e'" "url_string topURL \<noteq> None \<Longrightarrow>
      condition_cache ord topURL e = Some (Inr (m_cachedTopURLActions e', m_cachedUniversalConditionedActions e'))" by auto
qed

end
