(* ===== verification/Extensions_Backend.thy ===== *)
theory Extensions_Backend
  imports Content_Extension "HOL-Library.AList"
begin

text \<open>
  \<^verbatim>\<open>ContentExtensionsBackend.cpp\<close>: the rule lists by name, the actions for the load of a resource, and what they
  do to the load. Whether two URLs are of different parties (\<^verbatim>\<open>ResourceLoadInfo::isThirdParty\<close> compares security
  origins), the URL parser, the CSS parser and the order in which hash tables are iterated are arguments. What the code does to
  the document and to the document loader is the list of calls it makes on them.
\<close>

section \<open>The code\<close>

type_synonym extensions = "(nat list \<times> ContentExtension) list"

record ResourceLoadInfo =
  resourceURL :: URL
  mainDocumentURL :: URL
  info_type :: ResourceType

definition addContentExtension ::
  "u64 iteration_order \<Rightarrow> (wtf_string \<Rightarrow> bool) \<Rightarrow> wtf_string \<Rightarrow> CompiledContentExtension \<Rightarrow> ShouldCompileCSS \<Rightarrow> extensions \<Rightarrow>
     extensions result option" where
  "addContentExtension ord parseString identifier compiled shouldCompileCSS exts =
     (if characters identifier = [] then Some (Inr exts)
      else obind (ContentExtension_create ord parseString identifier compiled shouldCompileCSS) (\<lambda>e.
        Some (Inr (AList.update (characters identifier) e exts))))"

definition removeContentExtension :: "wtf_string \<Rightarrow> extensions \<Rightarrow> extensions" where
  "removeContentExtension identifier exts = AList.delete (characters identifier) exts"

definition removeAllContentExtensions :: "extensions \<Rightarrow> extensions" where
  "removeAllContentExtensions exts = []"

text \<open>The actions at the given locations, up to the first that ignores the ones before it.\<close>

fun collectActions :: "byte list \<Rightarrow> wtf_string \<Rightarrow> nat list \<Rightarrow> Action list \<Rightarrow> (bool \<times> Action list) result" where
  "collectActions actions identifier [] finalActions = Inr (False, finalActions)"
| "collectActions actions identifier (l # ls) finalActions =
     rbind (deserialize actions l) (\<lambda>a.
       let action = setExtensionIdentifier identifier a
       in if m_type action = IgnorePreviousRules then Inr (True, finalActions)
          else collectActions actions identifier ls (finalActions @ [action]))"

definition extensionActions ::
  "u64 iteration_order \<Rightarrow> nat list \<Rightarrow> u16 \<Rightarrow> URL \<Rightarrow> ContentExtension \<Rightarrow> (Action list \<times> bool \<times> ContentExtension) result option" where
  "extensionActions ord url flags topURL e =
     (let compiled = m_compiledExtension e
      in obind (interpretUrl (filtersWithoutConditionsBytecode compiled) url flags) (\<lambda>withoutConditionsActions.
         obind (topURLActions ord topURL e) (\<lambda>(conditionActions, e1).
         obind (interpretWithConditions (filtersWithConditionsBytecode compiled) url flags conditionActions) (\<lambda>withConditionsActions.
         obind (universalActionsWithConditions ord topURL e1) (\<lambda>(universalWithConditions, e2).
           let universalWithoutConditions = m_universalActionsWithoutConditions e2
           in if withoutConditionsActions \<noteq> [] \<or> withConditionsActions \<noteq> [] \<or> universalWithConditions \<noteq> [] \<or> universalWithoutConditions \<noteq> []
              then
                let locations = sort (map action_location (ord withoutConditionsActions) @ map action_location (ord withConditionsActions) @
                      universalWithoutConditions @ universalWithConditions)
                in obind (result (collectActions (compiled_actions compiled) (m_identifier e2) (rev locations) [])) (\<lambda>(saw, final).
                     Some (Inr (final, saw, e2)))
              else Some (Inr ([], False, e2)))))))"

fun actionsLoop ::
  "u64 iteration_order \<Rightarrow> nat list \<Rightarrow> u16 \<Rightarrow> URL \<Rightarrow> nat list list \<Rightarrow> extensions \<Rightarrow> Action list \<Rightarrow> wtf_string list \<Rightarrow>
     (Action list \<times> wtf_string list \<times> extensions) result option" where
  "actionsLoop ord url flags topURL [] exts finalActions stylesheetIdentifiers = Some (Inr (finalActions, stylesheetIdentifiers, exts))"
| "actionsLoop ord url flags topURL (k # ks) exts finalActions stylesheetIdentifiers =
     (case map_of exts k of
        None \<Rightarrow> actionsLoop ord url flags topURL ks exts finalActions stylesheetIdentifiers
      | Some e \<Rightarrow>
          obind (extensionActions ord url flags topURL e) (\<lambda>(acts, sawIgnorePreviousRules, e').
            actionsLoop ord url flags topURL ks (AList.update k e' exts) (finalActions @ acts)
              (if sawIgnorePreviousRules then stylesheetIdentifiers else stylesheetIdentifiers @ [m_identifier e'])))"

text \<open>What surrounds the backend: iteration orders and the comparison of security origins.\<close>

record load_environment =
  env_action_order :: "u64 iteration_order"
  env_extension_order :: "nat list iteration_order"
  env_isThirdParty :: "URL \<Rightarrow> URL \<Rightarrow> bool"

definition actionsForResourceLoad ::
  "load_environment \<Rightarrow> ResourceLoadInfo \<Rightarrow> extensions \<Rightarrow> (Action list \<times> wtf_string list \<times> extensions) result option" where
  "actionsForResourceLoad env info exts =
     (if exts = [] \<or> \<not> url_isValid (resourceURL info) \<or> protocolIsData (resourceURL info) then Some (Inr ([], [], exts))
      else actionsLoop (env_action_order env) (url_chars (resourceURL info))
        (getResourceFlags (info_type info) (env_isThirdParty env (mainDocumentURL info) (resourceURL info)))
        (mainDocumentURL info) (env_extension_order env (map fst exts)) exts [] [])"

definition globalDisplayNoneStyleSheet :: "wtf_string \<Rightarrow> extensions \<Rightarrow> wtf_string option" where
  "globalDisplayNoneStyleSheet identifier exts =
     (case map_of exts (characters identifier) of None \<Rightarrow> None | Some e \<Rightarrow> m_globalDisplayNoneStyleSheet e)"

record BlockedStatus =
  blockedLoad :: bool
  blockedCookies :: bool
  madeHTTPS :: bool
  notifications :: "(nat list \<times> nat list) list"

definition BlockedStatus_default :: BlockedStatus where
  "BlockedStatus_default = \<lparr>blockedLoad = False, blockedCookies = False, madeHTTPS = False, notifications = []\<rparr>"

record Frame =
  has_document :: bool
  isMainFrame :: bool
  mainFrameDocumentURL :: "URL option"

record DocumentLoader =
  loader_frame :: "Frame option"
  isLoadingMainResource :: bool

datatype load_effect =
    AddPendingDisplayNoneSelector "wtf_string option" wtf_string nat
  | AddDisplayNoneSelector "wtf_string option" wtf_string nat
  | AddPendingSheet wtf_string wtf_string
  | MaybeAddSheet wtf_string wtf_string
  | ConsoleMessage "nat list"

definition currentDocument :: "DocumentLoader \<Rightarrow> bool" where
  "currentDocument loader \<longleftrightarrow> (case loader_frame loader of None \<Rightarrow> False | Some frame \<Rightarrow> has_document frame)"

definition loadMainDocumentURL :: "URL \<Rightarrow> ResourceType \<Rightarrow> DocumentLoader \<Rightarrow> URL" where
  "loadMainDocumentURL url resourceType loader =
     (case loader_frame loader of
        None \<Rightarrow> URL_null
      | Some frame \<Rightarrow>
          if isLoadingMainResource loader \<and> isMainFrame frame \<and> resourceType = RT_Document then url
          else case mainFrameDocumentURL frame of None \<Rightarrow> URL_null | Some u \<Rightarrow> u)"

definition canMakeHTTPS :: "URL \<Rightarrow> bool" where
  "canMakeHTTPS url \<longleftrightarrow> (protocolIs url ''http'' \<or> protocolIs url ''ws'') \<and>
     (case port url of None \<Rightarrow> True | Some p \<Rightarrow> isDefaultPortForProtocol p (protocol url))"

definition identifier_chars :: "wtf_string option \<Rightarrow> nat list" where
  "identifier_chars i = (case i of None \<Rightarrow> [] | Some s \<Rightarrow> characters s)"

text \<open>The loop over the actions: the status and the calls on the loader or the document.\<close>

fun processActions ::
  "URL \<Rightarrow> ResourceType \<Rightarrow> bool \<Rightarrow> Action list \<Rightarrow> BlockedStatus \<times> load_effect list \<Rightarrow> (BlockedStatus \<times> load_effect list) result" where
  "processActions url resourceType hasDocument [] s = Inr s"
| "processActions url resourceType hasDocument (a # as) (status, effects) =
     (case m_type a of
        BlockLoad \<Rightarrow> processActions url resourceType hasDocument as (status\<lparr>blockedLoad := True\<rparr>, effects)
      | BlockCookies \<Rightarrow> processActions url resourceType hasDocument as (status\<lparr>blockedCookies := True\<rparr>, effects)
      | CSSDisplayNoneSelector \<Rightarrow>
          processActions url resourceType hasDocument as (status,
            if resourceType = RT_Document then effects @ [AddPendingDisplayNoneSelector (m_extensionIdentifier a) (stringArgument a) (m_actionID a)]
            else if hasDocument then effects @ [AddDisplayNoneSelector (m_extensionIdentifier a) (stringArgument a) (m_actionID a)]
            else effects)
      | Notify \<Rightarrow>
          processActions url resourceType hasDocument as
            (status\<lparr>notifications := hs_add (identifier_chars (m_extensionIdentifier a), characters (stringArgument a)) (notifications status)\<rparr>, effects)
      | MakeHTTPS \<Rightarrow>
          processActions url resourceType hasDocument as (if canMakeHTTPS url then status\<lparr>madeHTTPS := True\<rparr> else status, effects)
      | IgnorePreviousRules \<Rightarrow> Inl ReleaseAssert)"

definition sheetEffects :: "ResourceType \<Rightarrow> bool \<Rightarrow> extensions \<Rightarrow> wtf_string \<Rightarrow> load_effect list" where
  "sheetEffects resourceType hasDocument exts identifier =
     (case globalDisplayNoneStyleSheet identifier exts of
        None \<Rightarrow> []
      | Some sheet \<Rightarrow>
          if resourceType = RT_Document then [AddPendingSheet identifier sheet]
          else if hasDocument then [MaybeAddSheet identifier sheet] else [])"

definition consoleMessages :: "URL \<Rightarrow> URL \<Rightarrow> bool \<Rightarrow> BlockedStatus \<Rightarrow> load_effect list" where
  "consoleMessages url mainURL hasDocument status =
     (if hasDocument then
        (if madeHTTPS status
         then [ConsoleMessage (ascii ''Content blocker promoted URL from '' @ url_chars url @ ascii '' to '' @
                 (if protocolIs url ''http'' then ascii ''https'' else ascii ''wss''))] else []) @
        (if blockedLoad status
         then [ConsoleMessage (ascii ''Content blocker prevented frame displaying '' @ url_chars mainURL @
                 ascii '' from loading a resource from '' @ url_chars url)] else [])
      else [])"

definition processContentExtensionRulesForLoad ::
  "load_environment \<Rightarrow> URL \<Rightarrow> ResourceType \<Rightarrow> DocumentLoader \<Rightarrow> extensions \<Rightarrow> (BlockedStatus \<times> load_effect list \<times> extensions) result option" where
  "processContentExtensionRulesForLoad env url resourceType loader exts =
     (if exts = [] then Some (Inr (BlockedStatus_default, [], exts))
      else
        let mainURL = loadMainDocumentURL url resourceType loader; hasDocument = currentDocument loader
        in obind (actionsForResourceLoad env \<lparr>resourceURL = url, mainDocumentURL = mainURL, info_type = resourceType\<rparr> exts)
             (\<lambda>(acts, identifiers, exts').
           obind (result (processActions url resourceType hasDocument acts (BlockedStatus_default, []))) (\<lambda>(status, effects).
             Some (Inr (status, effects @ concat (map (sheetEffects resourceType hasDocument exts') identifiers) @
               consoleMessages url mainURL hasDocument status, exts')))))"

fun processPingActions :: "URL \<Rightarrow> Action list \<Rightarrow> BlockedStatus \<Rightarrow> BlockedStatus result" where
  "processPingActions url [] status = Inr status"
| "processPingActions url (a # as) status =
     (case m_type a of
        BlockLoad \<Rightarrow> processPingActions url as (status\<lparr>blockedLoad := True\<rparr>)
      | BlockCookies \<Rightarrow> processPingActions url as (status\<lparr>blockedCookies := True\<rparr>)
      | MakeHTTPS \<Rightarrow> processPingActions url as (if canMakeHTTPS url then status\<lparr>madeHTTPS := True\<rparr> else status)
      | CSSDisplayNoneSelector \<Rightarrow> processPingActions url as status
      | Notify \<Rightarrow> processPingActions url as status
      | IgnorePreviousRules \<Rightarrow> Inl ReleaseAssert)"

definition processContentExtensionRulesForPingLoad ::
  "load_environment \<Rightarrow> URL \<Rightarrow> URL \<Rightarrow> extensions \<Rightarrow> (BlockedStatus \<times> extensions) result option" where
  "processContentExtensionRulesForPingLoad env url mainURL exts =
     (if exts = [] then Some (Inr (BlockedStatus_default, exts))
      else obind (actionsForResourceLoad env \<lparr>resourceURL = url, mainDocumentURL = mainURL, info_type = RT_Raw\<rparr> exts)
        (\<lambda>(acts, identifiers, exts').
          obind (result (processPingActions url acts BlockedStatus_default)) (\<lambda>status. Some (Inr (status, exts')))))"

record ResourceRequest =
  request_url :: URL
  allowCookies :: bool

definition applyBlockedStatusToRequest ::
  "url_parser \<Rightarrow> BlockedStatus \<Rightarrow> bool \<Rightarrow> ResourceRequest \<Rightarrow> ResourceRequest \<times> (URL \<times> (nat list \<times> nat list) list) option" where
  "applyBlockedStatusToRequest parser status page request =
     (let notification = (if page \<and> notifications status \<noteq> [] then Some (request_url request, notifications status) else None);
          request1 = (if blockedCookies status then request\<lparr>allowCookies := False\<rparr> else request)
      in (if madeHTTPS status
          then
            let originalURL = request_url request1;
                newURL = setProtocol parser (ascii ''https'') originalURL;
                newURL' = (case port originalURL of
                    None \<Rightarrow> newURL
                  | Some _ \<Rightarrow> setPort parser (the (defaultPortForProtocol (ascii ''https''))) newURL)
            in request1\<lparr>request_url := newURL'\<rparr>
          else request1, notification))"


section \<open>The table of rule lists\<close>

definition wf_extensions :: "extensions \<Rightarrow> bool" where
  "wf_extensions exts \<longleftrightarrow> distinct (map fst exts) \<and> (\<forall>(k, e) \<in> set exts. k \<noteq> [] \<and> characters (m_identifier e) = k)"

lemma wf_extensions_update:
  assumes "wf_extensions exts" and "k \<noteq> []" and "characters (m_identifier e) = k"
  shows "wf_extensions (AList.update k e exts)"
proof -
  have "set (AList.update k e exts) \<subseteq> insert (k, e) (set exts)" by (induction exts) auto
  then show ?thesis using assms distinct_update [of exts k e] by (auto simp: wf_extensions_def)
qed

lemma populate_identifier:
  "populateConditionCacheIfNeeded ord topURL e = Some (Inr e') \<Longrightarrow> m_identifier e' = m_identifier e"
  by (auto simp: populateConditionCacheIfNeeded_def obind_eq_Inr Let_def split: if_splits)

lemma create_identifier:
  "ContentExtension_create ord parseString identifier compiled css = Some (Inr e) \<Longrightarrow> m_identifier e = identifier"
  by (auto simp: ContentExtension_create_def compileGlobalDisplayNoneStyleSheet_def obind_eq_Inr Let_def split: if_splits)

lemma extensionActions_identifier:
  "extensionActions ord url flags topURL e = Some (Inr (acts, saw, e')) \<Longrightarrow> m_identifier e' = m_identifier e"
  by (auto simp: extensionActions_def topURLActions_def universalActionsWithConditions_def obind_eq_Inr Let_def
    dest!: populate_identifier split: if_splits)

lemma actionsLoop_wf:
  "\<lbrakk>actionsLoop ord url flags topURL ks exts fa si = Some (Inr (fa', si', exts')); wf_extensions exts\<rbrakk> \<Longrightarrow>
    wf_extensions exts' \<and> fst ` set exts' = fst ` set exts"
proof (induction ord url flags topURL ks exts fa si rule: actionsLoop.induct)
  case (2 ord url flags topURL k ks exts fa si)
  show ?case
  proof (cases "map_of exts k")
    case None
    then show ?thesis using 2 by simp
  next
    case (Some e)
    obtain acts saw e' where a: "extensionActions ord url flags topURL e = Some (Inr (acts, saw, e'))"
      and r: "actionsLoop ord url flags topURL ks (AList.update k e' exts) (fa @ acts) (if saw then si else si @ [m_identifier e'])
        = Some (Inr (fa', si', exts'))"
      using 2(3) Some by (auto simp: obind_eq_Inr)
    have k: "k \<noteq> []" "characters (m_identifier e) = k" "k \<in> fst ` set exts"
      using map_of_SomeD [OF Some] 2(4) by (auto simp: wf_extensions_def intro: rev_image_eqI)
    have "wf_extensions (AList.update k e' exts)"
      using wf_extensions_update [OF 2(4) k(1)] k(2) extensionActions_identifier [OF a] by simp
    moreover have "fst ` set (AList.update k e' exts) = fst ` set exts"
      using k(3) dom_update [of k e' exts] by auto
    ultimately show ?thesis using 2(2) [OF Some r] by simp
  qed
qed simp

section \<open>Ignored rules\<close>

definition ignoring_at :: "byte list \<Rightarrow> nat \<Rightarrow> bool" where
  "ignoring_at actions l \<longleftrightarrow> m_type (action_at actions l) = IgnorePreviousRules"

text \<open>Of a set of matching actions, those that no other of them ignores.\<close>

definition applied :: "(nat \<Rightarrow> bool) \<Rightarrow> nat set \<Rightarrow> nat set" where
  "applied ign M = {l \<in> M. \<forall>i \<in> M. ign i \<longrightarrow> i < l}"

lemma takeWhile_applied:
  "sorted_wrt (\<ge>) xs \<Longrightarrow> set (takeWhile (\<lambda>l. \<not> ign l) xs) = applied ign (set xs)"
proof (induction xs)
  case (Cons x xs)
  then have b: "\<forall>y \<in> set xs. y \<le> x" by simp
  show ?case
  proof (cases "ign x")
    case True
    then have "applied ign (set (x # xs)) = {}" using b by (force simp: applied_def)
    then show ?thesis using True by simp
  next
    case False
    have "i < x" if "i \<in> set xs" "ign i" for i using b False that by (metis order_le_imp_less_or_eq)
    then have "applied ign (set (x # xs)) = insert x (applied ign (set xs))" using False by (auto simp: applied_def)
    then show ?thesis using Cons False by simp
  qed
qed (simp add: applied_def)

lemma collectActions_takeWhile:
  "\<forall>l \<in> set ls. deserialize actions l = Inr (action_at actions l) \<Longrightarrow>
    collectActions actions identifier ls fa = Inr (list_ex (ignoring_at actions) ls,
      fa @ map (\<lambda>l. setExtensionIdentifier identifier (action_at actions l)) (takeWhile (\<lambda>l. \<not> ignoring_at actions l) ls))"
  by (induction ls arbitrary: fa) (simp_all add: ignoring_at_def setExtensionIdentifier_def Let_def)

lemma populate_again:
  assumes "populateConditionCacheIfNeeded ord topURL e = Some (Inr e1)"
  shows "populateConditionCacheIfNeeded ord topURL e1 = Some (Inr e1)"
proof -
  have "url_eq (m_cachedTopURL e1) topURL"
    using assms by (auto simp: populateConditionCacheIfNeeded_def obind_eq_Inr Let_def url_eq_def split: if_splits)
  then show ?thesis by (simp add: populateConditionCacheIfNeeded_def)
qed

lemma populate_keeps:
  assumes "populateConditionCacheIfNeeded ord topURL e = Some (Inr e1)"
  shows "m_compiledExtension e1 = m_compiledExtension e" "m_identifier e1 = m_identifier e"
    "m_universalActionsWithoutConditions e1 = m_universalActionsWithoutConditions e"
    "m_globalDisplayNoneStyleSheet e1 = m_globalDisplayNoneStyleSheet e"
  using assms by (auto simp: populateConditionCacheIfNeeded_def obind_eq_Inr Let_def split: if_splits)

text \<open>The locations of the actions of a rule list that match a load.\<close>

definition matched :: "Actions \<Rightarrow> Actions \<Rightarrow> ContentExtension \<Rightarrow> nat set" where
  "matched withoutConditions withConditions e =
     action_location ` (set withoutConditions \<union> set withConditions) \<union>
     set (m_universalActionsWithoutConditions e) \<union> set (m_cachedUniversalConditionedActions e)"

lemma extensionActions_applied:
  assumes wo: "interpretUrl (filtersWithoutConditionsBytecode (m_compiledExtension e)) url flags = Some (Inr wo)"
    and e1: "populateConditionCacheIfNeeded ord topURL e = Some (Inr e1)"
    and w: "interpretWithConditions (filtersWithConditionsBytecode (m_compiledExtension e)) url flags (m_cachedTopURLActions e1) = Some (Inr w)"
    and ord: "enumerates ord" and d: "distinct wo" "distinct w"
    and E: "compiled_actions (m_compiledExtension e) = stream E" and ok: "locations_ok E us" and us: "set us = matched wo w e1"
  shows "\<exists>ls. set ls = applied (ignoring_at (stream E)) (set us) \<and> sorted_wrt (\<ge>) ls \<and>
    extensionActions ord url flags topURL e = Some (Inr
      (map (\<lambda>l. setExtensionIdentifier (m_identifier e) (action_at (stream E) l)) ls, \<exists>l \<in> set us. ignoring_at (stream E) l, e1))"
proof -
  define locs where "locs = sort (map action_location (ord wo) @ map action_location (ord w) @
    m_universalActionsWithoutConditions e1 @ m_cachedUniversalConditionedActions e1)"
  have set: "set (rev locs) = set us" using us ord d by (auto simp: locs_def matched_def enumerates_set)
  define ls where "ls = takeWhile (\<lambda>l. \<not> ignoring_at (stream E) l) (rev locs)"
  have srt: "sorted_wrt (\<ge>) (rev locs)" by (simp add: locs_def sorted_wrt_rev)
  have ls: "set ls = applied (ignoring_at (stream E)) (set us)"
    using takeWhile_applied [OF srt] set by (simp add: ls_def del: set_rev)
  have ls': "sorted_wrt (\<ge>) ls" unfolding ls_def by (subst takeWhile_eq_take) (rule sorted_wrt_take [OF srt])
  have ex: "list_ex (ignoring_at (stream E)) (rev locs) = (\<exists>l \<in> set us. ignoring_at (stream E) l)"
    by (simp only: list_ex_iff set)
  have des: "\<forall>l \<in> set (rev locs). deserialize (stream E) l = Inr (action_at (stream E) l)"
    unfolding set using action_at_emitted(2) [OF ok] by blast
  have c: "collectActions (stream E) (m_identifier e) (rev locs) [] = Inr (\<exists>l \<in> set us. ignoring_at (stream E) l,
      map (\<lambda>l. setExtensionIdentifier (m_identifier e) (action_at (stream E) l)) ls)"
    using collectActions_takeWhile [OF des, of "m_identifier e" "[]"] unfolding ex append_Nil ls_def .
  have empty: "locs = []" if "wo = []" "w = []" "m_cachedUniversalConditionedActions e1 = []" "m_universalActionsWithoutConditions e1 = []"
    using that enumerates_set [OF ord, of "[]"] by (simp add: locs_def)
  note k = populate_keeps(1,2) [OF e1] populate_again [OF e1]
  have "extensionActions ord url flags topURL e = Some (Inr
      (map (\<lambda>l. setExtensionIdentifier (m_identifier e) (action_at (stream E) l)) ls, \<exists>l \<in> set us. ignoring_at (stream E) l, e1))"
  proof (cases "wo = [] \<and> w = [] \<and> m_cachedUniversalConditionedActions e1 = [] \<and> m_universalActionsWithoutConditions e1 = []")
    case True
    then have "locs = []" using empty by simp
    then show ?thesis
      using True wo w e1 k set by (simp add: extensionActions_def topURLActions_def universalActionsWithConditions_def ls_def)
  next
    case False
    then show ?thesis
      using wo w e1 k E c by (simp add: extensionActions_def topURLActions_def universalActionsWithConditions_def Let_def
        result_def locs_def [symmetric])
  qed
  then show ?thesis using ls ls' by blast
qed

text \<open>Selectors before the first ignoring action are applied unless some ignoring action matches, whichever it is.\<close>

lemma applied_global:
  assumes G: "\<forall>l \<in> G. l < first \<and> \<not> ign l" and M: "\<forall>i \<in> M. ign i \<longrightarrow> first \<le> i"
  shows "applied ign (M \<union> G) = applied ign M \<union> (if \<exists>i \<in> M. ign i then {} else G)"
proof (cases "\<exists>i \<in> M. ign i")
  case True
  then obtain i where i: "i \<in> M" "ign i" by blast
  have "\<not> i < l" if "l \<in> G" for l using G M i that by fastforce
  then show ?thesis using G i by (auto simp: applied_def)
qed (use G in \<open>auto simp: applied_def\<close>)

text \<open>On the locations of serialized rules, ignoring is the order of the rules.\<close>

lemma applied_rules:
  fixes n :: nat
  assumes L: "\<forall>i < n. ign (L i) = ignoring_rule i"
    and o: "\<forall>i < n. \<forall>j < n. ignoring_rule i \<longrightarrow> \<not> ignoring_rule j \<longrightarrow> (i < j \<longrightarrow> L i < L j) \<and> (j < i \<longrightarrow> L j < L i)"
    and M: "M \<subseteq> {..< n}"
  shows "applied ign (L ` M) = L ` {j \<in> M. \<not> ignoring_rule j \<and> (\<forall>i \<in> M. ignoring_rule i \<longrightarrow> i < j)}" (is "?l = ?r")
proof (rule set_eqI, rule iffI)
  fix l assume "l \<in> ?l"
  then obtain j where j: "j \<in> M" "l = L j" "\<forall>i \<in> M. ign (L i) \<longrightarrow> L i < L j" by (auto simp: applied_def)
  have n: "\<not> ignoring_rule j" using j L M by auto
  have "i < j" if "i \<in> M" "ignoring_rule i" for i
  proof (rule ccontr)
    assume "\<not> i < j"
    moreover have "i \<noteq> j" using n that(2) by blast
    ultimately have "j < i" by linarith
    then have "L j < L i" using o n that j(1) M by auto
    moreover have "L i < L j" using j(3) that L M by auto
    ultimately show False by simp
  qed
  then show "l \<in> ?r" using j n by blast
next
  fix l assume "l \<in> ?r"
  then obtain j where j: "j \<in> M" "l = L j" "\<not> ignoring_rule j" "\<forall>i \<in> M. ignoring_rule i \<longrightarrow> i < j" by auto
  have "L i < L j" if "i \<in> M" "ign (L i)" for i
    using j that o L M by (metis lessThan_iff subsetD)
  then show "l \<in> ?l" using j by (auto simp: applied_def)
qed


text \<open>A load for which the rules with the numbers \<open>M\<close> match.\<close>

lemma extensionActions_rules:
  assumes wo: "interpretUrl (filtersWithoutConditionsBytecode (m_compiledExtension e)) url flags = Some (Inr wo)"
    and e1: "populateConditionCacheIfNeeded ord topURL e = Some (Inr e1)"
    and w: "interpretWithConditions (filtersWithConditionsBytecode (m_compiledExtension e)) url flags (m_cachedTopURLActions e1) = Some (Inr w)"
    and ord: "enumerates ord" and d: "distinct wo" "distinct w"
    and ord': "enumerates ord'" and ok: "\<forall>r \<in> set rules. rule_ok r"
    and ser: "serializeActions ord' rules = (compiled_actions (m_compiledExtension e), L)" and len: "length (compiled_actions (m_compiledExtension e)) < 2 ^ 32"
    and M: "M \<subseteq> {..< length rules}" and us: "matched wo w e1 = (!) L ` M"
  shows "\<exists>ls. set ls = (!) L ` {j \<in> M. \<not> ignores (rules ! j) \<and> (\<forall>i \<in> M. ignores (rules ! i) \<longrightarrow> i < j)} \<and> sorted_wrt (\<ge>) ls \<and>
    extensionActions ord url flags topURL e = Some (Inr
      (map (\<lambda>l. setExtensionIdentifier (m_identifier e) (action_at (compiled_actions (m_compiledExtension e)) l)) ls,
       \<exists>i \<in> M. ignores (rules ! i), e1))"
proof -
  obtain E where E: "compiled_actions (m_compiledExtension e) = stream E" "emitted_ok E" "length L = length rules"
    "\<forall>i < length rules. located rules E (L ! i) i" "ordered rules [] L"
    using serializeActions_inv [OF ord' ok ser] by blast
  have fin: "finite ((!) L ` M)" using M finite_subset by blast
  obtain us where us': "set us = (!) L ` M" using finite_list [OF fin] by blast
  have at: "\<exists>a. emitted_at E (L ! i) (rule_type (rules ! i)) a" if "i < length rules" for i
    using E(4) that unfolding located_def by blast
  have "\<exists>t a. emitted_at E l t a" if l: "l \<in> set us" for l
  proof -
    obtain i where "i \<in> M" "l = L ! i" using l us' by blast
    then show ?thesis using at [of i] M by auto
  qed
  then have lok: "locations_ok E us" using E(1,2) len by (simp add: locations_ok_def)
  have ign: "ignoring_at (stream E) (L ! i) \<longleftrightarrow> ignores (rules ! i)" if "i < length rules" for i
  proof -
    have "located rules E (L ! i) i" using E(4) that by blast
    from located_read [OF this] E(1) len obtain a where "deserialize (stream E) (L ! i) = Inr a" "m_type a = rule_type (rules ! i)" by auto
    then show ?thesis by (simp add: ignoring_at_def action_at_def ignores_def)
  qed
  have app: "applied (ignoring_at (stream E)) ((!) L ` M) = (!) L ` {j \<in> M. \<not> ignores (rules ! j) \<and> (\<forall>i \<in> M. ignores (rules ! i) \<longrightarrow> i < j)}"
    by (rule applied_rules [where n = "length rules"]) (use ign E(5) M in \<open>auto simp: ordered_def pending_def\<close>)
  have ex: "(\<exists>l \<in> (!) L ` M. ignoring_at (stream E) l) = (\<exists>i \<in> M. ignores (rules ! i))" using ign M by blast
  show ?thesis
    using extensionActions_applied [OF wo e1 w ord d E(1) lok] us us' app ex E(1) by simp
qed

section \<open>The status of a load\<close>

definition no_ignore :: "Action list \<Rightarrow> bool" where
  "no_ignore as \<longleftrightarrow> (\<forall>a \<in> set as. m_type a \<noteq> IgnorePreviousRules)"

lemma no_ignore_simps [simp]: "no_ignore []" "no_ignore (a # as) \<longleftrightarrow> m_type a \<noteq> IgnorePreviousRules \<and> no_ignore as"
  "no_ignore (as @ bs) \<longleftrightarrow> no_ignore as \<and> no_ignore bs"
  by (auto simp: no_ignore_def)

lemma collectActions_types: "collectActions actions identifier ls fa = Inr (saw, fa') \<Longrightarrow> no_ignore fa \<Longrightarrow> no_ignore fa'"
proof (induction ls arbitrary: fa)
  case (Cons l ls)
  obtain a where a: "deserialize actions l = Inr a" using Cons.prems(1) by (cases "deserialize actions l") simp_all
  show ?case
  proof (cases "m_type a = IgnorePreviousRules")
    case True
    then show ?thesis using Cons.prems a by (simp add: setExtensionIdentifier_def)
  next
    case False
    then show ?thesis
      using Cons.prems Cons.IH [of "fa @ [setExtensionIdentifier identifier a]"] a by (simp add: setExtensionIdentifier_def)
  qed
qed simp

lemma extensionActions_types:
  assumes "extensionActions ord url flags topURL e = Some (Inr (acts, saw, e'))"
  shows "no_ignore acts"
proof -
  have "acts = [] \<or> (\<exists>ls. collectActions (compiled_actions (m_compiledExtension e)) (m_identifier e') ls [] = Inr (saw, acts))"
    using assms by (auto simp: extensionActions_def obind_eq_Inr Let_def result_def split: if_splits)
  then show ?thesis using collectActions_types by fastforce
qed

lemma actionsLoop_types:
  "\<lbrakk>actionsLoop ord url flags topURL ks exts fa si = Some (Inr (fa', si', exts')); no_ignore fa\<rbrakk> \<Longrightarrow> no_ignore fa'"
proof (induction ord url flags topURL ks exts fa si rule: actionsLoop.induct)
  case (2 ord url flags topURL k ks exts fa si)
  show ?case
  proof (cases "map_of exts k")
    case None
    then show ?thesis using 2 by simp
  next
    case (Some e)
    obtain acts saw e' where a: "extensionActions ord url flags topURL e = Some (Inr (acts, saw, e'))"
      and r: "actionsLoop ord url flags topURL ks (AList.update k e' exts) (fa @ acts) (if saw then si else si @ [m_identifier e'])
        = Some (Inr (fa', si', exts'))"
      using 2(3) Some by (auto simp: obind_eq_Inr)
    from 2(2) [OF Some r] extensionActions_types [OF a] 2(4) show ?thesis by simp
  qed
qed simp

lemma actionsForResourceLoad_types:
  "actionsForResourceLoad env info exts = Some (Inr (acts, ids, exts')) \<Longrightarrow> no_ignore acts"
  using actionsLoop_types [where fa = "[]" and si = "[]" and fa' = acts and si' = ids]
  by (fastforce simp: actionsForResourceLoad_def split: if_splits)

text \<open>The status a list of actions gives a load.\<close>

definition has_type :: "ActionType \<Rightarrow> Action list \<Rightarrow> bool" where
  "has_type t as \<longleftrightarrow> (\<exists>a \<in> set as. m_type a = t)"

lemma has_type_simps [simp]: "\<not> has_type t []" "has_type t (a # as) \<longleftrightarrow> m_type a = t \<or> has_type t as"
  by (auto simp: has_type_def)

definition notified :: "Action list \<Rightarrow> (nat list \<times> nat list) set" where
  "notified as = {(identifier_chars (m_extensionIdentifier a), characters (stringArgument a)) | a. a \<in> set as \<and> m_type a = Notify}"

lemma notified_simps [simp]:
  "notified [] = {}"
  "notified (a # as) = (if m_type a = Notify then {(identifier_chars (m_extensionIdentifier a), characters (stringArgument a))} else {}) \<union> notified as"
  by (auto simp: notified_def)

lemma processActions_status:
  "no_ignore as \<Longrightarrow>
    \<exists>s' ef'. processActions url rt doc as (s, ef) = Inr (s', ef') \<and>
      (blockedLoad s' \<longleftrightarrow> blockedLoad s \<or> has_type BlockLoad as) \<and> (blockedCookies s' \<longleftrightarrow> blockedCookies s \<or> has_type BlockCookies as) \<and>
      (madeHTTPS s' \<longleftrightarrow> madeHTTPS s \<or> canMakeHTTPS url \<and> has_type MakeHTTPS as) \<and>
      set (notifications s') = set (notifications s) \<union> notified as"
proof (induction as arbitrary: s ef)
  case (Cons a as)
  show ?case
  proof (cases "m_type a")
    case BlockLoad
    then show ?thesis using Cons.IH [of "s\<lparr>blockedLoad := True\<rparr>" ef] Cons.prems by simp
  next
    case BlockCookies
    then show ?thesis using Cons.IH [of "s\<lparr>blockedCookies := True\<rparr>" ef] Cons.prems by simp
  next
    case MakeHTTPS
    then show ?thesis
      using Cons.IH [of "s\<lparr>madeHTTPS := True\<rparr>" ef] Cons.IH [of s ef] Cons.prems by (cases "canMakeHTTPS url") simp_all
  next
    case Notify
    then show ?thesis
      using Cons.IH [of "s\<lparr>notifications := hs_add (identifier_chars (m_extensionIdentifier a), characters (stringArgument a)) (notifications s)\<rparr>" ef]
        Cons.prems by simp
  next
    case CSSDisplayNoneSelector
    then show ?thesis
      using Cons.IH [of s "if rt = RT_Document then ef @ [AddPendingDisplayNoneSelector (m_extensionIdentifier a) (stringArgument a) (m_actionID a)]
            else if doc then ef @ [AddDisplayNoneSelector (m_extensionIdentifier a) (stringArgument a) (m_actionID a)] else ef"]
        Cons.prems by simp
  qed (use Cons.prems in simp)
qed simp

lemma processPingActions_status:
  "no_ignore as \<Longrightarrow>
    \<exists>s'. processPingActions url as s = Inr s' \<and>
      (blockedLoad s' \<longleftrightarrow> blockedLoad s \<or> has_type BlockLoad as) \<and> (blockedCookies s' \<longleftrightarrow> blockedCookies s \<or> has_type BlockCookies as) \<and>
      (madeHTTPS s' \<longleftrightarrow> madeHTTPS s \<or> canMakeHTTPS url \<and> has_type MakeHTTPS as) \<and> notifications s' = notifications s"
proof (induction as arbitrary: s)
  case (Cons a as)
  have p: "no_ignore as" using Cons.prems by simp
  note IH = Cons.IH [OF p]
  show ?case
  proof (cases "m_type a")
    case BlockLoad
    then show ?thesis using IH [of "s\<lparr>blockedLoad := True\<rparr>"] by simp
  next
    case BlockCookies
    then show ?thesis using IH [of "s\<lparr>blockedCookies := True\<rparr>"] by simp
  next
    case MakeHTTPS
    then show ?thesis using IH [of "s\<lparr>madeHTTPS := True\<rparr>"] IH [of s] by (cases "canMakeHTTPS url") simp_all
  qed (use IH [of s] Cons.prems in simp_all)
qed simp

lemma processContentExtensionRulesForLoad_status:
  assumes "exts \<noteq> []"
    and "actionsForResourceLoad env \<lparr>resourceURL = url, mainDocumentURL = loadMainDocumentURL url rt loader, info_type = rt\<rparr> exts
      = Some (Inr (acts, ids, exts'))"
  shows "\<exists>status effects. processContentExtensionRulesForLoad env url rt loader exts = Some (Inr (status, effects, exts')) \<and>
    (blockedLoad status \<longleftrightarrow> has_type BlockLoad acts) \<and> (blockedCookies status \<longleftrightarrow> has_type BlockCookies acts) \<and>
    (madeHTTPS status \<longleftrightarrow> canMakeHTTPS url \<and> has_type MakeHTTPS acts) \<and> set (notifications status) = notified acts"
  using processActions_status [OF actionsForResourceLoad_types [OF assms(2)], of url rt "currentDocument loader" BlockedStatus_default "[]"] assms
  by (auto simp: processContentExtensionRulesForLoad_def BlockedStatus_default_def result_def Let_def)

lemma processContentExtensionRulesForPingLoad_status:
  assumes "exts \<noteq> []"
    and "actionsForResourceLoad env \<lparr>resourceURL = url, mainDocumentURL = mainURL, info_type = RT_Raw\<rparr> exts = Some (Inr (acts, ids, exts'))"
  shows "\<exists>status. processContentExtensionRulesForPingLoad env url mainURL exts = Some (Inr (status, exts')) \<and>
    (blockedLoad status \<longleftrightarrow> has_type BlockLoad acts) \<and> (blockedCookies status \<longleftrightarrow> has_type BlockCookies acts) \<and>
    (madeHTTPS status \<longleftrightarrow> canMakeHTTPS url \<and> has_type MakeHTTPS acts) \<and> notifications status = []"
  using processPingActions_status [OF actionsForResourceLoad_types [OF assms(2)], of url BlockedStatus_default] assms
  by (auto simp: processContentExtensionRulesForPingLoad_def BlockedStatus_default_def result_def)

end
