(* ===== verification/Rule_Parser.thy ===== *)
theory Rule_Parser
  imports Serialize_Actions
begin

text \<open>
  \<^verbatim>\<open>ContentExtensionParser.cpp\<close>: rule lists from JSON. The JSON parser of JavaScriptCore, its conversion of a value to a
  string and the check of a CSS selector are arguments. Values that come from JSON have no accessors, so reading a property does not
  throw, and arrays have no holes. A number is the bits of a double.
\<close>

section \<open>Values and errors\<close>

datatype js_value = JSNull | JSBoolean bool | JSNumber u64 | JSString wtf_string | JSArray "js_value list" | JSObject "(nat list \<times> js_value) list"

datatype ContentExtensionError =
    JSONInvalid | JSONTopLevelStructureNotAnObject | JSONTopLevelStructureNotAnArray | JSONInvalidObjectInTopLevelArray
  | JSONInvalidRule | JSONContainsNoRules | JSONInvalidTrigger | JSONInvalidURLFilterInTrigger | JSONInvalidTriggerFlagsArray
  | JSONInvalidObjectInTriggerFlagsArray | JSONInvalidStringInTriggerFlagsArray | JSONInvalidConditionList | JSONDomainNotLowerCaseASCII
  | JSONMultipleConditions | JSONTopURLAndDomainConditions | JSONTooManyRules | JSONInvalidAction | JSONInvalidActionType
  | JSONInvalidCSSDisplayNoneActionType | JSONInvalidNotification | JSONInvalidRegex

text \<open>The codes and messages of the errors.\<close>

fun error_value :: "ContentExtensionError \<Rightarrow> int" where
  "error_value JSONInvalid = 1"
| "error_value JSONTopLevelStructureNotAnObject = 2"
| "error_value JSONTopLevelStructureNotAnArray = 3"
| "error_value JSONInvalidObjectInTopLevelArray = 4"
| "error_value JSONInvalidRule = 5"
| "error_value JSONContainsNoRules = 6"
| "error_value JSONInvalidTrigger = 7"
| "error_value JSONInvalidURLFilterInTrigger = 8"
| "error_value JSONInvalidTriggerFlagsArray = 9"
| "error_value JSONInvalidObjectInTriggerFlagsArray = 10"
| "error_value JSONInvalidStringInTriggerFlagsArray = 11"
| "error_value JSONInvalidConditionList = 12"
| "error_value JSONDomainNotLowerCaseASCII = 13"
| "error_value JSONMultipleConditions = 14"
| "error_value JSONTopURLAndDomainConditions = 15"
| "error_value JSONTooManyRules = 16"
| "error_value JSONInvalidAction = 17"
| "error_value JSONInvalidActionType = 18"
| "error_value JSONInvalidCSSDisplayNoneActionType = 19"
| "error_value JSONInvalidNotification = 20"
| "error_value JSONInvalidRegex = 21"

fun error_message :: "ContentExtensionError \<Rightarrow> string" where
  "error_message JSONInvalid = ''Failed to parse the JSON String.''"
| "error_message JSONTopLevelStructureNotAnObject = ''Invalid input, the top level structure is not an object.''"
| "error_message JSONTopLevelStructureNotAnArray = ''Invalid input, the top level structure is not an array.''"
| "error_message JSONInvalidObjectInTopLevelArray = ''Invalid object in the top level array.''"
| "error_message JSONInvalidRule = ''Invalid rule.''"
| "error_message JSONContainsNoRules = ''Empty extension.''"
| "error_message JSONInvalidTrigger = ''Invalid trigger object.''"
| "error_message JSONInvalidURLFilterInTrigger = ''Invalid url-filter object.''"
| "error_message JSONInvalidTriggerFlagsArray = ''Invalid trigger flags array.''"
| "error_message JSONInvalidObjectInTriggerFlagsArray = ''Invalid object in the trigger flags array.''"
| "error_message JSONInvalidStringInTriggerFlagsArray = ''Invalid string in the trigger flags array.''"
| "error_message JSONInvalidAction = ''Invalid action object.''"
| "error_message JSONInvalidActionType = ''Invalid action type.''"
| "error_message JSONInvalidCSSDisplayNoneActionType = ''Invalid css-display-none action type. Requires a selector.''"
| "error_message JSONInvalidRegex = ''Invalid or unsupported regular expression.''"
| "error_message JSONInvalidConditionList = ''Invalid list of if-domain, unless-domain, if-top-url, or unless-top-url conditions.''"
| "error_message JSONTooManyRules = ''Too many rules in JSON array.''"
| "error_message JSONDomainNotLowerCaseASCII = ''Domains must be lower case ASCII. Use punycode to encode non-ASCII characters.''"
| "error_message JSONMultipleConditions = ''A trigger cannot have more than one condition (if-domain, unless-domain, if-top-url, or unless-top-url)''"
| "error_message JSONTopURLAndDomainConditions = ''A list cannot have if-domain and unless-domain mixed with if-top-url and unless-top-url''"
| "error_message JSONInvalidNotification = ''A notify action must have a string notification''"

type_synonym 'a expected = "ContentExtensionError + 'a"

definition ebind :: "'a expected \<Rightarrow> ('a \<Rightarrow> 'b expected) \<Rightarrow> 'b expected" where
  "ebind m f = (case m of Inl e \<Rightarrow> Inl e | Inr x \<Rightarrow> f x)"

lemma error_message_inj: "error_message a = error_message b \<longleftrightarrow> a = b"
  by (cases a; cases b; simp)

lemma ebind_simps [simp]: "ebind (Inl e) f = Inl e" "ebind (Inr x) f = f x"
  by (simp_all add: ebind_def)

lemma ebind_eq_Inr: "ebind m f = Inr y \<longleftrightarrow> (\<exists>x. m = Inr x \<and> f x = Inr y)"
  by (cases m) auto

fun isObject :: "js_value \<Rightarrow> bool" where
  "isObject (JSArray _) = True"
| "isObject (JSObject _) = True"
| "isObject _ = False"

text \<open>A property of a value; \<open>None\<close> is \<open>undefined\<close>. Of two properties with one name the later one counts.\<close>

fun js_get :: "js_value \<Rightarrow> string \<Rightarrow> js_value option" where
  "js_get (JSObject ps) name = map_of (rev ps) (ascii name)"
| "js_get _ name = None"

text \<open>The services the parser uses.\<close>

record parser_services =
  JSONParse :: "wtf_string \<Rightarrow> js_value option"
  toWTFString :: "js_value \<Rightarrow> wtf_string"
  isValidCSSSelector :: "wtf_string \<Rightarrow> bool"

section \<open>The code\<close>

definition containsOnlyASCIIWithNoUppercase :: "wtf_string \<Rightarrow> bool" where
  "containsOnlyASCIIWithNoUppercase domain \<longleftrightarrow> list_all (\<lambda>c. c < 128 \<and> \<not> isASCIIUpper c) (characters domain)"

fun getStrings :: "js_value list \<Rightarrow> wtf_string list \<Rightarrow> wtf_string list expected" where
  "getStrings [] strings = Inr strings"
| "getStrings (v # vs) strings =
     (case v of
        JSString s \<Rightarrow> if characters s = [] then Inl JSONInvalidConditionList else getStrings vs (strings @ [s])
      | _ \<Rightarrow> Inl JSONInvalidConditionList)"

definition getStringList :: "js_value \<Rightarrow> wtf_string list expected" where
  "getStringList v = (case v of JSArray vs \<Rightarrow> getStrings vs [] | _ \<Rightarrow> Inl JSONInvalidConditionList)"

definition getDomainList :: "js_value \<Rightarrow> wtf_string list expected" where
  "getDomainList v =
     ebind (getStringList v) (\<lambda>strings.
       if list_all containsOnlyASCIIWithNoUppercase strings then Inr strings else Inl JSONDomainNotLowerCaseASCII)"

fun getFlags :: "parser_services \<Rightarrow> (nat list \<Rightarrow> u16) \<Rightarrow> js_value list \<Rightarrow> u16 \<Rightarrow> u16 expected" where
  "getFlags S stringToType [] flags = Inr flags"
| "getFlags S stringToType (v # vs) flags =
     (let type = stringToType (characters (toWTFString S v))
      in if type = 0 then Inl JSONInvalidStringInTriggerFlagsArray else getFlags S stringToType vs (flags OR type))"

definition getTypeFlags :: "parser_services \<Rightarrow> js_value \<Rightarrow> u16 \<Rightarrow> (nat list \<Rightarrow> u16) \<Rightarrow> u16 expected" where
  "getTypeFlags S v flags stringToType =
     (if \<not> isObject v then Inr flags
      else case v of JSArray vs \<Rightarrow> getFlags S stringToType vs flags | _ \<Rightarrow> Inl JSONInvalidTriggerFlagsArray)"

text \<open>A flags property of a trigger.\<close>

definition loadFlags :: "parser_services \<Rightarrow> js_value \<Rightarrow> string \<Rightarrow> (nat list \<Rightarrow> u16) \<Rightarrow> Trigger \<Rightarrow> Trigger expected" where
  "loadFlags S triggerObject name stringToType trigger =
     (case js_get triggerObject name of
        None \<Rightarrow> Inr trigger
      | Some v \<Rightarrow>
          if isObject v then ebind (getTypeFlags S v (trigger_flags trigger) stringToType) (\<lambda>flags. Inr (trigger\<lparr>trigger_flags := flags\<rparr>))
          else Inl JSONInvalidTriggerFlagsArray)"

text \<open>A condition property of a trigger; all but the first of the four check that there is no condition yet.\<close>

definition loadCondition ::
  "js_value \<Rightarrow> string \<Rightarrow> bool \<Rightarrow> (js_value \<Rightarrow> wtf_string list expected) \<Rightarrow> ConditionType \<Rightarrow> Trigger \<Rightarrow> Trigger expected" where
  "loadCondition triggerObject name checkNone getList type trigger =
     (case js_get triggerObject name of
        None \<Rightarrow> Inr trigger
      | Some v \<Rightarrow>
          if isObject v then
            (if checkNone \<and> conditionType trigger \<noteq> CT_None then Inl JSONMultipleConditions
             else ebind (getList v) (\<lambda>strings.
               if strings = [] then Inl JSONInvalidConditionList
               else Inr (trigger\<lparr>conditions := strings, conditionType := type\<rparr>)))
          else Inl JSONInvalidConditionList)"

definition loadBoolean :: "js_value \<Rightarrow> string \<Rightarrow> bool" where
  "loadBoolean triggerObject name = (case js_get triggerObject name of Some (JSBoolean b) \<Rightarrow> b | _ \<Rightarrow> False)"

definition loadTrigger :: "parser_services \<Rightarrow> js_value \<Rightarrow> Trigger expected" where
  "loadTrigger S ruleObject =
     (case js_get ruleObject ''trigger'' of
        None \<Rightarrow> Inl JSONInvalidTrigger
      | Some triggerObject \<Rightarrow>
          if \<not> isObject triggerObject then Inl JSONInvalidTrigger
          else case js_get triggerObject ''url-filter'' of
            Some (JSString urlFilterString) \<Rightarrow>
              if characters urlFilterString = [] then Inl JSONInvalidURLFilterInTrigger
              else
                let trigger = Trigger_default\<lparr>urlFilter := urlFilterString,
                      urlFilterIsCaseSensitive := loadBoolean triggerObject ''url-filter-is-case-sensitive'',
                      topURLConditionIsCaseSensitive := loadBoolean triggerObject ''top-url-filter-is-case-sensitive''\<rparr>
                in ebind (loadFlags S triggerObject ''resource-type'' readResourceType trigger) (\<lambda>t1.
                   ebind (loadFlags S triggerObject ''load-type'' readLoadType t1) (\<lambda>t2.
                   ebind (loadCondition triggerObject ''if-domain'' False getDomainList CT_IfDomain t2) (\<lambda>t3.
                   ebind (loadCondition triggerObject ''unless-domain'' True getDomainList CT_UnlessDomain t3) (\<lambda>t4.
                   ebind (loadCondition triggerObject ''if-top-url'' True getStringList CT_IfTopURL t4) (\<lambda>t5.
                   loadCondition triggerObject ''unless-top-url'' True getStringList CT_UnlessTopURL t5)))))
          | _ \<Rightarrow> Inl JSONInvalidURLFilterInTrigger)"

definition defaultActionID :: nat where
  "defaultActionID = 2 ^ 32 - 1"

definition loadAction :: "parser_services \<Rightarrow> js_value \<Rightarrow> Action option expected" where
  "loadAction S ruleObject =
     (case js_get ruleObject ''action'' of
        None \<Rightarrow> Inl JSONInvalidAction
      | Some actionObject \<Rightarrow>
          if \<not> isObject actionObject then Inl JSONInvalidAction
          else case js_get actionObject ''type'' of
            Some (JSString actionType) \<Rightarrow>
              (let name = characters actionType
               in if name = ascii ''block'' then Inr (Some (Action_plain BlockLoad defaultActionID))
                  else if name = ascii ''ignore-previous-rules'' then Inr (Some (Action_plain IgnorePreviousRules defaultActionID))
                  else if name = ascii ''block-cookies'' then Inr (Some (Action_plain BlockCookies defaultActionID))
                  else if name = ascii ''css-display-none'' then
                    (case js_get actionObject ''selector'' of
                       Some (JSString selector) \<Rightarrow>
                         if \<not> isValidCSSSelector S selector then Inr None
                         else Inr (Some (Action_string CSSDisplayNoneSelector selector defaultActionID))
                     | _ \<Rightarrow> Inl JSONInvalidCSSDisplayNoneActionType)
                  else if name = ascii ''make-https'' then Inr (Some (Action_plain MakeHTTPS defaultActionID))
                  else if name = ascii ''notify'' then
                    (case js_get actionObject ''notification'' of
                       Some (JSString notification) \<Rightarrow> Inr (Some (Action_string Notify notification defaultActionID))
                     | _ \<Rightarrow> Inl JSONInvalidNotification)
                  else Inl JSONInvalidActionType)
          | _ \<Rightarrow> Inl JSONInvalidActionType)"

definition loadRule :: "parser_services \<Rightarrow> js_value \<Rightarrow> ContentExtensionRule option expected" where
  "loadRule S ruleObject =
     ebind (loadTrigger S ruleObject) (\<lambda>trigger.
     ebind (loadAction S ruleObject) (\<lambda>action.
       case action of
         Some a \<Rightarrow> Inr (Some \<lparr>rule_trigger = trigger, rule_action = a\<rparr>)
       | None \<Rightarrow> Inr None))"

fun loadRules :: "parser_services \<Rightarrow> js_value list \<Rightarrow> ContentExtensionRule list \<Rightarrow> ContentExtensionRule list expected" where
  "loadRules S [] ruleList = Inr ruleList"
| "loadRules S (v # vs) ruleList =
     (if v = JSNull then Inl JSONInvalidRule
      else ebind (loadRule S v) (\<lambda>rule.
        loadRules S vs (case rule of Some r \<Rightarrow> ruleList @ [r] | None \<Rightarrow> ruleList)))"

definition maxRuleCount :: nat where
  "maxRuleCount = 50000"

definition loadEncodedRules :: "parser_services \<Rightarrow> wtf_string \<Rightarrow> ContentExtensionRule list expected" where
  "loadEncodedRules S ruleJSON =
     (case JSONParse S ruleJSON of
        None \<Rightarrow> Inl JSONInvalid
      | Some decodedRules \<Rightarrow>
          if \<not> isObject decodedRules then Inl JSONTopLevelStructureNotAnObject
          else case decodedRules of
            JSArray vs \<Rightarrow> if length vs > maxRuleCount then Inl JSONTooManyRules else loadRules S vs []
          | _ \<Rightarrow> Inl JSONTopLevelStructureNotAnArray)"

definition parseRuleList :: "parser_services \<Rightarrow> wtf_string \<Rightarrow> ContentExtensionRule list expected" where
  "parseRuleList S ruleJSON =
     ebind (loadEncodedRules S ruleJSON) (\<lambda>ruleList. if ruleList = [] then Inl JSONContainsNoRules else Inr ruleList)"

section \<open>What parsed rules are like\<close>

text \<open>Flags that a trigger can name.\<close>

definition namedFlags :: u16 where
  "namedFlags = 0x0EFF"

definition condition_ok :: "Trigger \<Rightarrow> bool" where
  "condition_ok t \<longleftrightarrow> (conditions t = [] \<longleftrightarrow> conditionType t = CT_None) \<and> list_all (\<lambda>s. characters s \<noteq> []) (conditions t) \<and>
     (conditionType t = CT_IfDomain \<or> conditionType t = CT_UnlessDomain \<longrightarrow> list_all containsOnlyASCIIWithNoUppercase (conditions t))"

definition trigger_ok :: "Trigger \<Rightarrow> bool" where
  "trigger_ok t \<longleftrightarrow> characters (urlFilter t) \<noteq> [] \<and> trigger_flags t AND NOT namedFlags = 0 \<and> condition_ok t"

lemma flags_subset: "a AND NOT m = 0 \<Longrightarrow> b AND NOT m = 0 \<Longrightarrow> (a OR b) AND NOT m = 0" for a b m :: u16
  by (simp add: bit.conj_disj_distrib2)

lemma readers_named: "readResourceType n AND NOT namedFlags = 0" "readLoadType n AND NOT namedFlags = 0"
  by (simp_all add: readResourceType_def readLoadType_def namedFlags_def)

lemma getFlags_named:
  "getFlags S f vs flags = Inr flags' \<Longrightarrow> (\<And>n. f n AND NOT namedFlags = 0) \<Longrightarrow> flags AND NOT namedFlags = 0 \<Longrightarrow> flags' AND NOT namedFlags = 0"
  by (induction vs arbitrary: flags) (auto simp: Let_def flags_subset split: if_splits)

lemma loadFlags_ok:
  assumes "loadFlags S v name f t = Inr t'" and "\<And>n. f n AND NOT namedFlags = 0" and "trigger_ok t"
  shows "trigger_ok t' \<and> conditionType t' = conditionType t"
  using assms getFlags_named [of S f _ "trigger_flags t"]
  by (auto simp: loadFlags_def ebind_eq_Inr getTypeFlags_def trigger_ok_def condition_ok_def split: option.splits if_splits js_value.splits)

lemma getStrings_ok:
  "getStrings vs strings = Inr strings' \<Longrightarrow> list_all (\<lambda>s. characters s \<noteq> []) strings \<Longrightarrow> list_all (\<lambda>s. characters s \<noteq> []) strings'"
  by (induction vs arbitrary: strings) (auto split: js_value.splits if_splits)

lemma getStringList_ok: "getStringList v = Inr ss \<Longrightarrow> list_all (\<lambda>s. characters s \<noteq> []) ss"
  by (auto simp: getStringList_def dest: getStrings_ok split: js_value.splits)

lemma getDomainList_ok: "getDomainList v = Inr ss \<Longrightarrow> list_all (\<lambda>s. characters s \<noteq> []) ss \<and> list_all containsOnlyASCIIWithNoUppercase ss"
  by (auto simp: getDomainList_def ebind_eq_Inr dest: getStringList_ok split: if_splits)

lemma loadCondition_ok:
  assumes "loadCondition v name chk getList type t = Inr t'" and "trigger_ok t" and "type \<noteq> CT_None"
    and "\<And>v ss. getList v = Inr ss \<Longrightarrow> list_all (\<lambda>s. characters s \<noteq> []) ss \<and>
      (type = CT_IfDomain \<or> type = CT_UnlessDomain \<longrightarrow> list_all containsOnlyASCIIWithNoUppercase ss)"
  shows "trigger_ok t'"
  using assms by (auto simp: loadCondition_def ebind_eq_Inr trigger_ok_def condition_ok_def split: option.splits if_splits)

text \<open>The steps of a trigger that loads.\<close>

lemma loadTrigger_steps:
  assumes "loadTrigger S v = Inr t"
  obtains triggerObject t0 t1 t2 t3 t4 t5 where
    "js_get v ''trigger'' = Some triggerObject" "trigger_ok t0" "conditionType t0 = CT_None"
    "loadFlags S triggerObject ''resource-type'' readResourceType t0 = Inr t1"
    "loadFlags S triggerObject ''load-type'' readLoadType t1 = Inr t2"
    "loadCondition triggerObject ''if-domain'' False getDomainList CT_IfDomain t2 = Inr t3"
    "loadCondition triggerObject ''unless-domain'' True getDomainList CT_UnlessDomain t3 = Inr t4"
    "loadCondition triggerObject ''if-top-url'' True getStringList CT_IfTopURL t4 = Inr t5"
    "loadCondition triggerObject ''unless-top-url'' True getStringList CT_UnlessTopURL t5 = Inr t"
proof -
  obtain triggerObject f t0 where o: "js_get v ''trigger'' = Some triggerObject" and f: "characters f \<noteq> []"
    and t0: "t0 = Trigger_default\<lparr>urlFilter := f, urlFilterIsCaseSensitive := loadBoolean triggerObject ''url-filter-is-case-sensitive'',
        topURLConditionIsCaseSensitive := loadBoolean triggerObject ''top-url-filter-is-case-sensitive''\<rparr>"
    and l: "ebind (loadFlags S triggerObject ''resource-type'' readResourceType t0) (\<lambda>t1.
         ebind (loadFlags S triggerObject ''load-type'' readLoadType t1) (\<lambda>t2.
         ebind (loadCondition triggerObject ''if-domain'' False getDomainList CT_IfDomain t2) (\<lambda>t3.
         ebind (loadCondition triggerObject ''unless-domain'' True getDomainList CT_UnlessDomain t3) (\<lambda>t4.
         ebind (loadCondition triggerObject ''if-top-url'' True getStringList CT_IfTopURL t4) (\<lambda>t5.
         loadCondition triggerObject ''unless-top-url'' True getStringList CT_UnlessTopURL t5))))) = Inr t"
    using assms unfolding loadTrigger_def Let_def by (auto split: option.splits if_splits js_value.splits)
  have "trigger_ok t0" "conditionType t0 = CT_None"
    using f by (simp_all add: t0 trigger_ok_def condition_ok_def Trigger_default_def)
  then show ?thesis using that o l by (auto simp: ebind_eq_Inr)
qed

lemma loadTrigger_ok:
  assumes "loadTrigger S v = Inr t"
  shows "trigger_ok t"
  using assms
proof (rule loadTrigger_steps)
  fix triggerObject t0 t1 t2 t3 t4 t5
  assume t: "trigger_ok t0" and l: "loadFlags S triggerObject ''resource-type'' readResourceType t0 = Inr t1"
    "loadFlags S triggerObject ''load-type'' readLoadType t1 = Inr t2"
    "loadCondition triggerObject ''if-domain'' False getDomainList CT_IfDomain t2 = Inr t3"
    "loadCondition triggerObject ''unless-domain'' True getDomainList CT_UnlessDomain t3 = Inr t4"
    "loadCondition triggerObject ''if-top-url'' True getStringList CT_IfTopURL t4 = Inr t5"
    "loadCondition triggerObject ''unless-top-url'' True getStringList CT_UnlessTopURL t5 = Inr t"
  note t1 = loadFlags_ok [OF l(1) readers_named(1) t, THEN conjunct1]
  note t2 = loadFlags_ok [OF l(2) readers_named(2) t1, THEN conjunct1]
  have t3: "trigger_ok t3" by (rule loadCondition_ok [OF l(3) t2]) (use getDomainList_ok in auto)
  have t4: "trigger_ok t4" by (rule loadCondition_ok [OF l(4) t3]) (use getDomainList_ok in auto)
  have t5: "trigger_ok t5" by (rule loadCondition_ok [OF l(5) t4]) (use getStringList_ok in auto)
  show ?thesis by (rule loadCondition_ok [OF l(6) t5]) (use getStringList_ok in auto)
qed

text \<open>A trigger has at most one kind of condition.\<close>

definition condition_properties :: "string list" where
  "condition_properties = [''if-domain'', ''unless-domain'', ''if-top-url'', ''unless-top-url'']"

lemma loadCondition_type:
  assumes "loadCondition v name chk getList type t = Inr t'" and "type \<noteq> CT_None"
  shows "if js_get v name = None then t' = t else conditionType t' = type \<and> (chk \<longrightarrow> conditionType t = CT_None)"
  using assms by (auto simp: loadCondition_def ebind_eq_Inr split: option.splits if_splits)

lemma loadTrigger_conditions:
  assumes "loadTrigger S v = Inr t" and v: "js_get v ''trigger'' = Some obj"
  shows "length (filter (\<lambda>n. js_get obj n \<noteq> None) condition_properties) \<le> 1"
  using assms(1)
proof (rule loadTrigger_steps)
  fix triggerObject t0 t1 t2 t3 t4 t5
  assume o: "js_get v ''trigger'' = Some triggerObject" and l:
    "loadCondition triggerObject ''if-domain'' False getDomainList CT_IfDomain t2 = Inr t3"
    "loadCondition triggerObject ''unless-domain'' True getDomainList CT_UnlessDomain t3 = Inr t4"
    "loadCondition triggerObject ''if-top-url'' True getStringList CT_IfTopURL t4 = Inr t5"
    "loadCondition triggerObject ''unless-top-url'' True getStringList CT_UnlessTopURL t5 = Inr t"
  have "triggerObject = obj" using v o by simp
  then show ?thesis
    using loadCondition_type [OF l(1)] loadCondition_type [OF l(2)] loadCondition_type [OF l(3)] loadCondition_type [OF l(4)]
    by (simp add: condition_properties_def split: if_splits)
qed

text \<open>All strings in a value have characters of their width.\<close>

fun strings_ok :: "js_value \<Rightarrow> bool" where
  "strings_ok (JSString s) = wf_string s"
| "strings_ok (JSArray vs) = list_all strings_ok vs"
| "strings_ok (JSObject ps) = list_all (\<lambda>(_, v). strings_ok v) ps"
| "strings_ok _ = True"

lemma js_get_strings: "js_get v name = Some w \<Longrightarrow> strings_ok v \<Longrightarrow> strings_ok w"
  by (induction v name rule: js_get.induct) (fastforce dest: map_of_SomeD simp: list_all_iff)+

lemma loadAction_ok:
  assumes "loadAction S v = Inr (Some a)" and "strings_ok v"
  shows "arg_ok (m_type a) (m_stringArgument a)"
  using assms js_get_strings [of _ _ "JSString _"] js_get_strings [of v]
  by (auto simp: loadAction_def Let_def arg_ok_def Action_plain_def Action_string_def split: option.splits if_splits js_value.splits)

lemma loadRules_ok:
  "\<lbrakk>loadRules S vs rs = Inr rules; list_all strings_ok vs; \<forall>r \<in> set rs. rule_ok r \<and> trigger_ok (rule_trigger r)\<rbrakk> \<Longrightarrow>
    (\<forall>r \<in> set rules. rule_ok r \<and> trigger_ok (rule_trigger r)) \<and> length rules \<le> length rs + length vs"
proof (induction vs arbitrary: rs)
  case (Cons v vs)
  from Cons.prems(1) obtain r where r: "loadRule S v = Inr r"
    "loadRules S vs (case r of Some r \<Rightarrow> rs @ [r] | None \<Rightarrow> rs) = Inr rules"
    by (auto simp: ebind_eq_Inr split: if_splits)
  have ok: "rule_ok x \<and> trigger_ok (rule_trigger x)" if "r = Some x" for x
    using r(1) that Cons.prems(2) loadTrigger_ok [of S v] loadAction_ok [of S v]
    by (auto simp: loadRule_def ebind_eq_Inr rule_ok_def split: option.splits)
  have "\<forall>x \<in> set (case r of Some r \<Rightarrow> rs @ [r] | None \<Rightarrow> rs). rule_ok x \<and> trigger_ok (rule_trigger x)"
    using ok Cons.prems(3) by (cases r) auto
  from Cons.IH [OF r(2) _ this] Cons.prems(2) show ?case by (cases r) auto
qed simp

lemma parseRuleList_ok:
  assumes "parseRuleList S json = Inr rules" and "\<And>v. JSONParse S json = Some v \<Longrightarrow> strings_ok v"
  shows "rules \<noteq> [] \<and> length rules \<le> maxRuleCount \<and> (\<forall>r \<in> set rules. rule_ok r \<and> trigger_ok (rule_trigger r))"
  using assms loadRules_ok [of S _ "[]" rules]
  by (fastforce simp: parseRuleList_def loadEncodedRules_def ebind_eq_Inr split: option.splits if_splits js_value.splits)

section \<open>Every rule can be written\<close>

text \<open>A rule as JSON.\<close>

definition flag_names :: "(string \<times> nat) list \<Rightarrow> u16 \<Rightarrow> js_value list" where
  "flag_names ns flags = map (\<lambda>(n, k). JSString (ascii8 n)) (filter (\<lambda>(n, k). bit flags k) ns)"

definition resourceTypeNames :: "(string \<times> nat) list" where
  "resourceTypeNames = [(''document'', 0), (''image'', 1), (''style-sheet'', 2), (''script'', 3), (''font'', 4), (''raw'', 5),
     (''svg-document'', 6), (''media'', 7), (''popup'', 9)]"

definition loadTypeNames :: "(string \<times> nat) list" where
  "loadTypeNames = [(''first-party'', 10), (''third-party'', 11)]"

fun condition_name :: "ConditionType \<Rightarrow> string" where
  "condition_name CT_None = []"
| "condition_name CT_IfDomain = ''if-domain''"
| "condition_name CT_UnlessDomain = ''unless-domain''"
| "condition_name CT_IfTopURL = ''if-top-url''"
| "condition_name CT_UnlessTopURL = ''unless-top-url''"

definition encodeTrigger :: "Trigger \<Rightarrow> js_value" where
  "encodeTrigger t = JSObject ([
     (ascii ''url-filter'', JSString (urlFilter t)),
     (ascii ''url-filter-is-case-sensitive'', JSBoolean (urlFilterIsCaseSensitive t)),
     (ascii ''top-url-filter-is-case-sensitive'', JSBoolean (topURLConditionIsCaseSensitive t)),
     (ascii ''resource-type'', JSArray (flag_names resourceTypeNames (trigger_flags t))),
     (ascii ''load-type'', JSArray (flag_names loadTypeNames (trigger_flags t)))] @
     (if conditionType t = CT_None then [] else [(ascii (condition_name (conditionType t)), JSArray (map JSString (conditions t)))]))"

fun action_name :: "ActionType \<Rightarrow> string" where
  "action_name BlockLoad = ''block''"
| "action_name BlockCookies = ''block-cookies''"
| "action_name CSSDisplayNoneSelector = ''css-display-none''"
| "action_name Notify = ''notify''"
| "action_name IgnorePreviousRules = ''ignore-previous-rules''"
| "action_name MakeHTTPS = ''make-https''"

definition encodeAction :: "Action \<Rightarrow> js_value" where
  "encodeAction a = JSObject [(ascii ''type'', JSString (ascii8 (action_name (m_type a)))),
     (ascii (if m_type a = Notify then ''notification'' else ''selector''), JSString (stringArgument a))]"

definition encodeRule :: "ContentExtensionRule \<Rightarrow> js_value" where
  "encodeRule r = JSObject [(ascii ''trigger'', encodeTrigger (rule_trigger r)), (ascii ''action'', encodeAction (rule_action r))]"

lemma and_bit: "w AND 2 ^ k = (if bit w k then 2 ^ k else 0)" for w :: u16
  by (rule bit_word_eqI) (auto simp: bit_simps)

lemma getFlags_names:
  assumes "\<And>s. toWTFString S (JSString s) = s" and "\<forall>(n, k) \<in> set ns. f (ascii n) = 2 ^ k \<and> k < 16"
  shows "getFlags S f (flag_names ns flags) acc = Inr (fold (\<lambda>(n, k) a. a OR (flags AND 2 ^ k)) ns acc)"
  using assms(2)
proof (induction ns arbitrary: acc)
  case (Cons x ns)
  obtain n k where x: "x = (n, k)" by (cases x)
  have k: "f (ascii n) = 2 ^ k" "k < 16" using Cons.prems x by auto
  have nz: "2 ^ k \<noteq> (0 :: u16)" using k(2) by (auto simp: bit_eq_iff bit_simps)
  show ?case
  proof (cases "bit flags k")
    case True
    then have "getFlags S f (flag_names (x # ns) flags) acc = getFlags S f (flag_names ns flags) (acc OR 2 ^ k)"
      using k(1) nz assms(1) by (simp add: flag_names_def x ascii8_def)
    then show ?thesis using Cons True by (simp add: x and_bit)
  next
    case False
    then have "flag_names (x # ns) flags = flag_names ns flags" by (simp add: flag_names_def x)
    then show ?thesis using Cons False by (simp add: x and_bit)
  qed
qed (simp add: flag_names_def)

lemma flags_rebuilt:
  assumes "flags AND NOT namedFlags = 0"
  shows "fold (\<lambda>(n, k) a. a OR (flags AND 2 ^ k)) (resourceTypeNames @ loadTypeNames) 0 = flags"
proof -
  have "fold (\<lambda>(n, k) a. a OR (flags AND 2 ^ k)) (resourceTypeNames @ loadTypeNames) 0 = flags AND namedFlags"
    by (simp add: resourceTypeNames_def loadTypeNames_def namedFlags_def flip: bit.conj_disj_distrib)
  also have "flags AND namedFlags = (flags AND namedFlags) OR (flags AND NOT namedFlags)" using assms by simp
  also have "\<dots> = flags" by (simp flip: bit.conj_disj_distrib)
  finally show ?thesis .
qed

lemma names_read:
  "\<forall>(n, k) \<in> set resourceTypeNames. readResourceType (ascii n) = 2 ^ k \<and> k < 16"
  "\<forall>(n, k) \<in> set loadTypeNames. readLoadType (ascii n) = 2 ^ k \<and> k < 16"
  by (simp_all add: resourceTypeNames_def loadTypeNames_def readResourceType_def readLoadType_def ascii_def)

lemma getStrings_map: "list_all (\<lambda>s. characters s \<noteq> []) ss \<Longrightarrow> getStrings (map JSString ss) acc = Inr (acc @ ss)"
  by (induction ss arbitrary: acc) auto

lemma encodeTrigger_get:
  "js_get (encodeTrigger t) ''url-filter'' = Some (JSString (urlFilter t))"
  "js_get (encodeTrigger t) ''url-filter-is-case-sensitive'' = Some (JSBoolean (urlFilterIsCaseSensitive t))"
  "js_get (encodeTrigger t) ''top-url-filter-is-case-sensitive'' = Some (JSBoolean (topURLConditionIsCaseSensitive t))"
  "js_get (encodeTrigger t) ''resource-type'' = Some (JSArray (flag_names resourceTypeNames (trigger_flags t)))"
  "js_get (encodeTrigger t) ''load-type'' = Some (JSArray (flag_names loadTypeNames (trigger_flags t)))"
  by (cases "conditionType t"; simp add: encodeTrigger_def ascii_def)+

lemma encodeTrigger_condition:
  "c \<noteq> CT_None \<Longrightarrow> js_get (encodeTrigger t) (condition_name c) =
    (if conditionType t = c then Some (JSArray (map JSString (conditions t))) else None)"
  by (cases c; cases "conditionType t"; simp add: encodeTrigger_def ascii_def)

lemma loadTrigger_encode:
  assumes "trigger_ok t" and S: "\<And>s. toWTFString S (JSString s) = s" and v: "js_get v ''trigger'' = Some (encodeTrigger t)"
  shows "loadTrigger S v = Inr t"
proof -
  define t0 where "t0 = Trigger_default\<lparr>urlFilter := urlFilter t, urlFilterIsCaseSensitive := urlFilterIsCaseSensitive t,
    topURLConditionIsCaseSensitive := topURLConditionIsCaseSensitive t\<rparr>"
  have f: "characters (urlFilter t) \<noteq> []" "trigger_flags t AND NOT namedFlags = 0" "condition_ok t" using assms(1) by (auto simp: trigger_ok_def)
  define fl where "fl = fold (\<lambda>(n, k) a. a OR (trigger_flags t AND 2 ^ k)) resourceTypeNames 0"
  have l1: "loadFlags S (encodeTrigger t) ''resource-type'' readResourceType t0 = Inr (t0\<lparr>trigger_flags := fl\<rparr>)"
    by (simp add: loadFlags_def encodeTrigger_get getTypeFlags_def getFlags_names [OF S names_read(1)] fl_def t0_def Trigger_default_def)
  have l2: "loadFlags S (encodeTrigger t) ''load-type'' readLoadType (t0\<lparr>trigger_flags := fl\<rparr>) = Inr (t0\<lparr>trigger_flags := trigger_flags t\<rparr>)"
    using flags_rebuilt [OF f(2)]
    by (simp add: loadFlags_def encodeTrigger_get getTypeFlags_def getFlags_names [OF S names_read(2)] fl_def)
  have o: "isObject (encodeTrigger t)" by (simp add: encodeTrigger_def)
  have d: "getStringList (JSArray (map JSString (conditions t))) = Inr (conditions t)"
    using f(3) by (simp add: getStringList_def getStrings_map condition_ok_def)
  have dl: "conditionType t = CT_IfDomain \<or> conditionType t = CT_UnlessDomain \<Longrightarrow>
      getDomainList (JSArray (map JSString (conditions t))) = Inr (conditions t)"
    using f(3) d by (simp add: getDomainList_def condition_ok_def)
  have c: "conditions t = [] \<longleftrightarrow> conditionType t = CT_None" using f(3) by (simp add: condition_ok_def)
  have t: "t = t0\<lparr>trigger_flags := trigger_flags t, conditions := conditions t, conditionType := conditionType t\<rparr>"
    by (simp add: t0_def)
  note g = encodeTrigger_condition [of CT_IfDomain t, simplified] encodeTrigger_condition [of CT_UnlessDomain t, simplified]
    encodeTrigger_condition [of CT_IfTopURL t, simplified] encodeTrigger_condition [of CT_UnlessTopURL t, simplified]
  have "loadTrigger S v = (let t2 = t0\<lparr>trigger_flags := trigger_flags t\<rparr> in
         ebind (loadCondition (encodeTrigger t) ''if-domain'' False getDomainList CT_IfDomain t2) (\<lambda>t3.
         ebind (loadCondition (encodeTrigger t) ''unless-domain'' True getDomainList CT_UnlessDomain t3) (\<lambda>t4.
         ebind (loadCondition (encodeTrigger t) ''if-top-url'' True getStringList CT_IfTopURL t4) (\<lambda>t5.
         loadCondition (encodeTrigger t) ''unless-top-url'' True getStringList CT_UnlessTopURL t5))))"
    using v o f(1) l1 l2 by (simp add: loadTrigger_def encodeTrigger_get loadBoolean_def Let_def flip: t0_def)
  also have "\<dots> = Inr (t0\<lparr>trigger_flags := trigger_flags t, conditions := conditions t, conditionType := conditionType t\<rparr>)"
    using c d dl g by (cases "conditionType t") (simp_all add: loadCondition_def t0_def Trigger_default_def Let_def)
  finally show ?thesis using t by simp
qed

lemma loadRule_encode:
  assumes "trigger_ok (rule_trigger r)" and S: "\<And>s. toWTFString S (JSString s) = s" and ok: "rule_ok r"
    and css: "m_type (rule_action r) = CSSDisplayNoneSelector \<Longrightarrow> isValidCSSSelector S (stringArgument (rule_action r))"
    and a: "m_extensionIdentifier (rule_action r) = None" "m_actionID (rule_action r) = defaultActionID"
  shows "loadRule S (encodeRule r) = Inr (Some r)"
proof -
  have t: "loadTrigger S (encodeRule r) = Inr (rule_trigger r)"
    by (rule loadTrigger_encode [OF assms(1) S]) (simp add: encodeRule_def ascii_def)
  have g: "js_get (encodeRule r) ''action'' = Some (encodeAction (rule_action r))" by (simp add: encodeRule_def ascii_def)
  have "loadAction S (encodeRule r) = Inr (Some (rule_action r))"
    using ok css a
    by (cases "rule_action r"; cases "m_type (rule_action r)")
      (auto simp: loadAction_def g encodeAction_def ascii8_def ascii_def Let_def rule_ok_def arg_ok_def Action_plain_def Action_string_def stringArgument_def)
  then show ?thesis using t by (simp add: loadRule_def)
qed

end
