(* ===== verification/Combined_Filters.thy ===== *)
theory Combined_Filters
  imports Term_Graph Rules
begin

text \<open>
  \<^verbatim>\<open>CombinedURLFilters.cpp\<close> and \<^verbatim>\<open>CombinedFiltersAlphabet.cpp\<close>: patterns in a prefix tree, and the NFAs made of it.
  A vertex has its entry of \<^verbatim>\<open>m_actions\<close>, which the code keeps in a map from addresses of vertices. Interned terms are equal
  exactly if their addresses are, so an edge has the term itself; \<open>None\<close> is the null pointer that marks an edge for deletion.
  The code changes the vertices on a stack in place; here an entry of a stack has the current value of its vertex, and
  a vertex that leaves the stack is written into its parent.
\<close>

section \<open>The prefix tree\<close>

type_synonym ActionList = "u64 list"

datatype PrefixTreeVertex = Vertex (vertex_actions: "ActionList option") (edges: "(Term option \<times> PrefixTreeVertex) list")

type_synonym PrefixTreeEdge = "Term option \<times> PrefixTreeVertex"

record CombinedURLFilters =
  m_alphabet :: "Term list"
  m_prefixTreeRoot :: PrefixTreeVertex

definition CombinedURLFilters_default :: CombinedURLFilters where
  "CombinedURLFilters_default = \<lparr>m_alphabet = [], m_prefixTreeRoot = Vertex None []\<rparr>"

definition filters_isEmpty :: "CombinedURLFilters \<Rightarrow> bool" where
  "filters_isEmpty f \<longleftrightarrow> edges (m_prefixTreeRoot f) = []"

text \<open>\<^verbatim>\<open>CombinedFiltersAlphabet::interned\<close>: the term that is already there, or a new one.\<close>

definition interned :: "Term \<Rightarrow> Term list \<Rightarrow> Term \<times> Term list" where
  "interned t alphabet = (case find (\<lambda>u. term_eq u t) alphabet of Some u \<Rightarrow> (u, alphabet) | None \<Rightarrow> (t, alphabet @ [t]))"

fun findEdge :: "Term \<Rightarrow> PrefixTreeEdge list \<Rightarrow> nat option" where
  "findEdge t [] = None"
| "findEdge t ((u, _) # es) =
     (if (case u of Some v \<Rightarrow> term_eq v t | None \<Rightarrow> False) then Some 0 else map_option Suc (findEdge t es))"

definition appendAction :: "u64 \<Rightarrow> ActionList option \<Rightarrow> ActionList option" where
  "appendAction actionId actions =
     (let as = (case actions of None \<Rightarrow> [] | Some as \<Rightarrow> as) in Some (if actionId \<in> set as then as else as @ [actionId]))"

fun extendTree :: "u64 \<Rightarrow> Term list \<Rightarrow> Term list \<Rightarrow> PrefixTreeVertex \<Rightarrow> Term list \<times> PrefixTreeVertex" where
  "extendTree actionId [] alphabet (Vertex as es) = (alphabet, Vertex (appendAction actionId as) es)"
| "extendTree actionId (t # ts) alphabet (Vertex as es) =
     (case findEdge t es of
        Some i \<Rightarrow> (case extendTree actionId ts alphabet (snd (es ! i)) of (alphabet1, child) \<Rightarrow> (alphabet1, Vertex as (es[i := (fst (es ! i), child)])))
      | None \<Rightarrow>
          (case interned t alphabet of
             (term, alphabet1) \<Rightarrow>
               (case extendTree actionId ts alphabet1 (Vertex None []) of (alphabet2, child) \<Rightarrow> (alphabet2, Vertex as (es @ [(Some term, child)])))))"

definition filters_addPattern :: "u64 \<Rightarrow> Term list \<Rightarrow> CombinedURLFilters \<Rightarrow> CombinedURLFilters" where
  "filters_addPattern actionId pattern f =
     (if pattern = [] then f
      else case extendTree actionId pattern (m_alphabet f) (m_prefixTreeRoot f) of
        (alphabet, root) \<Rightarrow> \<lparr>m_alphabet = alphabet, m_prefixTreeRoot = root\<rparr>)"

text \<open>A character of a domain is converted to \<^verbatim>\<open>char\<close>, which is signed, and back to \<^verbatim>\<open>UChar\<close>.\<close>

definition domainCharacter :: "nat \<Rightarrow> nat" where
  "domainCharacter c = (let b = c mod 256 in if b < 128 then b else b + 0xFF00)"

fun domainTerms :: "nat list \<Rightarrow> Term list option" where
  "domainTerms [] = do { t \<leftarrow> Term_EndOfLineAssertion; Some [t] }"
| "domainTerms (c # cs) = do { t \<leftarrow> Term_character (domainCharacter c) True; ts \<leftarrow> domainTerms cs; Some (t # ts) }"

definition canonicalDotStar :: "Term option" where
  "canonicalDotStar = map_option (quantify ZeroOrMore) Term_UniversalTransition"

definition addDomain :: "u64 \<Rightarrow> wtf_string \<Rightarrow> CombinedURLFilters \<Rightarrow> CombinedURLFilters option" where
  "addDomain actionId domain f =
     (case characters domain of
        c # cs \<Rightarrow>
          if c = 42 then do {
            dotStar \<leftarrow> canonicalDotStar;
            dot \<leftarrow> Term_character 46 True;
            ts \<leftarrow> domainTerms cs;
            Some (filters_addPattern actionId ts (filters_addPattern actionId (dotStar # dot # ts) f))
          }
          else do { ts \<leftarrow> domainTerms (c # cs); Some (filters_addPattern actionId ts f) }
      | [] \<Rightarrow> do { ts \<leftarrow> domainTerms []; Some (filters_addPattern actionId ts f) })"

section \<open>NFAs\<close>

text \<open>\<^verbatim>\<open>HashableActionList\<close>: the sorted actions; the hash depends on nothing else.\<close>

definition HashableActionList :: "ActionList \<Rightarrow> ActionList" where
  "HashableActionList actions = sort actions"

datatype ReverseSuffixTreeVertex = ReverseVertex (reverse_edges: "(Term \<times> ReverseSuffixTreeVertex) list") (reverse_nodeId: nat)

type_synonym ReverseSuffixTreeRoots = "(ActionList \<times> ReverseSuffixTreeVertex) list"

text \<open>An entry of the stack; the builder of a node that has not been generated is not valid (\<open>None\<close>). The top of the stack comes first.\<close>

record ActiveSubtree =
  sub_vertex :: PrefixTreeVertex
  nfaNode :: "NFANodeBuilder option"
  edgeIndex :: nat

definition activeEdge :: "ActiveSubtree \<Rightarrow> PrefixTreeEdge" where
  "activeEdge s = edges (sub_vertex s) ! edgeIndex s"

definition get_actions :: "PrefixTreeVertex \<Rightarrow> ActionList" where
  "get_actions v = (case vertex_actions v of None \<Rightarrow> [] | Some as \<Rightarrow> as)"

text \<open>Generate everything from the last entry that has been generated up to the top.\<close>

fun generateForward :: "iteration_orders \<Rightarrow> NFA \<Rightarrow> ActiveSubtree list \<Rightarrow> (NFA \<times> ActiveSubtree list) option" where
  "generateForward ho nfa [] = None"
| "generateForward ho nfa (s # ss) =
     (if nfaNode s \<noteq> None then Some (nfa, s # ss)
      else case generateForward ho nfa ss of
        Some (nfa1, source # rest) \<Rightarrow> do {
          sourceNode \<leftarrow> nfaNode source;
          term \<leftarrow> fst (activeEdge source);
          (nfa2, sourceNode1, newNode) \<leftarrow> generateGraph ho term nfa1 sourceNode (get_actions (sub_vertex s));
          Some (nfa2, s\<lparr>nfaNode := Some newNode\<rparr> # source\<lparr>nfaNode := Some sourceNode1\<rparr> # rest)
        }
      | _ \<Rightarrow> None)"

text \<open>The entries below the leaf.\<close>

fun generateInfixUnsuitableForReverseSuffixTree :: "iteration_orders \<Rightarrow> NFA \<Rightarrow> ActiveSubtree list \<Rightarrow> (NFA \<times> ActiveSubtree list) option" where
  "generateInfixUnsuitableForReverseSuffixTree ho nfa [] = Some (nfa, [])"
| "generateInfixUnsuitableForReverseSuffixTree ho nfa (s # ss) =
     (if nfaNode s \<noteq> None then Some (nfa, s # ss)
      else if ss = [] then None
      else if vertex_actions (sub_vertex s) \<noteq> None \<or> length (edges (sub_vertex s)) \<noteq> 1 then generateForward ho nfa (s # ss)
      else do { (nfa1, ss1) \<leftarrow> generateInfixUnsuitableForReverseSuffixTree ho nfa ss; Some (nfa1, s # ss1) })"

fun findReverseEdge :: "Term \<Rightarrow> (Term \<times> ReverseSuffixTreeVertex) list \<Rightarrow> nat option" where
  "findReverseEdge t [] = None"
| "findReverseEdge t ((u, _) # es) = (if term_eq u t then Some 0 else map_option Suc (findReverseEdge t es))"

text \<open>The child of the active edge, whose edges have been cleared.\<close>

definition clearChild :: "ActiveSubtree \<Rightarrow> ActiveSubtree" where
  "clearChild s =
     s\<lparr>sub_vertex := Vertex (vertex_actions (sub_vertex s))
        ((edges (sub_vertex s))[edgeIndex s := (fst (activeEdge s), Vertex (vertex_actions (snd (activeEdge s))) [])])\<rparr>"

text \<open>The loop of \<open>generateSuffixWithReverseSuffixTree\<close>. The vertices of the entries that leave the stack have been cleared.\<close>

fun suffixLoop ::
  "iteration_orders \<Rightarrow> NFA \<Rightarrow> ActiveSubtree list \<Rightarrow> ReverseSuffixTreeVertex \<Rightarrow> (NFA \<times> ActiveSubtree list \<times> ReverseSuffixTreeVertex) option" where
  "suffixLoop ho nfa [] active = None"
| "suffixLoop ho nfa (source # ss) (ReverseVertex es destinationNodeId) = do {
     term \<leftarrow> fst (activeEdge source);
     case nfaNode source of
       Some node \<Rightarrow> do {
         (nfa1, node1) \<leftarrow> generateGraphTo ho term nfa node destinationNodeId;
         Some (nfa1, clearChild (source\<lparr>nfaNode := Some node1\<rparr>) # ss, ReverseVertex es destinationNodeId)
       }
     | None \<Rightarrow>
         (case findReverseEdge term es of
            Some i \<Rightarrow> do {
              (nfa1, ss1, child) \<leftarrow> suffixLoop ho nfa ss (snd (es ! i));
              Some (nfa1, ss1, ReverseVertex (es[i := (term, child)]) destinationNodeId)
            }
          | None \<Rightarrow>
              (case newBuilder nfa of
                 (newNode, nfa1) \<Rightarrow> do {
                   (nfa2, newNode1) \<leftarrow> generateGraphTo ho term nfa1 newNode destinationNodeId;
                   (nfa3, ss1, child) \<leftarrow> suffixLoop ho (finalize ho newNode1 nfa2) ss (ReverseVertex [] (m_nodeId newNode));
                   Some (nfa3, ss1, ReverseVertex (es @ [(term, child)]) destinationNodeId)
                 }))
   }"

fun set_root :: "ActionList \<Rightarrow> ReverseSuffixTreeVertex \<Rightarrow> ReverseSuffixTreeRoots \<Rightarrow> ReverseSuffixTreeRoots" where
  "set_root k v [] = [(k, v)]"
| "set_root k v ((l, w) # rs) = (if l = k then (k, v) # rs else (l, w) # set_root k v rs)"

definition generateSuffixWithReverseSuffixTree ::
  "iteration_orders \<Rightarrow> NFA \<Rightarrow> PrefixTreeVertex \<Rightarrow> ActiveSubtree list \<Rightarrow> ReverseSuffixTreeRoots
    \<Rightarrow> (NFA \<times> ActiveSubtree list \<times> ReverseSuffixTreeRoots) option" where
  "generateSuffixWithReverseSuffixTree ho nfa leaf ss roots =
     (let actionList = get_actions leaf;
          hashableActionList = HashableActionList actionList;
          (nfa1, root) = (case map_of roots hashableActionList of
            Some root \<Rightarrow> (nfa, root)
          | None \<Rightarrow> (case newBuilder nfa of
              (newNode, nfa') \<Rightarrow> (finalize ho (builder_setActions actionList newNode) nfa', ReverseVertex [] (m_nodeId newNode))))
      in do {
        (nfa2, ss1, root1) \<leftarrow> suffixLoop ho nfa1 ss root;
        Some (nfa2, ss1, set_root hashableActionList root1 roots)
      })"

record subtree_state =
  sub_nfa :: NFA
  sub_stack :: "ActiveSubtree list"
  reverseSuffixTreeRoots :: ReverseSuffixTreeRoots
  nfaTooBig :: bool

text \<open>After an edge has been visited: mark it if its child has become a leaf, and go on to the next one.\<close>

definition finishEdge :: "ActiveSubtree \<Rightarrow> ActiveSubtree" where
  "finishEdge s =
     (let (term, child) = activeEdge s;
          marked = (if edges child = [] then (edges (sub_vertex s))[edgeIndex s := (None, child)] else edges (sub_vertex s))
      in s\<lparr>sub_vertex := Vertex (vertex_actions (sub_vertex s)) marked, edgeIndex := edgeIndex s + 1\<rparr>)"

fun finishTop :: "ActiveSubtree list \<Rightarrow> ActiveSubtree list" where
  "finishTop [] = []"
| "finishTop (s # ss) = finishEdge s # ss"

text \<open>A vertex leaves the stack: its builder is destroyed, and it is written into its parent.\<close>

definition popVertex :: "iteration_orders \<Rightarrow> NFA \<Rightarrow> ActiveSubtree \<Rightarrow> ActiveSubtree list \<Rightarrow> NFA \<times> ActiveSubtree list" where
  "popVertex ho nfa s ss =
     ((case nfaNode s of None \<Rightarrow> nfa | Some b \<Rightarrow> finalize ho b nfa),
      (case ss of
         [] \<Rightarrow> []
       | parent # rest \<Rightarrow>
           parent\<lparr>sub_vertex := Vertex (vertex_actions (sub_vertex parent))
             ((edges (sub_vertex parent))[edgeIndex parent := (fst (activeEdge parent), sub_vertex s)])\<rparr> # rest))"

definition removeMarked :: "PrefixTreeVertex \<Rightarrow> PrefixTreeVertex" where
  "removeMarked v = Vertex (vertex_actions v) (filter (\<lambda>(t, _). t \<noteq> None) (edges v))"

text \<open>A round of the loop of \<open>generateNFAForSubtree\<close>, on a stack that is not empty.\<close>

definition subtreeStep :: "iteration_orders \<Rightarrow> nat \<Rightarrow> subtree_state \<Rightarrow> subtree_state option" where
  "subtreeStep ho maxNFASize st =
     (case sub_stack st of
        [] \<Rightarrow> Some st
      | s # ss \<Rightarrow>
          let vertex = sub_vertex s
          in if edgeIndex s < length (edges vertex) then
               (if nfaTooBig st then Some (st\<lparr>sub_stack := s\<lparr>edgeIndex := length (edges vertex)\<rparr> # ss\<rparr>)
                else case activeEdge s of
                  (None, _) \<Rightarrow> None
                | (Some term, child) \<Rightarrow>
                    if \<not> hasFixedLength term then Some (st\<lparr>sub_stack := s\<lparr>edgeIndex := edgeIndex s + 1\<rparr> # ss\<rparr>)
                    else Some (st\<lparr>sub_stack := \<lparr>sub_vertex = child, nfaNode = None, edgeIndex = 0\<rparr> # s # ss\<rparr>))
             else if edges vertex = [] then do {
               (nfa1, ss1) \<leftarrow> generateInfixUnsuitableForReverseSuffixTree ho (sub_nfa st) ss;
               (nfa2, ss2, roots) \<leftarrow> generateSuffixWithReverseSuffixTree ho nfa1 vertex ss1 (reverseSuffixTreeRoots st);
               Some \<lparr>sub_nfa = nfa2, sub_stack = finishTop ss2, reverseSuffixTreeRoots = roots,
                     nfaTooBig = (nfaTooBig st \<or> length (nfa_nodes nfa2) > maxNFASize)\<rparr>
             }
             else (case popVertex ho (sub_nfa st) (s\<lparr>sub_vertex := removeMarked vertex\<rparr>) ss of
               (nfa1, ss1) \<Rightarrow> Some (st\<lparr>sub_nfa := nfa1, sub_stack := finishTop ss1\<rparr>)))"

text \<open>The loop. When the stack is about to become empty the vertex at its bottom is the changed subtree, which the code changes in place.\<close>

partial_function (option) subtreeLoop :: "iteration_orders \<Rightarrow> nat \<Rightarrow> subtree_state \<Rightarrow> PrefixTreeVertex \<Rightarrow> (NFA \<times> PrefixTreeVertex) option" where
  "subtreeLoop ho maxNFASize st root =
     (case sub_stack st of
        [] \<Rightarrow> Some (sub_nfa st, root)
      | s # ss \<Rightarrow>
          do { st1 \<leftarrow> subtreeStep ho maxNFASize st;
               subtreeLoop ho maxNFASize st1 (if sub_stack st1 = [] then removeMarked (sub_vertex s) else root) })"

definition generateNFAForSubtree ::
  "iteration_orders \<Rightarrow> nat \<Rightarrow> NFA \<Rightarrow> NFANodeBuilder \<Rightarrow> PrefixTreeVertex \<Rightarrow> (NFA \<times> PrefixTreeVertex) option" where
  "generateNFAForSubtree ho maxNFASize nfa subtreeRoot root =
     (if edges root = [] then Some (finalize ho subtreeRoot nfa, root)
      else subtreeLoop ho maxNFASize
        \<lparr>sub_nfa = nfa, sub_stack = [\<lparr>sub_vertex = root, nfaNode = Some subtreeRoot, edgeIndex = 0\<rparr>], reverseSuffixTreeRoots = [], nfaTooBig = False\<rparr>
        root)"

text \<open>The vertices along the last edges up to a leaf, the root first.\<close>

lemma size_child: "e \<in> set (edges v) \<Longrightarrow> size (snd e) < size v"
proof (cases v)
  case (Vertex as es)
  have "size (snd e) < Suc (size_list (size_prod (\<lambda>_. 0) size) es)" if "e \<in> set es"
    using that by (induction es) (auto simp: less_Suc_eq_le split: prod.splits)
  then show "e \<in> set (edges v) \<Longrightarrow> size (snd e) < size v" by (simp add: Vertex)
qed

function lastPath :: "PrefixTreeVertex \<Rightarrow> PrefixTreeVertex list" where
  "lastPath v = v # (if edges v = [] then [] else lastPath (snd (last (edges v))))"
  by auto
termination by (relation "measure size") (auto intro: size_child)

declare lastPath.simps [simp del]

text \<open>Drop the vertices behind the last term that is not of fixed length; the top comes first.\<close>

fun trimStack :: "PrefixTreeVertex list \<Rightarrow> PrefixTreeVertex list option" where
  "trimStack (v # parent # rest) = do {
     term \<leftarrow> fst (last (edges parent));
     if \<not> hasFixedLength term then Some (v # parent # rest) else trimStack (parent # rest)
   }"
| "trimStack stack = Some stack"

text \<open>The prefix, from the root on.\<close>

fun generatePrefix :: "iteration_orders \<Rightarrow> NFA \<Rightarrow> NFANodeBuilder \<Rightarrow> PrefixTreeVertex list \<Rightarrow> (NFA \<times> NFANodeBuilder) option" where
  "generatePrefix ho nfa lastNode (v # w # rest) = do {
     term \<leftarrow> fst (last (edges v));
     (nfa1, lastNode1, newNode) \<leftarrow> generateGraph ho term nfa lastNode (get_actions (snd (last (edges v))));
     generatePrefix ho (finalize ho lastNode1 nfa1) newNode (w # rest)
   }"
| "generatePrefix ho nfa lastNode stack = Some (nfa, lastNode)"

text \<open>The processed leaves are removed, and the vertices that are left are written into their parents; the result is the root.\<close>

definition set_last_child :: "PrefixTreeVertex \<Rightarrow> PrefixTreeVertex \<Rightarrow> PrefixTreeVertex" where
  "set_last_child parent v = Vertex (vertex_actions parent) (butlast (edges parent) @ [(fst (last (edges parent)), v)])"

fun rebuild :: "PrefixTreeVertex \<Rightarrow> PrefixTreeVertex list \<Rightarrow> PrefixTreeVertex" where
  "rebuild v [] = v"
| "rebuild v (parent # rest) = rebuild (set_last_child parent v) rest"

fun cleanUp :: "PrefixTreeVertex \<Rightarrow> PrefixTreeVertex list \<Rightarrow> PrefixTreeVertex" where
  "cleanUp v [] = v"
| "cleanUp v (parent # rest) =
     (if edges v = [] then cleanUp (Vertex (vertex_actions parent) (butlast (edges parent))) rest else rebuild v (parent # rest))"

text \<open>The NFAs that the handler gets, in order.\<close>

partial_function (option) processLoop :: "iteration_orders \<Rightarrow> nat \<Rightarrow> PrefixTreeVertex \<Rightarrow> NFA list \<Rightarrow> (NFA list \<times> PrefixTreeVertex) option" where
  "processLoop ho maxNFASize root nfas =
     (if edges root = [] then Some (nfas, root)
      else do {
        stack \<leftarrow> trimStack (rev (lastPath root));
        let (lastNode, nfa) = newBuilder NFA_default;
        (nfa1, lastNode1) \<leftarrow> generatePrefix ho nfa lastNode (rev stack);
        (nfa2, v) \<leftarrow> generateNFAForSubtree ho maxNFASize nfa1 lastNode1 (hd stack);
        processLoop ho maxNFASize (cleanUp v (tl stack)) (nfas @ [nfa2])
      })"

definition processNFAs :: "iteration_orders \<Rightarrow> nat \<Rightarrow> CombinedURLFilters \<Rightarrow> (NFA list \<times> CombinedURLFilters) option" where
  "processNFAs ho maxNFASize f = do {
     (nfas, root) \<leftarrow> processLoop ho maxNFASize (m_prefixTreeRoot f) [];
     Some (nfas, f\<lparr>m_prefixTreeRoot := root\<rparr>)
   }"

end
