(* ===== verification/Yarr_Parser.thy ===== *)
theory Yarr_Parser
  imports CE_Prelude "HOL-Library.Monad_Syntax"
begin

text \<open>
  \<^verbatim>\<open>yarr/YarrParser.h\<close>: the parser of regular expressions. Its calls of the delegate are recorded in order; no step of
  the parser depends on them, except on \<^verbatim>\<open>isValidNamedForwardReference\<close>, which is an argument, as are the properties of Unicode
  characters. The pattern from \<^verbatim>\<open>m_index\<close> on is a list of characters, so that saving and restoring the index is keeping the list.
  A failing release assertion is \<open>None\<close>.
\<close>

unbundle bit_operations_syntax

section \<open>Calls, errors and the state of the parser\<close>

abbreviation chr :: "char \<Rightarrow> nat" where
  "chr \<equiv> of_char"

type_synonym name = "nat list"

datatype ErrorCode =
    NoError | PatternTooLarge | QuantifierOutOfOrder | QuantifierWithoutAtom | QuantifierTooLarge | MissingParentheses
  | ParenthesesUnmatched | ParenthesesTypeInvalid | InvalidGroupName | DuplicateGroupName | CharacterClassUnmatched
  | CharacterClassOutOfOrder | EscapeUnterminated | InvalidUnicodeEscape | InvalidBackreference | InvalidIdentityEscape
  | InvalidUnicodePropertyExpression | TooManyDisjunctions | OffsetTooLarge | InvalidRegularExpressionFlags

datatype BuiltInCharacterClassID = DigitClassID | SpaceClassID | WordClassID | DotClassID | UnicodePropertyID nat

text \<open>The interface of the delegate.\<close>

datatype delegate_call =
    AssertionBOL
  | AssertionEOL
  | AssertionWordBoundary bool
  | AtomPatternCharacter nat
  | AtomBuiltInCharacterClass BuiltInCharacterClassID bool
  | AtomCharacterClassBegin bool
  | AtomCharacterClassAtom nat
  | AtomCharacterClassRange nat nat
  | AtomCharacterClassBuiltIn BuiltInCharacterClassID bool
  | AtomCharacterClassEnd
  | AtomParenthesesSubpatternBegin bool "name option"
  | AtomParentheticalAssertionBegin bool
  | AtomParenthesesEnd
  | AtomBackReference nat
  | AtomNamedBackReference name
  | AtomNamedForwardReference name
  | QuantifyAtom nat nat bool
  | Disjunction

text \<open>The call that an escape makes on the delegate it is given, the one of the pattern or the one of a character class.\<close>

datatype escape_call =
    EscapeCharacter nat
  | EscapeBuiltIn BuiltInCharacterClassID bool
  | EscapeWordBoundary bool
  | EscapeBackReference nat
  | EscapeNamedBackReference name
  | EscapeNamedForwardReference name

record yarr_config =
  m_isUnicode :: bool
  m_backReferenceLimit :: nat
  isValidNamedForwardReference :: "name \<Rightarrow> bool"
  isLetter :: "int \<Rightarrow> bool"
  isIdentifierPartCategory :: "int \<Rightarrow> bool"
  unicodeMatchProperty :: "name \<Rightarrow> nat option"
  unicodeMatchPropertyValue :: "name \<Rightarrow> name \<Rightarrow> nat option"

record yarr_parser =
  m_rest :: "nat list"
  m_errorCode :: ErrorCode
  m_parenthesesNestingDepth :: nat
  m_captureGroupNames :: "name list"
  m_calls :: "delegate_call list"

definition quantifyInfinite :: nat where
  "quantifyInfinite = 2 ^ 32 - 1"

definition hasError :: "yarr_parser \<Rightarrow> bool" where
  "hasError p \<longleftrightarrow> m_errorCode p \<noteq> NoError"

definition set_error :: "ErrorCode \<Rightarrow> yarr_parser \<Rightarrow> yarr_parser" where
  "set_error e p = p\<lparr>m_errorCode := e\<rparr>"

definition call_delegate :: "delegate_call list \<Rightarrow> yarr_parser \<Rightarrow> yarr_parser" where
  "call_delegate cs p = p\<lparr>m_calls := m_calls p @ cs\<rparr>"

section \<open>Reading characters\<close>

definition tryConsume :: "nat \<Rightarrow> nat list \<Rightarrow> bool \<times> nat list" where
  "tryConsume c cs = (case cs of [] \<Rightarrow> (False, cs) | d # ds \<Rightarrow> if d = c then (True, ds) else (False, cs))"

definition peekIsDigit :: "nat list \<Rightarrow> bool" where
  "peekIsDigit cs = (case cs of [] \<Rightarrow> False | c # _ \<Rightarrow> isASCIIDigit c)"

text \<open>\<^verbatim>\<open>Checked<unsigned, RecordOverflow>\<close>: \<open>None\<close> after an overflow.\<close>

definition checked_u32 :: "nat \<Rightarrow> nat option" where
  "checked_u32 n = (if n < 2 ^ 32 then Some n else None)"

fun consumeDigits :: "nat option \<Rightarrow> nat list \<Rightarrow> nat option \<times> nat list" where
  "consumeDigits n [] = (n, [])"
| "consumeDigits n (c # cs) =
     (if isASCIIDigit c
      then consumeDigits (do { v \<leftarrow> n; w \<leftarrow> checked_u32 (v * 10); checked_u32 (w + (c - chr CHR ''0'')) }) cs
      else (n, c # cs))"

definition consumeNumber :: "nat list \<Rightarrow> nat \<times> nat list" where
  "consumeNumber cs =
     (case consumeDigits (Some (hd cs - chr CHR ''0'')) (tl cs) of
        (n, rest) \<Rightarrow> (case n of None \<Rightarrow> quantifyInfinite | Some v \<Rightarrow> v, rest))"

fun consumeOctalDigits :: "nat \<Rightarrow> nat list \<Rightarrow> nat \<times> nat list" where
  "consumeOctalDigits n [] = (n, [])"
| "consumeOctalDigits n (c # cs) =
     (if n < 32 \<and> isASCIIOctalDigit c then consumeOctalDigits (n * 8 + (c - chr CHR ''0'')) cs else (n, c # cs))"

definition consumeOctal :: "nat list \<Rightarrow> nat \<times> nat list" where
  "consumeOctal cs = consumeOctalDigits (hd cs - chr CHR ''0'') (tl cs)"

fun tryConsumeHex :: "nat \<Rightarrow> nat \<Rightarrow> nat list \<Rightarrow> (nat \<times> nat list) option" where
  "tryConsumeHex 0 n cs = Some (n, cs)"
| "tryConsumeHex (Suc count) n [] = None"
| "tryConsumeHex (Suc count) n (c # cs) =
     (if isASCIIHexDigit c then tryConsumeHex count (push_bit 4 n OR toASCIIHexValue c) cs else None)"

lemma tryConsumeHex_code [code]:
  "tryConsumeHex count n cs =
     (if count = 0 then Some (n, cs)
      else case cs of [] \<Rightarrow> None | c # ds \<Rightarrow>
        if isASCIIHexDigit c then tryConsumeHex (count - 1) (push_bit 4 n OR toASCIIHexValue c) ds else None)"
  by (cases count; cases cs) auto

definition U16_IS_LEAD :: "nat \<Rightarrow> bool" where
  "U16_IS_LEAD c \<longleftrightarrow> c AND 0xFFFFFC00 = 0xD800"

definition U16_IS_TRAIL :: "nat \<Rightarrow> bool" where
  "U16_IS_TRAIL c \<longleftrightarrow> c AND 0xFFFFFC00 = 0xDC00"

definition U16_GET_SUPPLEMENTARY :: "nat \<Rightarrow> nat \<Rightarrow> nat" where
  "U16_GET_SUPPLEMENTARY lead trail = push_bit 10 lead + trail - (push_bit 10 0xD800 + 0xDC00 - 0x10000)"

definition UCHAR_MAX_VALUE :: nat where
  "UCHAR_MAX_VALUE = 0x10FFFF"

text \<open>After \<^verbatim>\<open>\u\<close> and four digits: the second half of a surrogate pair, if there is one.\<close>

definition surrogateEscape :: "yarr_config \<Rightarrow> nat \<Rightarrow> nat list \<Rightarrow> nat \<times> nat list" where
  "surrogateEscape C u cs =
     (if U16_IS_LEAD u \<and> m_isUnicode C \<and> 6 \<le> length cs \<and> hd cs = chr CHR 0x5C
      then case tryConsume (chr CHR ''u'') (tl cs) of
             (False, _) \<Rightarrow> (u, cs)
           | (True, ds) \<Rightarrow>
               (case tryConsumeHex 4 0 ds of
                  Some (surrogate2, es) \<Rightarrow> if U16_IS_TRAIL surrogate2 then (U16_GET_SUPPLEMENTARY u surrogate2, es) else (u, cs)
                | None \<Rightarrow> (u, cs))
      else (u, cs))"

definition consumePossibleSurrogatePair :: "yarr_config \<Rightarrow> nat list \<Rightarrow> nat \<times> nat list" where
  "consumePossibleSurrogatePair C cs =
     (let ch = hd cs; rest = tl cs
      in if U16_IS_LEAD ch \<and> m_isUnicode C \<and> rest \<noteq> [] \<and> U16_IS_TRAIL (hd rest)
         then (U16_GET_SUPPLEMENTARY ch (hd rest), tl rest)
         else (ch, rest))"

section \<open>Names of groups\<close>

text \<open>The digits of \<^verbatim>\<open>\u{...}\<close> in a name: \<open>None\<close> is an error, after which nothing more is read.\<close>

fun nameCodePoint :: "nat \<Rightarrow> nat list \<Rightarrow> nat option \<times> nat list" where
  "nameCodePoint n [] = (None, [])"
| "nameCodePoint n (c # cs) =
     (if \<not> isASCIIHexDigit c then (None, c # cs)
      else let m = push_bit 4 n OR toASCIIHexValue c
           in if m > UCHAR_MAX_VALUE then (None, cs)
              else if cs = [] \<or> hd cs = chr CHR ''}'' then (Some m, cs)
              else nameCodePoint m cs)"

definition tryConsumeUnicodeEscape :: "yarr_config \<Rightarrow> yarr_parser \<Rightarrow> int \<times> yarr_parser" where
  "tryConsumeUnicodeEscape C p =
     (case tryConsume (chr CHR ''u'') (m_rest p) of
        (False, _) \<Rightarrow> (-1, p)
      | (True, cs) \<Rightarrow>
          if m_isUnicode C \<and> fst (tryConsume (chr CHR ''{'') cs) then
            (case nameCodePoint 0 (snd (tryConsume (chr CHR ''{'') cs)) of
               (None, ds) \<Rightarrow> (-1, set_error InvalidUnicodeEscape (p\<lparr>m_rest := ds\<rparr>))
             | (Some codePoint, ds) \<Rightarrow>
                 (case tryConsume (chr CHR ''}'') ds of
                    (True, es) \<Rightarrow> if hasError p then (-1, p\<lparr>m_rest := es\<rparr>) else (int codePoint, p\<lparr>m_rest := es\<rparr>)
                  | (False, _) \<Rightarrow> (-1, (if hasError p then p else set_error InvalidUnicodeEscape p)\<lparr>m_rest := ds\<rparr>)))
          else
            (case tryConsumeHex 4 0 cs of
               None \<Rightarrow> (-1, p\<lparr>m_rest := cs\<rparr>)
             | Some (u, ds) \<Rightarrow> (case surrogateEscape C u ds of (v, es) \<Rightarrow> (int v, p\<lparr>m_rest := es\<rparr>))))"

definition tryConsumeIdentifierCharacter :: "yarr_config \<Rightarrow> yarr_parser \<Rightarrow> int \<times> yarr_parser" where
  "tryConsumeIdentifierCharacter C p =
     (let ch = hd (m_rest p); q = p\<lparr>m_rest := tl (m_rest p)\<rparr>
      in if ch = chr CHR 0x5C then tryConsumeUnicodeEscape C q else (int ch, q))"

definition isIdentifierStart :: "yarr_config \<Rightarrow> int \<Rightarrow> bool" where
  "isIdentifierStart C ch \<longleftrightarrow>
     0 \<le> ch \<and> ch < 128 \<and> (isASCIIAlpha (nat ch) \<or> nat ch = chr CHR ''_'' \<or> nat ch = chr CHR ''$'') \<or> isLetter C ch"

definition isIdentifierPart :: "yarr_config \<Rightarrow> int \<Rightarrow> bool" where
  "isIdentifierPart C ch \<longleftrightarrow>
     0 \<le> ch \<and> ch < 128 \<and> (isASCIIAlpha (nat ch) \<or> nat ch = chr CHR ''_'' \<or> nat ch = chr CHR ''$'') \<or>
     isIdentifierPartCategory C ch \<or> ch = 0x200C \<or> ch = 0x200D"

text \<open>\<^verbatim>\<open>StringBuilder::append(UChar32)\<close>.\<close>

definition append_code_point :: "int \<Rightarrow> name \<Rightarrow> name" where
  "append_code_point ch n =
     (if nat ch < 0x10000 then n @ [nat ch]
      else n @ [drop_bit 10 (nat ch) + 0xD7C0, (nat ch AND 0x3FF) OR 0xDC00])"

text \<open>What an identifier character leaves of the pattern; the loop over a name ends by it.\<close>

lemma tryConsume_length: "tryConsume c cs = (b, ds) \<Longrightarrow> length ds \<le> length cs"
  by (auto simp: tryConsume_def split: list.splits if_splits)

lemma tryConsumeHex_length: "tryConsumeHex k n cs = Some (m, ds) \<Longrightarrow> length ds \<le> length cs"
  by (induction k n cs rule: tryConsumeHex.induct) (auto split: if_splits)

lemma surrogateEscape_length: "surrogateEscape C u cs = (v, ds) \<Longrightarrow> length ds \<le> length cs"
proof -
  have tl: "length (tl cs) \<le> length cs" by simp
  then show "surrogateEscape C u cs = (v, ds) \<Longrightarrow> length ds \<le> length cs"
    by (auto simp: surrogateEscape_def split: if_splits prod.splits bool.splits option.splits
        dest!: tryConsume_length tryConsumeHex_length intro: le_trans simp del: length_tl)
qed

lemma nameCodePoint_length: "nameCodePoint n cs = (m, ds) \<Longrightarrow> length ds \<le> length cs"
  by (induction n cs rule: nameCodePoint.induct) (auto simp: Let_def split: if_splits)

text \<open>Reading only changes the rest of the pattern, which gets shorter, and the error.\<close>

definition reads :: "yarr_parser \<Rightarrow> yarr_parser \<Rightarrow> bool" where
  "reads p q \<longleftrightarrow> length (m_rest q) \<le> length (m_rest p) \<and> m_calls q = m_calls p \<and>
     m_parenthesesNestingDepth q = m_parenthesesNestingDepth p \<and> m_captureGroupNames q = m_captureGroupNames p"

lemma reads_refl [simp]: "reads p p"
  by (simp add: reads_def)

lemma reads_trans [trans]: "reads p q \<Longrightarrow> reads q r \<Longrightarrow> reads p r"
  by (simp add: reads_def)

lemma rest_error [simp]: "m_rest (set_error e p) = m_rest p" "m_calls (set_error e p) = m_calls p"
  "m_parenthesesNestingDepth (set_error e p) = m_parenthesesNestingDepth p" "m_captureGroupNames (set_error e p) = m_captureGroupNames p"
  by (simp_all add: set_error_def)

lemma reads_error [simp]: "reads p (set_error e q) \<longleftrightarrow> reads p q"
  by (simp add: reads_def set_error_def)

lemma reads_restore: "reads p q \<Longrightarrow> reads p (q\<lparr>m_rest := m_rest p\<rparr>)"
  by (simp add: reads_def)

lemma tryConsumeUnicodeEscape_reads:
  assumes "tryConsumeUnicodeEscape C p = (ch, q)"
  shows "reads p q"
proof -
  obtain b cs where cs: "tryConsume (chr CHR ''u'') (m_rest p) = (b, cs)" by fastforce
  obtain b2 ds where ds: "tryConsume (chr CHR ''{'') cs = (b2, ds)" by fastforce
  obtain n es where es: "nameCodePoint 0 ds = (n, es)" by fastforce
  obtain b3 fs where fs: "tryConsume (chr CHR ''}'') es = (b3, fs)" by fastforce
  have l: "length cs \<le> length (m_rest p)" "length ds \<le> length cs" "length es \<le> length ds" "length fs \<le> length es"
    using tryConsume_length [OF cs] tryConsume_length [OF ds] nameCodePoint_length [OF es] tryConsume_length [OF fs] by auto
  have h: "length xs \<le> length (m_rest p)" if "tryConsumeHex 4 0 cs = Some (u, ys)" "surrogateEscape C u ys = (v, xs)" for u v xs ys
    using tryConsumeHex_length [OF that(1)] surrogateEscape_length [OF that(2)] l(1) by simp
  show ?thesis
    using assms l
    by (cases b; cases b2; cases b3; cases n; cases "m_isUnicode C"; cases "hasError p"; cases "tryConsumeHex 4 0 cs")
      (auto simp: tryConsumeUnicodeEscape_def cs [simplified] ds [simplified] es fs [simplified] reads_def set_error_def split: prod.splits intro: h)
qed

lemma tryConsumeIdentifierCharacter_length:
  assumes "tryConsumeIdentifierCharacter C p = (ch, q)" and "m_rest p \<noteq> []"
  shows "length (m_rest q) < length (m_rest p)"
  using assms tryConsumeUnicodeEscape_reads [of C "p\<lparr>m_rest := tl (m_rest p)\<rparr>" ch q]
  by (cases "m_rest p") (auto simp: tryConsumeIdentifierCharacter_def reads_def Let_def split: if_splits)

function groupNameLoop :: "yarr_config \<Rightarrow> name \<Rightarrow> yarr_parser \<Rightarrow> name option \<times> yarr_parser" where
  "groupNameLoop C n p =
     (if m_rest p = [] then (None, p)
      else case tryConsumeIdentifierCharacter C p of
        (ch, q) \<Rightarrow>
          if ch = int (chr CHR ''>'') then (Some n, q)
          else if \<not> isIdentifierPart C ch then (None, q)
          else groupNameLoop C (append_code_point ch n) q)"
  by auto
termination
  by (relation "measure (\<lambda>(C, n, p). length (m_rest p))") (auto intro: tryConsumeIdentifierCharacter_length [OF sym])

declare groupNameLoop.simps [simp del]

definition tryConsumeGroupName :: "yarr_config \<Rightarrow> yarr_parser \<Rightarrow> name option \<times> yarr_parser" where
  "tryConsumeGroupName C p =
     (if m_rest p = [] then (None, p)
      else case tryConsumeIdentifierCharacter C p of
        (ch, q) \<Rightarrow>
          if isIdentifierStart C ch then
            (case groupNameLoop C (append_code_point ch []) q of
               (Some n, r) \<Rightarrow> (Some n, r)
             | (None, r) \<Rightarrow> (None, r\<lparr>m_rest := m_rest p\<rparr>))
          else (None, q\<lparr>m_rest := m_rest p\<rparr>))"

section \<open>Unicode properties\<close>

definition isUnicodePropertyValueExpressionChar :: "nat \<Rightarrow> bool" where
  "isUnicodePropertyValueExpressionChar c \<longleftrightarrow> isASCIIAlphanumeric c \<or> c = chr CHR ''_'' \<or> c = chr CHR ''=''"

text \<open>The loop has the expression, the name in front of \<^verbatim>\<open>=\<close> if one was read, and whether there were errors.\<close>

fun propertyLoop :: "yarr_config \<Rightarrow> name \<Rightarrow> name option \<Rightarrow> bool \<Rightarrow> nat list \<Rightarrow> nat option \<times> nat list" where
  "propertyLoop C e n errors [] = (None, [])"
| "propertyLoop C e n errors (c # cs) =
     (if c = chr CHR ''}'' then
        (if errors then (None, cs)
         else case n of
           Some unicodePropertyName \<Rightarrow> (unicodeMatchPropertyValue C unicodePropertyName e, cs)
         | None \<Rightarrow> (unicodeMatchProperty C e, cs))
      else if c = chr CHR ''='' then
        (case n of None \<Rightarrow> propertyLoop C [] (Some e) errors cs | Some _ \<Rightarrow> propertyLoop C e n True cs)
      else if \<not> isUnicodePropertyValueExpressionChar c then propertyLoop C e n True cs
      else propertyLoop C (e @ [c]) n errors cs)"

definition tryConsumeUnicodePropertyExpression :: "yarr_config \<Rightarrow> yarr_parser \<Rightarrow> nat option \<times> yarr_parser" where
  "tryConsumeUnicodePropertyExpression C p =
     (case m_rest p of
        [] \<Rightarrow> (None, set_error InvalidUnicodePropertyExpression p)
      | c # cs \<Rightarrow>
          if \<not> isUnicodePropertyValueExpressionChar c then (None, set_error InvalidUnicodePropertyExpression p)
          else case propertyLoop C [c] None False cs of
            (None, ds) \<Rightarrow> (None, set_error InvalidUnicodePropertyExpression (p\<lparr>m_rest := ds\<rparr>))
          | (Some k, ds) \<Rightarrow> (Some k, p\<lparr>m_rest := ds\<rparr>))"

section \<open>Escapes\<close>

text \<open>The result of an escape: whether it is an atom, the call it makes, and the parser.\<close>

type_synonym escape = "bool \<times> escape_call option \<times> yarr_parser"

text \<open>\<^verbatim>\<open>strchr\<close> takes the character modulo 256 and finds the terminator of the string.\<close>

definition isIdentityEscapeAnError :: "yarr_config \<Rightarrow> nat \<Rightarrow> bool" where
  "isIdentityEscapeAnError C ch \<longleftrightarrow> m_isUnicode C \<and> ch mod 256 \<notin> set (0 # chr CHR 0x5C # ascii ''^$.*+?()[]{}|/'')"

definition identityEscape :: "yarr_config \<Rightarrow> nat \<Rightarrow> nat \<Rightarrow> yarr_parser \<Rightarrow> escape" where
  "identityEscape C ch result p =
     (if isIdentityEscapeAnError C ch then (True, None, set_error InvalidIdentityEscape p)
      else (True, Some (EscapeCharacter result), p))"

definition escapeDecimal :: "yarr_config \<Rightarrow> bool \<Rightarrow> yarr_parser \<Rightarrow> escape" where
  "escapeDecimal C inCharacterClass p =
     (case consumeNumber (m_rest p) of
        (backReference, cs) \<Rightarrow>
          if \<not> inCharacterClass \<and> backReference \<le> m_backReferenceLimit C
          then (True, Some (EscapeBackReference backReference), p\<lparr>m_rest := cs\<rparr>)
          else if \<not> inCharacterClass \<and> m_isUnicode C then (False, None, set_error InvalidBackreference p)
          else if hd (m_rest p) \<ge> chr CHR ''8'' then (True, Some (EscapeCharacter (hd (m_rest p))), p\<lparr>m_rest := tl (m_rest p)\<rparr>)
          else case consumeOctal (m_rest p) of (n, ds) \<Rightarrow> (True, Some (EscapeCharacter n), p\<lparr>m_rest := ds\<rparr>))"

text \<open>At the \<^verbatim>\<open>c\<close>.\<close>

definition escapeControl :: "bool \<Rightarrow> yarr_parser \<Rightarrow> escape" where
  "escapeControl inCharacterClass p =
     (case tl (m_rest p) of
        control # cs \<Rightarrow>
          if (if inCharacterClass then isASCIIAlphanumeric control \<or> control = chr CHR ''_'' else isASCIIAlpha control)
          then (True, Some (EscapeCharacter (control AND 0x1F)), p\<lparr>m_rest := cs\<rparr>)
          else (True, Some (EscapeCharacter (chr CHR 0x5C)), p)
      | [] \<Rightarrow> (True, Some (EscapeCharacter (chr CHR 0x5C)), p))"

text \<open>Behind the \<^verbatim>\<open>k\<close>.\<close>

definition escapeNamed :: "yarr_config \<Rightarrow> bool \<Rightarrow> yarr_parser \<Rightarrow> escape" where
  "escapeNamed C inCharacterClass p =
     (if m_rest p \<noteq> [] \<and> \<not> inCharacterClass \<and> hd (m_rest p) = chr CHR ''<'' then
        (case tryConsumeGroupName C (p\<lparr>m_rest := tl (m_rest p)\<rparr>) of
           (groupName, q) \<Rightarrow>
             (case groupName of
                Some n \<Rightarrow>
                  if n \<in> set (m_captureGroupNames q) then (True, Some (EscapeNamedBackReference n), q)
                  else if isValidNamedForwardReference C n then (True, Some (EscapeNamedForwardReference n), q)
                  else if m_isUnicode C then (True, None, set_error InvalidBackreference q)
                  else (True, Some (EscapeCharacter (chr CHR ''k'')), q\<lparr>m_rest := m_rest p\<rparr>)
              | None \<Rightarrow>
                  if m_isUnicode C then (True, None, set_error InvalidBackreference q)
                  else (True, Some (EscapeCharacter (chr CHR ''k'')), q\<lparr>m_rest := m_rest p\<rparr>)))
      else (True, Some (EscapeCharacter (chr CHR ''k'')), p))"

text \<open>Behind the \<^verbatim>\<open>p\<close> or \<^verbatim>\<open>P\<close>.\<close>

definition escapeProperty :: "yarr_config \<Rightarrow> nat \<Rightarrow> yarr_parser \<Rightarrow> escape" where
  "escapeProperty C escapeChar p =
     (if \<not> m_isUnicode C then identityEscape C escapeChar escapeChar p
      else case tryConsume (chr CHR ''{'') (m_rest p) of
        (True, cs) \<Rightarrow>
          (case tryConsumeUnicodePropertyExpression C (p\<lparr>m_rest := cs\<rparr>) of
             (Some classID, q) \<Rightarrow> (True, Some (EscapeBuiltIn (UnicodePropertyID classID) (escapeChar = chr CHR ''P'')), q)
           | (None, q) \<Rightarrow> (True, None, q))
      | (False, _) \<Rightarrow> (True, None, set_error InvalidUnicodePropertyExpression p))"

text \<open>The digits of \<^verbatim>\<open>\u{...}\<close>: the code point, whether there was an error, and the rest.\<close>

fun escapeCodePoint :: "nat \<Rightarrow> bool \<Rightarrow> nat list \<Rightarrow> nat \<times> bool \<times> nat list" where
  "escapeCodePoint n err [] = (n, True, [])"
| "escapeCodePoint n err (c # cs) =
     (if \<not> isASCIIHexDigit c then (n, True, c # cs)
      else let m = push_bit 4 n OR toASCIIHexValue c; err1 = (err \<or> m > UCHAR_MAX_VALUE)
           in if cs = [] \<or> hd cs = chr CHR ''}'' then (m, err1, cs) else escapeCodePoint m err1 cs)"

text \<open>Behind the \<^verbatim>\<open>u\<close>.\<close>

definition escapeUnicode :: "yarr_config \<Rightarrow> yarr_parser \<Rightarrow> escape" where
  "escapeUnicode C p =
     (if m_rest p = [] then identityEscape C (chr CHR ''u'') (chr CHR ''u'') p
      else if m_isUnicode C \<and> hd (m_rest p) = chr CHR ''{'' then
        (case escapeCodePoint 0 False (tl (m_rest p)) of
           (codePoint, err, cs) \<Rightarrow>
             (case tryConsume (chr CHR ''}'') cs of
                (closed, ds) \<Rightarrow>
                  if err \<or> \<not> closed then (False, None, set_error InvalidUnicodeEscape (p\<lparr>m_rest := ds\<rparr>))
                  else (True, Some (EscapeCharacter codePoint), p\<lparr>m_rest := ds\<rparr>)))
      else case tryConsumeHex 4 0 (m_rest p) of
        None \<Rightarrow> identityEscape C (chr CHR ''u'') (chr CHR ''u'') p
      | Some (u, cs) \<Rightarrow> (case surrogateEscape C u cs of (v, ds) \<Rightarrow> (True, Some (EscapeCharacter v), p\<lparr>m_rest := ds\<rparr>)))"

text \<open>The parser is at the backslash.\<close>

definition parseEscape :: "yarr_config \<Rightarrow> bool \<Rightarrow> yarr_parser \<Rightarrow> escape" where
  "parseEscape C inCharacterClass p0 =
     (let p = p0\<lparr>m_rest := tl (m_rest p0)\<rparr>
      in case m_rest p of
        [] \<Rightarrow> (False, None, set_error EscapeUnterminated p)
      | c # cs \<Rightarrow>
          let q = p\<lparr>m_rest := cs\<rparr>
          in if c = chr CHR ''b'' then
               (if inCharacterClass then identityEscape C (chr CHR ''b'') 8 q else (False, Some (EscapeWordBoundary False), q))
             else if c = chr CHR ''B'' then
               (if inCharacterClass then identityEscape C (chr CHR ''B'') (chr CHR ''B'') q else (False, Some (EscapeWordBoundary True), q))
             else if c = chr CHR ''d'' then (True, Some (EscapeBuiltIn DigitClassID False), q)
             else if c = chr CHR ''s'' then (True, Some (EscapeBuiltIn SpaceClassID False), q)
             else if c = chr CHR ''w'' then (True, Some (EscapeBuiltIn WordClassID False), q)
             else if c = chr CHR ''D'' then (True, Some (EscapeBuiltIn DigitClassID True), q)
             else if c = chr CHR ''S'' then (True, Some (EscapeBuiltIn SpaceClassID True), q)
             else if c = chr CHR ''W'' then (True, Some (EscapeBuiltIn WordClassID True), q)
             else if chr CHR ''1'' \<le> c \<and> c \<le> chr CHR ''9'' then escapeDecimal C inCharacterClass p
             else if c = chr CHR ''0'' then (case consumeOctal (m_rest p) of (n, ds) \<Rightarrow> (True, Some (EscapeCharacter n), p\<lparr>m_rest := ds\<rparr>))
             else if c = chr CHR ''f'' then (True, Some (EscapeCharacter 12), q)
             else if c = chr CHR ''n'' then (True, Some (EscapeCharacter 10), q)
             else if c = chr CHR ''r'' then (True, Some (EscapeCharacter 13), q)
             else if c = chr CHR ''t'' then (True, Some (EscapeCharacter 9), q)
             else if c = chr CHR ''v'' then (True, Some (EscapeCharacter 11), q)
             else if c = chr CHR ''c'' then escapeControl inCharacterClass p
             else if c = chr CHR ''x'' then
               (case tryConsumeHex 2 0 cs of
                  None \<Rightarrow> identityEscape C (chr CHR ''x'') (chr CHR ''x'') q
                | Some (x, ds) \<Rightarrow> (True, Some (EscapeCharacter x), p\<lparr>m_rest := ds\<rparr>))
             else if c = chr CHR ''k'' then escapeNamed C inCharacterClass q
             else if c = chr CHR ''p'' \<or> c = chr CHR ''P'' then escapeProperty C c q
             else if c = chr CHR ''u'' then escapeUnicode C q
             else if c = chr CHR ''-'' \<and> m_isUnicode C \<and> inCharacterClass then (True, Some (EscapeCharacter c), q)
             else if isIdentityEscapeAnError C c then (True, None, set_error InvalidIdentityEscape p)
             else (True, Some (EscapeCharacter c), q))"

section \<open>Character classes\<close>

datatype CharacterClassConstructionState = Empty | CachedCharacter | CachedCharacterHyphen | AfterCharacterClass | AfterCharacterClassHyphen

record CharacterClassParserDelegate =
  m_state :: CharacterClassConstructionState
  m_character :: nat

type_synonym class_step = "CharacterClassParserDelegate \<times> yarr_parser"

fun class_atomPatternCharacter :: "nat \<Rightarrow> bool \<Rightarrow> class_step \<Rightarrow> class_step" where
  "class_atomPatternCharacter ch hyphenIsRange (d, p) =
     (case m_state d of
        AfterCharacterClass \<Rightarrow>
          if hyphenIsRange \<and> ch = chr CHR ''-''
          then (d\<lparr>m_state := AfterCharacterClassHyphen\<rparr>, call_delegate [AtomCharacterClassAtom (chr CHR ''-'')] p)
          else (d\<lparr>m_character := ch, m_state := CachedCharacter\<rparr>, p)
      | Empty \<Rightarrow> (d\<lparr>m_character := ch, m_state := CachedCharacter\<rparr>, p)
      | CachedCharacter \<Rightarrow>
          if hyphenIsRange \<and> ch = chr CHR ''-'' then (d\<lparr>m_state := CachedCharacterHyphen\<rparr>, p)
          else (d\<lparr>m_character := ch\<rparr>, call_delegate [AtomCharacterClassAtom (m_character d)] p)
      | CachedCharacterHyphen \<Rightarrow>
          if ch < m_character d then (d, set_error CharacterClassOutOfOrder p)
          else (d\<lparr>m_state := Empty\<rparr>, call_delegate [AtomCharacterClassRange (m_character d) ch] p)
      | AfterCharacterClassHyphen \<Rightarrow> (d\<lparr>m_state := Empty\<rparr>, call_delegate [AtomCharacterClassAtom ch] p))"

fun class_atomBuiltInCharacterClass :: "BuiltInCharacterClassID \<Rightarrow> bool \<Rightarrow> class_step \<Rightarrow> class_step" where
  "class_atomBuiltInCharacterClass classID invert (d, p) =
     (case m_state d of
        CachedCharacter \<Rightarrow>
          (d\<lparr>m_state := AfterCharacterClass\<rparr>, call_delegate [AtomCharacterClassAtom (m_character d), AtomCharacterClassBuiltIn classID invert] p)
      | Empty \<Rightarrow> (d\<lparr>m_state := AfterCharacterClass\<rparr>, call_delegate [AtomCharacterClassBuiltIn classID invert] p)
      | AfterCharacterClass \<Rightarrow> (d\<lparr>m_state := AfterCharacterClass\<rparr>, call_delegate [AtomCharacterClassBuiltIn classID invert] p)
      | CachedCharacterHyphen \<Rightarrow>
          (d\<lparr>m_state := Empty\<rparr>, call_delegate [AtomCharacterClassAtom (m_character d), AtomCharacterClassAtom (chr CHR ''-''),
             AtomCharacterClassBuiltIn classID invert] p)
      | AfterCharacterClassHyphen \<Rightarrow> (d\<lparr>m_state := Empty\<rparr>, call_delegate [AtomCharacterClassBuiltIn classID invert] p))"

definition class_end :: "class_step \<Rightarrow> yarr_parser" where
  "class_end s = (case s of (d, p) \<Rightarrow>
     call_delegate
       ((if m_state d = CachedCharacter then [AtomCharacterClassAtom (m_character d)]
         else if m_state d = CachedCharacterHyphen then [AtomCharacterClassAtom (m_character d), AtomCharacterClassAtom (chr CHR ''-'')]
         else []) @ [AtomCharacterClassEnd]) p)"

text \<open>The other calls are not reached in a character class.\<close>

fun class_call :: "escape_call \<Rightarrow> class_step \<Rightarrow> class_step option" where
  "class_call (EscapeCharacter ch) s = Some (class_atomPatternCharacter ch False s)"
| "class_call (EscapeBuiltIn classID invert) s = Some (class_atomBuiltInCharacterClass classID invert s)"
| "class_call _ s = None"

definition parseCharacterClassEscape :: "yarr_config \<Rightarrow> class_step \<Rightarrow> class_step option" where
  "parseCharacterClassEscape C s = (case s of (d, p) \<Rightarrow>
     (case parseEscape C True p of
        (_, None, q) \<Rightarrow> Some (d, q)
      | (_, Some c, q) \<Rightarrow> class_call c (d, q)))"

definition classToken :: "yarr_config \<Rightarrow> class_step \<Rightarrow> class_step option" where
  "classToken C s = (case s of (d, p) \<Rightarrow>
     if hd (m_rest p) = chr CHR 0x5C then parseCharacterClassEscape C (d, p)
     else case consumePossibleSurrogatePair C (m_rest p) of
       (ch, cs) \<Rightarrow> Some (class_atomPatternCharacter ch True (d, p\<lparr>m_rest := cs\<rparr>)))"

lemma tryConsumeIdentifierCharacter_reads: "tryConsumeIdentifierCharacter C p = (ch, q) \<Longrightarrow> reads p q"
  using tryConsumeUnicodeEscape_reads [of C "p\<lparr>m_rest := tl (m_rest p)\<rparr>" ch q]
  by (auto simp: tryConsumeIdentifierCharacter_def reads_def Let_def split: if_splits)

lemma groupNameLoop_reads: "groupNameLoop C n p = (r, q) \<Longrightarrow> reads p q"
proof (induction C n p rule: groupNameLoop.induct)
  case (1 C n p)
  obtain ch q1 where ch: "tryConsumeIdentifierCharacter C p = (ch, q1)" by fastforce
  show ?case
    using 1 ch tryConsumeIdentifierCharacter_reads [OF ch]
    by (subst (asm) (2) groupNameLoop.simps) (auto split: if_splits intro: reads_trans)
qed

lemma tryConsumeGroupName_reads: "tryConsumeGroupName C p = (r, q) \<Longrightarrow> reads p q"
proof (cases "m_rest p = []")
  case False
  assume a: "tryConsumeGroupName C p = (r, q)"
  obtain ch q1 where ch: "tryConsumeIdentifierCharacter C p = (ch, q1)" by fastforce
  obtain n q2 where q2: "groupNameLoop C (append_code_point ch []) q1 = (n, q2)" by fastforce
  note r = tryConsumeIdentifierCharacter_reads [OF ch] reads_trans [OF tryConsumeIdentifierCharacter_reads [OF ch] groupNameLoop_reads [OF q2]]
  show ?thesis using a r False reads_restore [OF r(1)] reads_restore [OF r(2)]
    by (auto simp: tryConsumeGroupName_def ch q2 split: if_splits option.splits)
qed (simp add: tryConsumeGroupName_def)

lemma consumeDigits_length: "length (snd (consumeDigits n cs)) \<le> length cs"
  by (induction n cs rule: consumeDigits.induct) auto

lemma consumeNumber_length: "consumeNumber cs = (n, ds) \<Longrightarrow> length ds \<le> length (tl cs)"
  using consumeDigits_length [of "Some (hd cs - chr CHR ''0'')" "tl cs"] by (auto simp: consumeNumber_def split: prod.splits)

lemma consumeOctalDigits_length: "length (snd (consumeOctalDigits n cs)) \<le> length cs"
  by (induction n cs rule: consumeOctalDigits.induct) auto

lemma consumeOctal_length: "consumeOctal cs = (n, ds) \<Longrightarrow> length ds \<le> length (tl cs)"
  using consumeOctalDigits_length [of "hd cs - chr CHR ''0''" "tl cs"] by (auto simp: consumeOctal_def)

lemma escapeCodePoint_length: "escapeCodePoint n e cs = (m, f, ds) \<Longrightarrow> length ds \<le> length cs"
  by (induction n e cs rule: escapeCodePoint.induct) (auto simp: Let_def le_SucI split: if_splits)

lemma propertyLoop_length: "propertyLoop C e n b cs = (m, ds) \<Longrightarrow> length ds \<le> length cs"
  by (induction C e n b cs rule: propertyLoop.induct) (auto split: if_splits option.splits)

lemma consumePossibleSurrogatePair_length: "consumePossibleSurrogatePair C cs = (ch, ds) \<Longrightarrow> cs \<noteq> [] \<Longrightarrow> length ds < length cs"
  by (cases cs) (auto simp: consumePossibleSurrogatePair_def Let_def split: if_splits)

text \<open>The calls of an escape in a character class.\<close>

definition plain_call :: "escape_call option \<Rightarrow> bool" where
  "plain_call c \<longleftrightarrow> (case c of None \<Rightarrow> True | Some (EscapeCharacter _) \<Rightarrow> True | Some (EscapeBuiltIn _ _) \<Rightarrow> True | _ \<Rightarrow> False)"

definition escape_ok :: "bool \<Rightarrow> yarr_parser \<Rightarrow> escape \<Rightarrow> bool" where
  "escape_ok inCharacterClass p e \<longleftrightarrow> (case e of (a, c, q) \<Rightarrow> reads p q \<and> (inCharacterClass \<longrightarrow> plain_call c) \<and>
     (case c of None \<Rightarrow> hasError q | Some (EscapeWordBoundary _) \<Rightarrow> \<not> a | Some _ \<Rightarrow> a))"

lemma hasError_set [simp]: "e \<noteq> NoError \<Longrightarrow> hasError (set_error e p)"
  by (simp add: hasError_def set_error_def)

lemma identityEscape_ok: "reads p q \<Longrightarrow> escape_ok inC p (identityEscape C ch r q)"
  by (simp add: identityEscape_def escape_ok_def plain_call_def)

lemma escapeDecimal_ok: "escape_ok inC p (escapeDecimal C inC p)"
proof -
  have le: "length (tl (m_rest p)) \<le> length (m_rest p)" by simp
  show ?thesis
    using consumeNumber_length [of "m_rest p"] consumeOctal_length [of "m_rest p"] le
    by (fastforce simp: escapeDecimal_def escape_ok_def plain_call_def reads_def split: prod.splits)
qed

lemma escapeControl_ok: "escape_ok inC p (escapeControl inC p)"
  by (cases "m_rest p"; cases "tl (m_rest p)") (auto simp: escapeControl_def escape_ok_def plain_call_def reads_def)

lemma escapeNamed_ok: "escape_ok inC p (escapeNamed C inC p)"
proof -
  obtain n q where q: "tryConsumeGroupName C (p\<lparr>m_rest := tl (m_rest p)\<rparr>) = (n, q)" by fastforce
  show ?thesis using tryConsumeGroupName_reads [OF q]
    by (cases n) (auto simp: escapeNamed_def q escape_ok_def plain_call_def reads_def)
qed

lemma escapeProperty_ok: "escape_ok inC p (escapeProperty C c p)"
proof -
  obtain b cs where cs: "tryConsume (chr CHR ''{'') (m_rest p) = (b, cs)" by fastforce
  obtain r q where q: "tryConsumeUnicodePropertyExpression C (p\<lparr>m_rest := cs\<rparr>) = (r, q)" by fastforce
  have "reads (p\<lparr>m_rest := cs\<rparr>) q \<and> (r = None \<longrightarrow> hasError q)"
    using q propertyLoop_length [of C _ None False]
    by (fastforce simp: tryConsumeUnicodePropertyExpression_def reads_def set_error_def hasError_def
        split: list.splits if_splits prod.splits option.splits)
  then show ?thesis using tryConsume_length [OF cs]
    by (cases b; cases r) (auto simp: escapeProperty_def cs [simplified] q escape_ok_def plain_call_def reads_def identityEscape_def)
qed

lemma escapeUnicode_ok: "escape_ok inC p (escapeUnicode C p)"
proof -
  obtain n e cs where cs: "escapeCodePoint 0 False (tl (m_rest p)) = (n, e, cs)" using prod_cases3 by blast
  obtain b ds where ds: "tryConsume (chr CHR ''}'') cs = (b, ds)" by fastforce
  have "length (tl (m_rest p)) \<le> length (m_rest p)" by simp
  then have l: "length ds \<le> length (m_rest p)" using escapeCodePoint_length [OF cs] tryConsume_length [OF ds] by linarith
  have h: "length xs \<le> length (m_rest p)" if "tryConsumeHex 4 0 (m_rest p) = Some (u, ys)" "surrogateEscape C u ys = (v, xs)" for u v xs ys
    using tryConsumeHex_length [OF that(1)] surrogateEscape_length [OF that(2)] by simp
  show ?thesis using l
    by (auto simp: escapeUnicode_def cs ds [simplified] escape_ok_def plain_call_def reads_def identityEscape_def
        split: option.splits prod.splits intro: h)
qed

lemma escape_ok_shift: "escape_ok inC q e \<Longrightarrow> reads p q \<Longrightarrow> escape_ok inC p e"
  by (auto simp: escape_ok_def intro: reads_trans)

lemma escape_ok_if: "(b \<Longrightarrow> escape_ok inC p x) \<Longrightarrow> (\<not> b \<Longrightarrow> escape_ok inC p y) \<Longrightarrow> escape_ok inC p (if b then x else y)"
  by simp

lemma parseEscape_ok:
  assumes "m_rest p0 \<noteq> []"
  shows "escape_ok inC (p0\<lparr>m_rest := tl (m_rest p0)\<rparr>) (parseEscape C inC p0)"
proof -
  let ?p = "p0\<lparr>m_rest := tl (m_rest p0)\<rparr>"
  show ?thesis
  proof (cases "m_rest ?p")
    case Nil
    then show ?thesis by (simp add: parseEscape_def escape_ok_def plain_call_def)
  next
    case (Cons c cs)
    let ?q = "?p\<lparr>m_rest := cs\<rparr>"
    have q: "reads ?p ?q" using Cons by (simp add: reads_def)
    have o: "escape_ok inC ?p (case consumeOctal (m_rest ?p) of (n, ds) \<Rightarrow> (True, Some (EscapeCharacter n), ?p\<lparr>m_rest := ds\<rparr>))"
      using consumeOctal_length [of "m_rest ?p"] Cons
      by (force simp: escape_ok_def plain_call_def reads_def split: prod.splits)
    have x: "escape_ok inC ?p (case tryConsumeHex 2 0 cs of None \<Rightarrow> identityEscape C (chr CHR ''x'') (chr CHR ''x'') ?q
        | Some (x, ds) \<Rightarrow> (True, Some (EscapeCharacter x), ?p\<lparr>m_rest := ds\<rparr>))"
      using tryConsumeHex_length [of 2 0 cs] Cons identityEscape_ok [OF q]
      by (fastforce simp: escape_ok_def plain_call_def reads_def split: prod.splits option.splits)
    note oks = o [unfolded Cons] x identityEscape_ok [OF q] escapeDecimal_ok [of inC ?p] escapeControl_ok [of inC ?p]
      escape_ok_shift [OF escapeNamed_ok [of inC ?q] q] escape_ok_shift [OF escapeProperty_ok [of inC ?q] q]
      escape_ok_shift [OF escapeUnicode_ok [of inC ?q] q]
    have simple: "escape_ok inC ?p (True, Some (EscapeCharacter k), ?q)" "escape_ok inC ?p (True, Some (EscapeBuiltIn i b), ?q)"
        "\<not> inC \<Longrightarrow> escape_ok inC ?p (False, Some (EscapeWordBoundary b), ?q)"
        "escape_ok inC ?p (True, None, set_error InvalidIdentityEscape ?p)" for b k i
      using q by (simp_all add: escape_ok_def plain_call_def)
    show ?thesis
      unfolding parseEscape_def Let_def Cons list.case by (intro escape_ok_if oks simple) assumption
  qed
qed

text \<open>The calls within a character class.\<close>

fun is_class_call :: "delegate_call \<Rightarrow> bool" where
  "is_class_call (AtomCharacterClassAtom _) = True"
| "is_class_call (AtomCharacterClassRange _ _) = True"
| "is_class_call (AtomCharacterClassBuiltIn _ _) = True"
| "is_class_call _ = False"

definition class_reads :: "yarr_parser \<Rightarrow> yarr_parser \<Rightarrow> bool" where
  "class_reads p q \<longleftrightarrow> length (m_rest q) \<le> length (m_rest p) \<and> (\<exists>cs. list_all is_class_call cs \<and> m_calls q = m_calls p @ cs) \<and>
     m_parenthesesNestingDepth q = m_parenthesesNestingDepth p \<and> m_captureGroupNames q = m_captureGroupNames p"

lemma reads_class: "reads p q \<Longrightarrow> class_reads p q"
  by (auto simp: reads_def class_reads_def intro: exI [of _ "[]"])

lemma class_reads_refl [simp]: "class_reads p p" "class_reads p (set_error e p)"
  by (simp_all add: reads_class)

lemma class_reads_trans: "class_reads p q \<Longrightarrow> class_reads q r \<Longrightarrow> class_reads p r"
  by (auto simp: class_reads_def)

lemma class_reads_call: "list_all is_class_call cs \<Longrightarrow> class_reads p (call_delegate cs p)"
  by (auto simp: class_reads_def call_delegate_def)

lemma class_atomPatternCharacter_reads: "class_atomPatternCharacter ch h (d, p) = (d', q) \<Longrightarrow> class_reads p q"
  by (auto split: CharacterClassConstructionState.splits if_splits intro!: class_reads_call)

lemma class_atomBuiltInCharacterClass_reads: "class_atomBuiltInCharacterClass i b (d, p) = (d', q) \<Longrightarrow> class_reads p q"
  by (auto split: CharacterClassConstructionState.splits if_splits intro!: class_reads_call)

lemma class_call_reads:
  assumes "plain_call (Some c)"
  shows "\<exists>d' q. class_call c (d, p) = Some (d', q) \<and> class_reads p q"
proof (cases c)
  case (EscapeCharacter ch)
  then show ?thesis using class_atomPatternCharacter_reads [of ch False d p] by (metis class_call.simps(1) surj_pair)
next
  case (EscapeBuiltIn i b)
  then show ?thesis using class_atomBuiltInCharacterClass_reads [of i b d p] by (metis class_call.simps(2) surj_pair)
qed (use assms in \<open>simp_all add: plain_call_def\<close>)

lemma classToken_reads:
  assumes "m_rest p \<noteq> []"
  shows "\<exists>d' q. classToken C (d, p) = Some (d', q) \<and> length (m_rest q) < length (m_rest p) \<and> class_reads p q"
proof -
  let ?p = "p\<lparr>m_rest := tl (m_rest p)\<rparr>"
  have p: "reads p ?p" "length (m_rest ?p) < length (m_rest p)" using assms by (simp_all add: reads_def)
  have step: "length (m_rest q) < length (m_rest p) \<and> class_reads p q" if "class_reads ?p q" for q
    using that p class_reads_trans [OF reads_class [OF p(1)] that] by (auto simp: class_reads_def)
  show ?thesis
  proof (cases "hd (m_rest p) = chr CHR 0x5C")
    case True
    obtain a c q where e: "parseEscape C True p = (a, c, q)" using prod_cases3 by blast
    have q: "reads ?p q" "plain_call c" using parseEscape_ok [OF assms, of True C] by (simp_all add: e escape_ok_def)
    show ?thesis
    proof (cases c)
      case None
      then show ?thesis using True e step [OF reads_class [OF q(1)]]
        by (auto simp: classToken_def parseCharacterClassEscape_def)
    next
      case (Some x)
      then obtain d' r where r: "class_call x (d, q) = Some (d', r)" "class_reads q r" using class_call_reads q(2) by blast
      then show ?thesis using True e Some step [OF class_reads_trans [OF reads_class [OF q(1)] r(2)]]
        by (auto simp: classToken_def parseCharacterClassEscape_def)
    qed
  next
    case False
    obtain ch cs where cs: "consumePossibleSurrogatePair C (m_rest p) = (ch, cs)" by fastforce
    obtain d' q where q: "class_atomPatternCharacter ch True (d, p\<lparr>m_rest := cs\<rparr>) = (d', q)" by fastforce
    have "reads ?p (p\<lparr>m_rest := cs\<rparr>)" using consumePossibleSurrogatePair_length [OF cs assms] by (cases "m_rest p") (auto simp: reads_def)
    then have "class_reads ?p q" using class_atomPatternCharacter_reads [OF q] class_reads_trans reads_class by blast
    then show ?thesis using step False cs q by (auto simp: classToken_def simp del: class_atomPatternCharacter.simps)
  qed
qed

function characterClassLoop :: "yarr_config \<Rightarrow> class_step \<Rightarrow> yarr_parser option" where
  "characterClassLoop C (d, p) =
     (case m_rest p of
        [] \<Rightarrow> Some (set_error CharacterClassUnmatched p)
      | c # cs \<Rightarrow>
          if c = chr CHR '']'' then Some (class_end (d, p\<lparr>m_rest := cs\<rparr>))
          else case classToken C (d, p) of
            None \<Rightarrow> None
          | Some (d', q) \<Rightarrow> if hasError q then Some q else characterClassLoop C (d', q))"
  by pat_completeness auto
termination
proof (relation "measure (\<lambda>(C, d, p). length (m_rest p))")
  fix C d p c cs x d' q
  assume "m_rest p = c # cs" "classToken C (d, p) = Some x" "(d', q) = x"
  then show "((C, d', q), C, d, p) \<in> measure (\<lambda>(C, d, p). length (m_rest p))"
    using classToken_reads [of p C d] by auto
qed simp

declare characterClassLoop.simps [simp del]

definition parseCharacterClass :: "yarr_config \<Rightarrow> yarr_parser \<Rightarrow> yarr_parser option" where
  "parseCharacterClass C p =
     (case tryConsume (chr CHR ''^'') (tl (m_rest p)) of
        (invert, cs) \<Rightarrow>
          characterClassLoop C (\<lparr>m_state = Empty, m_character = 0\<rparr>, call_delegate [AtomCharacterClassBegin invert] (p\<lparr>m_rest := cs\<rparr>)))"

section \<open>Tokens\<close>

definition increment_depth :: "yarr_parser \<Rightarrow> yarr_parser" where
  "increment_depth p = p\<lparr>m_parenthesesNestingDepth := to_u32 (int (m_parenthesesNestingDepth p) + 1)\<rparr>"

definition parseParenthesesBegin :: "yarr_config \<Rightarrow> yarr_parser \<Rightarrow> yarr_parser" where
  "parseParenthesesBegin C p =
     (case tryConsume (chr CHR ''?'') (tl (m_rest p)) of
        (False, cs) \<Rightarrow> increment_depth (call_delegate [AtomParenthesesSubpatternBegin True None] (p\<lparr>m_rest := cs\<rparr>))
      | (True, cs) \<Rightarrow>
          (case cs of
             [] \<Rightarrow> set_error ParenthesesTypeInvalid (p\<lparr>m_rest := cs\<rparr>)
           | c # ds \<Rightarrow>
               let q = p\<lparr>m_rest := ds\<rparr>
               in increment_depth
                 (if c = chr CHR '':'' then call_delegate [AtomParenthesesSubpatternBegin False None] q
                  else if c = chr CHR ''='' then call_delegate [AtomParentheticalAssertionBegin False] q
                  else if c = chr CHR ''!'' then call_delegate [AtomParentheticalAssertionBegin True] q
                  else if c = chr CHR ''<'' then
                    (case tryConsumeGroupName C q of
                       (Some n, r) \<Rightarrow>
                         if n \<in> set (m_captureGroupNames r) then set_error DuplicateGroupName r
                         else call_delegate [AtomParenthesesSubpatternBegin True (Some n)] (r\<lparr>m_captureGroupNames := hs_add n (m_captureGroupNames r)\<rparr>)
                     | (None, r) \<Rightarrow> set_error InvalidGroupName r)
                  else set_error ParenthesesTypeInvalid q)))"

definition parseParenthesesEnd :: "yarr_parser \<Rightarrow> yarr_parser" where
  "parseParenthesesEnd p =
     (let q = p\<lparr>m_rest := tl (m_rest p)\<rparr>;
          r = (if m_parenthesesNestingDepth q > 0 then call_delegate [AtomParenthesesEnd] q else set_error ParenthesesUnmatched q)
      in r\<lparr>m_parenthesesNestingDepth := to_u32 (int (m_parenthesesNestingDepth r) - 1)\<rparr>)"

definition parseQuantifier :: "bool \<Rightarrow> nat \<Rightarrow> nat \<Rightarrow> yarr_parser \<Rightarrow> yarr_parser" where
  "parseQuantifier lastTokenWasAnAtom minimum maximum p =
     (if minimum = quantifyInfinite then set_error QuantifierTooLarge p
      else if lastTokenWasAnAtom then
        (case tryConsume (chr CHR ''?'') (m_rest p) of (b, cs) \<Rightarrow> call_delegate [QuantifyAtom minimum maximum (\<not> b)] (p\<lparr>m_rest := cs\<rparr>))
      else set_error QuantifierWithoutAtom p)"

fun escape_delegate_call :: "escape_call \<Rightarrow> delegate_call" where
  "escape_delegate_call (EscapeCharacter ch) = AtomPatternCharacter ch"
| "escape_delegate_call (EscapeBuiltIn classID invert) = AtomBuiltInCharacterClass classID invert"
| "escape_delegate_call (EscapeWordBoundary invert) = AssertionWordBoundary invert"
| "escape_delegate_call (EscapeBackReference n) = AtomBackReference n"
| "escape_delegate_call (EscapeNamedBackReference n) = AtomNamedBackReference n"
| "escape_delegate_call (EscapeNamedForwardReference n) = AtomNamedForwardReference n"

definition parseAtomEscape :: "yarr_config \<Rightarrow> yarr_parser \<Rightarrow> bool \<times> yarr_parser" where
  "parseAtomEscape C p =
     (case parseEscape C False p of
        (atom, None, q) \<Rightarrow> (atom, q)
      | (atom, Some c, q) \<Rightarrow> (atom, call_delegate [escape_delegate_call c] q))"

text \<open>Behind an opening brace: the bounds of a quantifier, if it is complete.\<close>

definition bracesQuantifier :: "nat list \<Rightarrow> (nat \<times> nat \<times> nat list) option" where
  "bracesQuantifier cs =
     (if peekIsDigit cs then
        (case consumeNumber cs of
           (minimum, ds) \<Rightarrow>
             (case (case tryConsume (chr CHR '','') ds of
                      (True, es) \<Rightarrow> if peekIsDigit es then consumeNumber es else (quantifyInfinite, es)
                    | (False, es) \<Rightarrow> (minimum, es)) of
                (maximum, fs) \<Rightarrow> (case tryConsume (chr CHR ''}'') fs of (True, gs) \<Rightarrow> Some (minimum, maximum, gs) | (False, _) \<Rightarrow> None)))
      else None)"

definition patternCharacter :: "yarr_config \<Rightarrow> yarr_parser \<Rightarrow> bool \<times> yarr_parser" where
  "patternCharacter C p =
     (case consumePossibleSurrogatePair C (m_rest p) of (ch, cs) \<Rightarrow> (True, call_delegate [AtomPatternCharacter ch] (p\<lparr>m_rest := cs\<rparr>)))"

text \<open>One round of the loop of \<open>parseTokens\<close>; the result has \<open>lastTokenWasAnAtom\<close>.\<close>

definition parseToken :: "yarr_config \<Rightarrow> bool \<Rightarrow> yarr_parser \<Rightarrow> (bool \<times> yarr_parser) option" where
  "parseToken C lastTokenWasAnAtom p =
     (let c = hd (m_rest p); q = p\<lparr>m_rest := tl (m_rest p)\<rparr>
      in if c = chr CHR ''|'' then Some (False, call_delegate [Disjunction] q)
         else if c = chr CHR ''('' then Some (False, parseParenthesesBegin C p)
         else if c = chr CHR '')'' then Some (True, parseParenthesesEnd p)
         else if c = chr CHR ''^'' then Some (False, call_delegate [AssertionBOL] q)
         else if c = chr CHR ''$'' then Some (False, call_delegate [AssertionEOL] q)
         else if c = chr CHR ''.'' then Some (True, call_delegate [AtomBuiltInCharacterClass DotClassID False] q)
         else if c = chr CHR ''['' then (case parseCharacterClass C p of None \<Rightarrow> None | Some r \<Rightarrow> Some (True, r))
         else if c = chr CHR 0x5C then Some (parseAtomEscape C p)
         else if c = chr CHR ''*'' then Some (False, parseQuantifier lastTokenWasAnAtom 0 quantifyInfinite q)
         else if c = chr CHR ''+'' then Some (False, parseQuantifier lastTokenWasAnAtom 1 quantifyInfinite q)
         else if c = chr CHR ''?'' then Some (False, parseQuantifier lastTokenWasAnAtom 0 1 q)
         else if c = chr CHR ''{'' then
           (case bracesQuantifier (m_rest q) of
              Some (minimum, maximum, cs) \<Rightarrow>
                Some (False, if minimum \<le> maximum then parseQuantifier lastTokenWasAnAtom minimum maximum (p\<lparr>m_rest := cs\<rparr>)
                             else set_error QuantifierOutOfOrder (p\<lparr>m_rest := cs\<rparr>))
            | None \<Rightarrow> Some (patternCharacter C p))
         else Some (patternCharacter C p))"

section \<open>The protocol of the calls\<close>

text \<open>Where a sequence of calls is: outside of a character class, behind an atom or not, or in a class; in so many open groups.\<close>

datatype call_state = Outside bool nat | InClass nat

fun call_step :: "delegate_call \<Rightarrow> call_state \<Rightarrow> call_state option" where
  "call_step (AtomCharacterClassBegin _) (Outside a d) = Some (InClass d)"
| "call_step (AtomParenthesesSubpatternBegin _ _) (Outside a d) = Some (Outside False (d + 1))"
| "call_step (AtomParentheticalAssertionBegin _) (Outside a d) = Some (Outside False (d + 1))"
| "call_step AtomParenthesesEnd (Outside a d) = (if d > 0 then Some (Outside True (d - 1)) else None)"
| "call_step (QuantifyAtom _ _ _) (Outside a d) = (if a then Some (Outside False d) else None)"
| "call_step (AtomPatternCharacter _) (Outside a d) = Some (Outside True d)"
| "call_step (AtomBuiltInCharacterClass _ _) (Outside a d) = Some (Outside True d)"
| "call_step (AtomBackReference _) (Outside a d) = Some (Outside True d)"
| "call_step (AtomNamedBackReference _) (Outside a d) = Some (Outside True d)"
| "call_step (AtomNamedForwardReference _) (Outside a d) = Some (Outside True d)"
| "call_step AssertionBOL (Outside a d) = Some (Outside False d)"
| "call_step AssertionEOL (Outside a d) = Some (Outside False d)"
| "call_step (AssertionWordBoundary _) (Outside a d) = Some (Outside False d)"
| "call_step Disjunction (Outside a d) = Some (Outside False d)"
| "call_step AtomCharacterClassEnd (InClass d) = Some (Outside True d)"
| "call_step (AtomCharacterClassAtom _) (InClass d) = Some (InClass d)"
| "call_step (AtomCharacterClassRange _ _) (InClass d) = Some (InClass d)"
| "call_step (AtomCharacterClassBuiltIn _ _) (InClass d) = Some (InClass d)"
| "call_step _ _ = None"

fun run_calls :: "delegate_call list \<Rightarrow> call_state \<Rightarrow> call_state option" where
  "run_calls [] st = Some st"
| "run_calls (c # cs) st = do { st' \<leftarrow> call_step c st; run_calls cs st' }"

lemma run_calls_append: "run_calls (cs @ ds) st = do { st' \<leftarrow> run_calls cs st; run_calls ds st' }"
  by (induction cs arbitrary: st) (auto split: Option.bind_split)

lemma run_class_calls: "list_all is_class_call cs \<Longrightarrow> run_calls cs (InClass d) = Some (InClass d)"
proof (induction cs)
  case (Cons c cs)
  then show ?case by (cases c) auto
qed simp

abbreviation parser_state :: "bool \<Rightarrow> yarr_parser \<Rightarrow> call_state" where
  "parser_state a p \<equiv> Outside a (m_parenthesesNestingDepth p)"

definition depth_bound :: "yarr_parser \<Rightarrow> bool" where
  "depth_bound p \<longleftrightarrow> m_parenthesesNestingDepth p + length (m_rest p) < 2 ^ 32"

text \<open>A token makes the pattern shorter, follows the protocol, and ends where the parser says, unless there is an error.\<close>

definition token_ok :: "bool \<Rightarrow> yarr_parser \<Rightarrow> bool \<Rightarrow> yarr_parser \<Rightarrow> bool" where
  "token_ok a p a' q \<longleftrightarrow> length (m_rest q) < length (m_rest p) \<and>
     (\<exists>cs. m_calls q = m_calls p @ cs \<and>
       (depth_bound p \<longrightarrow> (\<exists>st. run_calls cs (parser_state a p) = Some st \<and> (hasError q \<or> st = parser_state a' q \<and> depth_bound q))))"

lemma token_okI:
  assumes "length (m_rest q) < length (m_rest p)" and "m_calls q = m_calls p @ cs"
    and "depth_bound p \<Longrightarrow> run_calls cs (parser_state a p) = Some st" and "depth_bound p \<Longrightarrow> hasError q \<or> st = parser_state a' q \<and> depth_bound q"
  shows "token_ok a p a' q"
  using assms unfolding token_ok_def by blast

lemma token_error: "length (m_rest q) < length (m_rest p) \<Longrightarrow> m_calls q = m_calls p \<Longrightarrow> hasError q \<Longrightarrow> token_ok a p a' q"
  by (rule token_okI [of _ _ "[]"]) auto

lemma reads_tlD:
  assumes "reads (p\<lparr>m_rest := tl (m_rest p)\<rparr>) q" and "m_rest p \<noteq> []"
  shows "length (m_rest q) < length (m_rest p)" "m_calls q = m_calls p" "m_parenthesesNestingDepth q = m_parenthesesNestingDepth p"
  using assms by (cases "m_rest p"; simp add: reads_def)+

lemma token_set_error:
  assumes "reads (p\<lparr>m_rest := tl (m_rest p)\<rparr>) q" and "m_rest p \<noteq> []" and "e \<noteq> NoError"
  shows "token_ok a p a' (set_error e q)"
  using reads_tlD [OF assms(1, 2)] assms(3) by (intro token_error) simp_all

lemma token_call:
  assumes "reads (p\<lparr>m_rest := tl (m_rest p)\<rparr>) q" and "m_rest p \<noteq> []" and "call_step c (parser_state a p) = Some (parser_state a' p)"
  shows "token_ok a p a' (call_delegate [c] q)"
  by (rule token_okI [of _ _ "[c]" _ "parser_state a' p"])
    (use assms(3) reads_tlD [OF assms(1, 2)] in \<open>simp_all add: call_delegate_def depth_bound_def\<close>)

lemma to_u32_succ: "n + 1 < 2 ^ 32 \<Longrightarrow> to_u32 (int n + 1) = n + 1" and to_u32_pred: "0 < n \<Longrightarrow> n < 2 ^ 32 \<Longrightarrow> to_u32 (int n - 1) = n - 1"
  by (simp_all add: to_u32_def nat_diff_distrib)

lemma token_open:
  assumes "reads (p\<lparr>m_rest := tl (m_rest p)\<rparr>) q" and "m_rest p \<noteq> []" and "call_step c (parser_state a p) = Some (Outside False (m_parenthesesNestingDepth p + 1))"
  shows "token_ok a p False (increment_depth (call_delegate [c] (q\<lparr>m_captureGroupNames := ns\<rparr>)))"
  by (rule token_okI [of _ _ "[c]" _ "Outside False (m_parenthesesNestingDepth p + 1)"])
    (use assms(3) reads_tlD [OF assms(1, 2)] in \<open>simp_all add: call_delegate_def depth_bound_def increment_depth_def to_u32_succ [simplified]\<close>)

lemma parseParenthesesBegin_ok:
  assumes "m_rest p \<noteq> []"
  shows "token_ok a p False (parseParenthesesBegin C p)"
proof -
  obtain b cs where cs: "tryConsume (chr CHR ''?'') (tl (m_rest p)) = (b, cs)" by fastforce
  let ?p = "p\<lparr>m_rest := tl (m_rest p)\<rparr>"
  have r: "reads ?p (p\<lparr>m_rest := cs\<rparr>)" using tryConsume_length [OF cs] by (simp add: reads_def)
  show ?thesis
  proof (cases b)
    case False
    show ?thesis using token_open [OF r assms, of "AtomParenthesesSubpatternBegin True None" a "m_captureGroupNames p"] False
      by (simp add: parseParenthesesBegin_def cs [simplified])
  next
    case True
    show ?thesis
    proof (cases cs)
      case Nil
      then show ?thesis using True assms by (auto simp: parseParenthesesBegin_def cs [simplified] intro: token_error)
    next
      case (Cons c ds)
      let ?q = "p\<lparr>m_rest := ds\<rparr>"
      have q: "reads ?p ?q" using r Cons by (simp add: reads_def)
      obtain n x where x: "tryConsumeGroupName C ?q = (n, x)" by fastforce
      have xr: "reads ?p x" using reads_trans [OF q tryConsumeGroupName_reads [OF x]] .
      have err: "token_ok a p False (increment_depth (set_error e y))" if "reads ?p y" "e \<noteq> NoError" for e y
        using that(2) reads_tlD [OF that(1) assms] by (intro token_error) (simp_all add: increment_depth_def hasError_def set_error_def)
      have o: "token_ok a p False (increment_depth (call_delegate [AtomParenthesesSubpatternBegin False None] ?q))"
        "token_ok a p False (increment_depth (call_delegate [AtomParentheticalAssertionBegin False] ?q))"
        "token_ok a p False (increment_depth (call_delegate [AtomParentheticalAssertionBegin True] ?q))"
        using token_open [OF q assms, where ns = "m_captureGroupNames p"] by auto
      show ?thesis using True Cons o err [OF q] err [OF xr] token_open [OF xr assms]
        by (cases n) (simp_all add: parseParenthesesBegin_def cs [simplified] x Let_def)
    qed
  qed
qed

lemma parseParenthesesEnd_ok: "m_rest p \<noteq> [] \<Longrightarrow> token_ok a p True (parseParenthesesEnd p)"
proof (cases "m_parenthesesNestingDepth p > 0")
  case True
  assume "m_rest p \<noteq> []"
  then show ?thesis using True
    by (intro token_okI [of _ _ "[AtomParenthesesEnd]" _ "Outside True (m_parenthesesNestingDepth p - 1)"])
      (auto simp: parseParenthesesEnd_def Let_def call_delegate_def depth_bound_def to_u32_pred)
next
  case False
  assume "m_rest p \<noteq> []"
  then show ?thesis using False
    by (intro token_error) (auto simp: parseParenthesesEnd_def Let_def hasError_def set_error_def)
qed

lemma parseQuantifier_ok:
  assumes "reads (p\<lparr>m_rest := tl (m_rest p)\<rparr>) q" and "m_rest p \<noteq> []"
  shows "token_ok a p False (parseQuantifier a m n q)"
proof -
  obtain b cs where cs: "tryConsume (chr CHR ''?'') (m_rest q) = (b, cs)" by fastforce
  have "reads (p\<lparr>m_rest := tl (m_rest p)\<rparr>) (q\<lparr>m_rest := cs\<rparr>)" using assms(1) tryConsume_length [OF cs] by (simp add: reads_def)
  from token_call [OF this assms(2), of "QuantifyAtom m n (\<not> b)" a False] token_set_error [OF assms] show ?thesis
    by (cases a) (simp_all add: parseQuantifier_def cs [simplified])
qed

lemma parseAtomEscape_ok:
  assumes "m_rest p \<noteq> []" and "parseAtomEscape C p = (a', q)"
  shows "token_ok a p a' q"
proof -
  obtain b c r where e: "parseEscape C False p = (b, c, r)" using prod_cases3 by blast
  have ok: "reads (p\<lparr>m_rest := tl (m_rest p)\<rparr>) r" "case c of None \<Rightarrow> hasError r | Some (EscapeWordBoundary _) \<Rightarrow> \<not> b | Some _ \<Rightarrow> b"
    using parseEscape_ok [OF assms(1), of False C] by (simp_all add: e escape_ok_def)
  show ?thesis
  proof (cases c)
    case None
    then show ?thesis using ok(2) reads_tlD [OF ok(1) assms(1)] assms(2) e by (intro token_error) (auto simp: parseAtomEscape_def)
  next
    case (Some x)
    have "call_step (escape_delegate_call x) (parser_state a p) = Some (parser_state b p)" using ok(2) Some by (cases x) auto
    from token_call [OF ok(1) assms(1) this] show ?thesis using Some e assms(2) by (simp add: parseAtomEscape_def)
  qed
qed

lemma patternCharacter_ok:
  assumes "m_rest p \<noteq> []" and "patternCharacter C p = (a', q)"
  shows "token_ok a p a' q"
proof -
  obtain ch cs where cs: "consumePossibleSurrogatePair C (m_rest p) = (ch, cs)" by fastforce
  have "reads (p\<lparr>m_rest := tl (m_rest p)\<rparr>) (p\<lparr>m_rest := cs\<rparr>)"
    using consumePossibleSurrogatePair_length [OF cs assms(1)] assms(1) by (simp add: reads_def)
  from token_call [OF this assms(1), of "AtomPatternCharacter ch" a True] show ?thesis
    using assms(2) by (auto simp: patternCharacter_def cs)
qed

text \<open>A character class is a call that opens it, calls within it, and one that closes it.\<close>

lemma class_end_calls:
  "\<exists>cs. list_all is_class_call cs \<and> m_calls (class_end (d, p)) = m_calls p @ cs @ [AtomCharacterClassEnd]"
  "m_rest (class_end (d, p)) = m_rest p" "m_parenthesesNestingDepth (class_end (d, p)) = m_parenthesesNestingDepth p"
  by (auto simp: class_end_def call_delegate_def)

definition class_closed :: "yarr_parser \<Rightarrow> yarr_parser \<Rightarrow> bool" where
  "class_closed p q \<longleftrightarrow> length (m_rest q) \<le> length (m_rest p) \<and> m_parenthesesNestingDepth q = m_parenthesesNestingDepth p \<and>
     (\<exists>cs. list_all is_class_call cs \<and> (m_calls q = m_calls p @ cs @ [AtomCharacterClassEnd] \<or> hasError q \<and> m_calls q = m_calls p @ cs))"

lemma class_closed_trans: "class_reads p q \<Longrightarrow> class_closed q r \<Longrightarrow> class_closed p r"
  unfolding class_reads_def class_closed_def
  by (elim conjE exE, intro conjI) (auto, (metis append.assoc list_all_append)+)

lemma characterClassLoop_closed: "\<exists>q. characterClassLoop C (d, p) = Some q \<and> class_closed p q"
proof (induction C "(d, p)" arbitrary: d p rule: characterClassLoop.induct)
  case (1 C d p)
  show ?case
  proof (cases "m_rest p")
    case Nil
    then show ?thesis by (subst characterClassLoop.simps) (auto simp: class_closed_def intro: exI [of _ "[]"])
  next
    case (Cons c cs)
    show ?thesis
    proof (cases "c = chr CHR '']''")
      case True
      then show ?thesis using Cons class_end_calls [of d "p\<lparr>m_rest := cs\<rparr>"]
        by (subst characterClassLoop.simps) (auto simp: class_closed_def)
    next
      case False
      obtain d' q where q: "classToken C (d, p) = Some (d', q)" "class_reads p q"
        using classToken_reads [of p C d] Cons by auto
      show ?thesis
      proof (cases "hasError q")
        case True
        then show ?thesis using q Cons False
          by (subst characterClassLoop.simps) (auto simp: class_closed_def class_reads_def)
      next
        case error: False
        obtain r where "characterClassLoop C (d', q) = Some r" "class_closed q r"
          using "1.hyps" [OF Cons False q(1) refl error] by blast
        then show ?thesis using q Cons False error class_closed_trans [OF q(2)]
          by (subst characterClassLoop.simps) auto
      qed
    qed
  qed
qed

lemma parseCharacterClass_ok:
  assumes "m_rest p \<noteq> []"
  shows "\<exists>q. parseCharacterClass C p = Some q \<and> token_ok a p True q"
proof -
  obtain b cs where cs: "tryConsume (chr CHR ''^'') (tl (m_rest p)) = (b, cs)" by fastforce
  let ?p = "call_delegate [AtomCharacterClassBegin b] (p\<lparr>m_rest := cs\<rparr>)"
  obtain q where q: "parseCharacterClass C p = Some q" "class_closed ?p q"
    using characterClassLoop_closed by (fastforce simp: parseCharacterClass_def cs [simplified])
  have l: "length (m_rest q) < length (m_rest p)" "m_parenthesesNestingDepth q = m_parenthesesNestingDepth p"
    using q(2) tryConsume_length [OF cs] assms by (cases "m_rest p"; auto simp: class_closed_def call_delegate_def)+
  obtain ds where ds: "list_all is_class_call ds"
      "m_calls q = m_calls ?p @ ds @ [AtomCharacterClassEnd] \<or> hasError q \<and> m_calls q = m_calls ?p @ ds"
    using q(2) by (auto simp: class_closed_def)
  from ds(2) have "token_ok a p True q"
  proof
    assume "m_calls q = m_calls ?p @ ds @ [AtomCharacterClassEnd]"
    then show ?thesis using l ds(1)
      by (intro token_okI [of _ _ "AtomCharacterClassBegin b # ds @ [AtomCharacterClassEnd]" _ "parser_state True p"])
        (auto simp: call_delegate_def run_calls_append run_class_calls depth_bound_def)
  next
    assume "hasError q \<and> m_calls q = m_calls ?p @ ds"
    then show ?thesis using l ds(1)
      by (intro token_okI [of _ _ "AtomCharacterClassBegin b # ds" _ "InClass (m_parenthesesNestingDepth p)"])
        (auto simp: call_delegate_def run_class_calls)
  qed
  then show ?thesis using q(1) by blast
qed

lemma bracesQuantifier_length:
  assumes "bracesQuantifier cs = Some (m, n, ds)"
  shows "length ds \<le> length cs"
proof -
  obtain k es where es: "consumeNumber cs = (k, es)" by fastforce
  obtain b fs where fs: "tryConsume (chr CHR '','') es = (b, fs)" by fastforce
  obtain j gs where gs: "consumeNumber fs = (j, gs)" by fastforce
  have "length (tl cs) \<le> length cs" "length (tl fs) \<le> length fs" by simp_all
  then have l: "length es \<le> length cs" "length fs \<le> length es" "length gs \<le> length fs"
    using consumeNumber_length [OF es] tryConsume_length [OF fs] consumeNumber_length [OF gs] by linarith+
  have c: "length ds \<le> length xs" if "tryConsume (chr CHR ''}'') xs = (True, ds)" for xs using tryConsume_length [OF that] .
  show ?thesis using assms l c [of fs] c [of gs]
    by (cases b) (auto simp: bracesQuantifier_def es fs [simplified] gs split: if_splits prod.splits bool.splits)
qed

lemma parseToken_ok:
  assumes "m_rest p \<noteq> []"
  shows "\<exists>a' q. parseToken C a p = Some (a', q) \<and> token_ok a p a' q"
proof -
  define t where "t r \<longleftrightarrow> (\<exists>a' q. r = Some (a', q) \<and> token_ok a p a' q)" for r
  let ?q = "p\<lparr>m_rest := tl (m_rest p)\<rparr>"
  have t_if: "(b \<Longrightarrow> t x) \<Longrightarrow> (\<not> b \<Longrightarrow> t y) \<Longrightarrow> t (if b then x else y)" for b x y by simp
  have t1: "t (Some (a', q))" if "token_ok a p a' q" for a' q using that by (simp add: t_def)
  have call: "t (Some (a', call_delegate [c] ?q))" if "call_step c (parser_state a p) = Some (parser_state a' p)" for a' c
    using token_call [OF _ assms that] t1 by simp
  have cl: "t (case parseCharacterClass C p of None \<Rightarrow> None | Some r \<Rightarrow> Some (True, r))"
    using parseCharacterClass_ok [OF assms, of C a] by (auto simp: t_def)
  have es: "t (Some (parseAtomEscape C p))" using parseAtomEscape_ok [OF assms, of C] by (cases "parseAtomEscape C p") (auto simp: t_def)
  have pc: "t (Some (patternCharacter C p))" using patternCharacter_ok [OF assms, of C] by (cases "patternCharacter C p") (auto simp: t_def)
  have qu: "t (Some (False, parseQuantifier a m n ?q))" for m n using parseQuantifier_ok [OF _ assms] t1 by simp
  have br: "t (case bracesQuantifier (m_rest ?q) of
      Some (m, n, cs) \<Rightarrow> Some (False, if m \<le> n then parseQuantifier a m n (p\<lparr>m_rest := cs\<rparr>) else set_error QuantifierOutOfOrder (p\<lparr>m_rest := cs\<rparr>))
    | None \<Rightarrow> Some (patternCharacter C p))"
  proof (cases "bracesQuantifier (m_rest ?q)")
    case (Some x)
    obtain m n cs where x: "x = (m, n, cs)" using prod_cases3 by blast
    have r: "reads ?q (p\<lparr>m_rest := cs\<rparr>)" using bracesQuantifier_length [of "m_rest ?q" m n cs] Some x by (simp add: reads_def)
    show ?thesis using Some x t1 [OF parseQuantifier_ok [OF r assms]] t1 [OF token_set_error [OF r assms]] by simp
  qed (use pc in simp)
  have "t (parseToken C a p)"
    unfolding parseToken_def Let_def
    by (intro t_if call cl es pc qu br t1 [OF parseParenthesesBegin_ok [OF assms]] t1 [OF parseParenthesesEnd_ok [OF assms]]) simp_all
  then show ?thesis by (simp add: t_def)
qed

function parseTokens :: "yarr_config \<Rightarrow> bool \<Rightarrow> yarr_parser \<Rightarrow> yarr_parser option" where
  "parseTokens C lastTokenWasAnAtom p =
     (if m_rest p = [] then Some (if m_parenthesesNestingDepth p > 0 then set_error MissingParentheses p else p)
      else case parseToken C lastTokenWasAnAtom p of
        None \<Rightarrow> None
      | Some (atom, q) \<Rightarrow> if hasError q then Some q else parseTokens C atom q)"
  by auto
termination
proof (relation "measure (\<lambda>(C, a, p). length (m_rest p))")
  fix C a and p :: yarr_parser and x atom q
  assume "m_rest p \<noteq> []" "parseToken C a p = Some x" "(atom, q) = x"
  then show "((C, atom, q), C, a, p) \<in> measure (\<lambda>(C, a, p). length (m_rest p))"
    using parseToken_ok [of p C a] by (auto simp: token_ok_def)
qed simp

declare parseTokens.simps [simp del]

definition MAX_PATTERN_SIZE :: nat where
  "MAX_PATTERN_SIZE = 1024 * 1024"

definition yarr_initial :: "nat list \<Rightarrow> yarr_parser" where
  "yarr_initial pattern =
     \<lparr>m_rest = pattern, m_errorCode = NoError, m_parenthesesNestingDepth = 0, m_captureGroupNames = [], m_calls = []\<rparr>"

definition yarr_parse :: "yarr_config \<Rightarrow> nat list \<Rightarrow> yarr_parser option" where
  "yarr_parse C pattern =
     (if length pattern > MAX_PATTERN_SIZE then Some (set_error PatternTooLarge (yarr_initial pattern))
      else parseTokens C False (yarr_initial pattern))"

text \<open>The parser returns, and its calls follow the protocol; without an error every group is closed.\<close>

lemma parseTokens_protocol:
  assumes "run_calls (m_calls p) st = Some (parser_state a p)" and "depth_bound p"
  shows "\<exists>q st'. parseTokens C a p = Some q \<and> run_calls (m_calls q) st = Some st' \<and> (hasError q \<or> (\<exists>b. st' = Outside b 0))"
  using assms
proof (induction C a p rule: parseTokens.induct)
  case (1 C a p)
  show ?case
  proof (cases "m_rest p = []")
    case True
    then show ?thesis using 1 by (subst parseTokens.simps) auto
  next
    case False
    obtain a' q where q: "parseToken C a p = Some (a', q)" "token_ok a p a' q" using parseToken_ok [OF False] by blast
    then obtain cs st' where cs: "m_calls q = m_calls p @ cs" "run_calls cs (parser_state a p) = Some st'"
      "hasError q \<or> st' = parser_state a' q \<and> depth_bound q"
      using "1.prems"(2) by (auto simp: token_ok_def)
    have r: "run_calls (m_calls q) st = Some st'" using cs "1.prems"(1) by (simp add: run_calls_append)
    show ?thesis
    proof (cases "hasError q")
      case True
      then show ?thesis using False q(1) r by (subst parseTokens.simps) auto
    next
      case error: False
      then show ?thesis using "1.IH" [OF False q(1) refl error] r cs(3) q(1) False by (subst parseTokens.simps) auto
    qed
  qed
qed

lemma yarr_parse_protocol:
  "\<exists>q st. yarr_parse C pattern = Some q \<and> run_calls (m_calls q) (Outside False 0) = Some st \<and> (hasError q \<or> (\<exists>b. st = Outside b 0))"
  using parseTokens_protocol [of "yarr_initial pattern" "Outside False 0" False C]
  by (auto simp: yarr_parse_def yarr_initial_def depth_bound_def MAX_PATTERN_SIZE_def)

section \<open>Delegates\<close>

fun run_delegate :: "(delegate_call \<Rightarrow> 'd \<Rightarrow> 'd option) \<Rightarrow> delegate_call list \<Rightarrow> 'd \<Rightarrow> 'd option" where
  "run_delegate call [] d = Some d"
| "run_delegate call (c # cs) d = do { d1 \<leftarrow> call c d; run_delegate call cs d1 }"

text \<open>The contract of a delegate: on calls that it can handle, in an order that the protocol allows, it keeps an invariant and does not crash.\<close>

locale yarr_delegate =
  fixes call :: "delegate_call \<Rightarrow> 'd \<Rightarrow> 'd option" and dinv :: "call_state \<Rightarrow> 'd \<Rightarrow> bool" and handled :: "delegate_call \<Rightarrow> bool"
  assumes call_inv: "dinv st d \<Longrightarrow> call_step c st = Some st' \<Longrightarrow> handled c \<Longrightarrow> \<exists>d'. call c d = Some d' \<and> dinv st' d'"
begin

lemma run_inv:
  "dinv st d \<Longrightarrow> run_calls cs st = Some st' \<Longrightarrow> list_all handled cs \<Longrightarrow> \<exists>d'. run_delegate call cs d = Some d' \<and> dinv st' d'"
proof (induction cs arbitrary: st d)
  case (Cons c cs)
  then obtain st1 where st1: "call_step c st = Some st1" "run_calls cs st1 = Some st'" by (cases "call_step c st") auto
  obtain d1 where "call c d = Some d1" "dinv st1 d1" using call_inv [OF Cons.prems(1) st1(1)] Cons.prems(3) by auto
  then show ?case using Cons.IH [OF _ st1(2)] Cons.prems(3) by auto
qed simp

lemma parse_inv:
  assumes "yarr_parse C pattern = Some q" and "list_all handled (m_calls q)" and "dinv (Outside False 0) d"
  shows "\<exists>d' st. run_delegate call (m_calls q) d = Some d' \<and> dinv st d' \<and> (hasError q \<or> (\<exists>b. st = Outside b 0))"
proof -
  obtain st where "run_calls (m_calls q) (Outside False 0) = Some st" "hasError q \<or> (\<exists>b. st = Outside b 0)"
    using yarr_parse_protocol [of C pattern] assms(1) by auto
  then show ?thesis using run_inv [OF assms(3) _ assms(2)] by blast
qed

end

end
