(* ===== verification/Url_Filter_Parser.thy ===== *)
theory Url_Filter_Parser
  imports Combined_Filters Yarr_Parser
begin

text \<open>
  \<^verbatim>\<open>URLFilterParser.cpp\<close>: the terms of a URL filter. \<open>PatternParser\<close> is the delegate of the parser of regular expressions;
  it is run on the calls that \<open>yarr_parse\<close> records, which do not depend on it. A failing release assertion is \<open>None\<close>.
\<close>

section \<open>The code\<close>

datatype ParseStatus =
    Ok | MatchesEverything | NonASCII | UnsupportedCharacterClass | BackReference | ForwardReference | MisplacedStartOfLine
  | WordBoundary | AtomCharacter | Group | DisjunctionStatus | MisplacedEndOfLine | EmptyPattern | YarrError | InvalidQuantifier

record PatternParser =
  m_patternIsCaseSensitive :: bool
  m_openGroups :: "Term list"
  m_sunkTerms :: "Term list"
  m_floatingTerm :: Term
  m_hasBeginningOfLineAssertion :: bool
  m_hasProcessedEndOfLineAssertion :: bool
  m_parseStatus :: ParseStatus

definition PatternParser_initial :: "bool \<Rightarrow> PatternParser" where
  "PatternParser_initial patternIsCaseSensitive =
     \<lparr>m_patternIsCaseSensitive = patternIsCaseSensitive, m_openGroups = [], m_sunkTerms = [], m_floatingTerm = Term_default,
      m_hasBeginningOfLineAssertion = False, m_hasProcessedEndOfLineAssertion = False, m_parseStatus = Ok\<rparr>"

definition patternHasError :: "PatternParser \<Rightarrow> bool" where
  "patternHasError p \<longleftrightarrow> m_parseStatus p \<noteq> Ok"

definition pattern_fail :: "ParseStatus \<Rightarrow> PatternParser \<Rightarrow> PatternParser" where
  "pattern_fail reason p = (if patternHasError p then p else p\<lparr>m_parseStatus := reason\<rparr>)"

definition sinkFloatingTermIfNecessary :: "PatternParser \<Rightarrow> PatternParser" where
  "sinkFloatingTermIfNecessary p =
     (if \<not> isValid (m_floatingTerm p) then p
      else if m_hasProcessedEndOfLineAssertion p then (pattern_fail MisplacedEndOfLine p)\<lparr>m_floatingTerm := Term_default\<rparr>
      else
        let q = (if isEndOfLineAssertion (m_floatingTerm p) then p\<lparr>m_hasProcessedEndOfLineAssertion := True\<rparr> else p)
        in if m_openGroups q \<noteq> []
           then q\<lparr>m_openGroups := butlast (m_openGroups q) @ [extendGroupSubpattern (m_floatingTerm q) (last (m_openGroups q))],
                  m_floatingTerm := Term_default\<rparr>
           else q\<lparr>m_sunkTerms := m_sunkTerms q @ [m_floatingTerm q], m_floatingTerm := Term_default\<rparr>)"

text \<open>The new floating term of an atom.\<close>

definition float :: "Term option \<Rightarrow> PatternParser \<Rightarrow> PatternParser option" where
  "float t p = do { u \<leftarrow> t; Some (p\<lparr>m_floatingTerm := u\<rparr>) }"

definition pattern_atomPatternCharacter :: "nat \<Rightarrow> PatternParser \<Rightarrow> PatternParser option" where
  "pattern_atomPatternCharacter character p =
     (if patternHasError p then Some p
      else if \<not> character < 128 then Some (pattern_fail NonASCII p)
      else float (Term_character character (m_patternIsCaseSensitive p)) (sinkFloatingTermIfNecessary p))"

definition pattern_atomBuiltInCharacterClass :: "BuiltInCharacterClassID \<Rightarrow> bool \<Rightarrow> PatternParser \<Rightarrow> PatternParser option" where
  "pattern_atomBuiltInCharacterClass builtInCharacterClassID inverted p =
     (if patternHasError p then Some p
      else let q = sinkFloatingTermIfNecessary p
           in if builtInCharacterClassID = DotClassID \<and> \<not> inverted then float Term_UniversalTransition q
              else Some (pattern_fail UnsupportedCharacterClass q))"

definition pattern_quantifyAtom :: "nat \<Rightarrow> nat \<Rightarrow> PatternParser \<Rightarrow> PatternParser" where
  "pattern_quantifyAtom minimum maximum p =
     (if patternHasError p then p
      else if minimum = 0 \<and> maximum = 1 then p\<lparr>m_floatingTerm := quantify ZeroOrOne (m_floatingTerm p)\<rparr>
      else if minimum = 0 \<and> maximum = quantifyInfinite then p\<lparr>m_floatingTerm := quantify ZeroOrMore (m_floatingTerm p)\<rparr>
      else if minimum = 1 \<and> maximum = quantifyInfinite then p\<lparr>m_floatingTerm := quantify OneOrMore (m_floatingTerm p)\<rparr>
      else pattern_fail InvalidQuantifier p)"

definition pattern_assertionBOL :: "PatternParser \<Rightarrow> PatternParser" where
  "pattern_assertionBOL p =
     (if patternHasError p then p
      else if isValid (m_floatingTerm p) \<or> m_sunkTerms p \<noteq> [] \<or> m_openGroups p \<noteq> [] then pattern_fail MisplacedStartOfLine p
      else p\<lparr>m_hasBeginningOfLineAssertion := True\<rparr>)"

definition pattern_assertionEOL :: "PatternParser \<Rightarrow> PatternParser option" where
  "pattern_assertionEOL p = (if patternHasError p then Some p else float Term_EndOfLineAssertion (sinkFloatingTermIfNecessary p))"

definition pattern_atomCharacterClassBegin :: "bool \<Rightarrow> PatternParser \<Rightarrow> PatternParser option" where
  "pattern_atomCharacterClassBegin inverted p =
     (if patternHasError p then Some p else float (Some (Term_CharacterSet inverted)) (sinkFloatingTermIfNecessary p))"

definition pattern_atomCharacterClassAtom :: "nat \<Rightarrow> PatternParser \<Rightarrow> PatternParser option" where
  "pattern_atomCharacterClassAtom character p =
     (if patternHasError p then Some p else float (addCharacter character (m_patternIsCaseSensitive p) (m_floatingTerm p)) p)"

fun addCharacters :: "nat list \<Rightarrow> bool \<Rightarrow> Term \<Rightarrow> Term option" where
  "addCharacters [] isCaseSensitive t = Some t"
| "addCharacters (c # cs) isCaseSensitive t = do { u \<leftarrow> addCharacter c isCaseSensitive t; addCharacters cs isCaseSensitive u }"

definition pattern_atomCharacterClassRange :: "nat \<Rightarrow> nat \<Rightarrow> PatternParser \<Rightarrow> PatternParser option" where
  "pattern_atomCharacterClassRange a b p =
     (if patternHasError p then Some p else float (addCharacters [a ..< b + 1] (m_patternIsCaseSensitive p) (m_floatingTerm p)) p)"

definition pattern_atomParenthesesSubpatternBegin :: "PatternParser \<Rightarrow> PatternParser" where
  "pattern_atomParenthesesSubpatternBegin p =
     (if patternHasError p then p
      else let q = sinkFloatingTermIfNecessary p in q\<lparr>m_openGroups := m_openGroups q @ [Term_Group]\<rparr>)"

definition pattern_atomParenthesesEnd :: "PatternParser \<Rightarrow> PatternParser" where
  "pattern_atomParenthesesEnd p =
     (if patternHasError p then p
      else let q = sinkFloatingTermIfNecessary p
           in q\<lparr>m_floatingTerm := last (m_openGroups q), m_openGroups := butlast (m_openGroups q)\<rparr>)"

text \<open>The delegate. Characters are converted from \<^verbatim>\<open>UChar32\<close> to \<^verbatim>\<open>UChar\<close>.\<close>

definition to_UChar :: "nat \<Rightarrow> nat" where
  "to_UChar c = c mod 65536"

fun pattern_call :: "delegate_call \<Rightarrow> PatternParser \<Rightarrow> PatternParser option" where
  "pattern_call AssertionBOL p = Some (pattern_assertionBOL p)"
| "pattern_call AssertionEOL p = pattern_assertionEOL p"
| "pattern_call (AssertionWordBoundary _) p = Some (pattern_fail WordBoundary p)"
| "pattern_call (AtomPatternCharacter c) p = pattern_atomPatternCharacter (to_UChar c) p"
| "pattern_call (AtomBuiltInCharacterClass i inverted) p = pattern_atomBuiltInCharacterClass i inverted p"
| "pattern_call (AtomCharacterClassBegin inverted) p = pattern_atomCharacterClassBegin inverted p"
| "pattern_call (AtomCharacterClassAtom c) p = pattern_atomCharacterClassAtom (to_UChar c) p"
| "pattern_call (AtomCharacterClassRange a b) p = pattern_atomCharacterClassRange (to_UChar a) (to_UChar b) p"
| "pattern_call (AtomCharacterClassBuiltIn _ _) p = Some (pattern_fail AtomCharacter p)"
| "pattern_call AtomCharacterClassEnd p = Some p"
| "pattern_call (AtomParenthesesSubpatternBegin _ _) p = Some (pattern_atomParenthesesSubpatternBegin p)"
| "pattern_call (AtomParentheticalAssertionBegin _) p = Some (pattern_fail Group p)"
| "pattern_call AtomParenthesesEnd p = Some (pattern_atomParenthesesEnd p)"
| "pattern_call (AtomBackReference _) p = Some (pattern_fail BackReference p)"
| "pattern_call (AtomNamedBackReference _) p = Some (pattern_fail BackReference p)"
| "pattern_call (AtomNamedForwardReference _) p = Some (pattern_fail ForwardReference p)"
| "pattern_call (QuantifyAtom minimum maximum _) p = Some (pattern_quantifyAtom minimum maximum p)"
| "pattern_call Disjunction p = Some (pattern_fail DisjunctionStatus p)"

text \<open>The first loop of \<open>simplifySunkTerms\<close>.\<close>

fun canonicalizeDotStars :: "Term \<Rightarrow> bool \<Rightarrow> Term list \<Rightarrow> Term list" where
  "canonicalizeDotStars dotStar isAfterDotStar [] = []"
| "canonicalizeDotStars dotStar isAfterDotStar (t # ts) =
     (if isAfterDotStar \<and> isKnownToMatchAnyString t then canonicalizeDotStars dotStar True ts
      else if isKnownToMatchAnyString t then dotStar # canonicalizeDotStars dotStar True ts
      else t # canonicalizeDotStars dotStar False ts)"

definition removeTrailingDotStarEnd :: "Term list \<Rightarrow> Term list" where
  "removeTrailingDotStarEnd ts =
     (if length ts > 2 \<and> isEndOfLineAssertion (last ts) \<and> isKnownToMatchAnyString (ts ! (length ts - 2)) then take (length ts - 2) ts else ts)"

definition removeIrrelevantTerms :: "Term list \<Rightarrow> Term list" where
  "removeIrrelevantTerms ts =
     (if isEndOfLineAssertion (last ts) then ts else rev (dropWhile (\<lambda>t. \<not> matchesAtLeastOneCharacter t) (rev ts)))"

definition simplifySunkTerms :: "bool \<Rightarrow> Term list \<Rightarrow> Term list option" where
  "simplifySunkTerms hasBeginningOfLineAssertion sunkTerms =
     (if sunkTerms = [] then Some []
      else do {
        dotStar \<leftarrow> canonicalDotStar;
        let ts = canonicalizeDotStars dotStar False sunkTerms;
        let us = (if \<not> hasBeginningOfLineAssertion \<and> \<not> isKnownToMatchAnyString (hd ts) then dotStar # ts else ts);
        Some (removeIrrelevantTerms (removeTrailingDotStarEnd us))
      })"

definition pattern_finalize :: "u64 \<Rightarrow> PatternParser \<Rightarrow> CombinedURLFilters \<Rightarrow> (PatternParser \<times> CombinedURLFilters) option" where
  "pattern_finalize patternId p filters =
     (if patternHasError p then Some (p, filters)
      else let q = sinkFloatingTermIfNecessary p
           in do {
             ts \<leftarrow> simplifySunkTerms (m_hasBeginningOfLineAssertion q) (m_sunkTerms q);
             let r = q\<lparr>m_sunkTerms := ts\<rparr>;
             Some (if \<not> list_ex matchesAtLeastOneCharacter ts then (pattern_fail MatchesEverything r, filters)
                   else (r, filters_addPattern patternId ts filters))
           })"

text \<open>\<^verbatim>\<open>isUnicode\<close> is false and the limit of back references 0; the properties of Unicode characters are not used for ASCII patterns.\<close>

definition filter_config :: "yarr_config \<Rightarrow> yarr_config" where
  "filter_config C = C\<lparr>m_isUnicode := False, m_backReferenceLimit := 0, isValidNamedForwardReference := \<lambda>_. False\<rparr>"

definition filters_parsePattern ::
  "yarr_config \<Rightarrow> wtf_string \<Rightarrow> bool \<Rightarrow> u64 \<Rightarrow> CombinedURLFilters \<Rightarrow> (ParseStatus \<times> CombinedURLFilters) option" where
  "filters_parsePattern C pattern patternIsCaseSensitive patternId filters =
     (if \<not> list_all (\<lambda>c. c < 128) (characters pattern) then Some (NonASCII, filters)
      else if characters pattern = [] then Some (EmptyPattern, filters)
      else do {
        y \<leftarrow> yarr_parse (filter_config C) (characters pattern);
        p \<leftarrow> run_delegate pattern_call (m_calls y) (PatternParser_initial patternIsCaseSensitive);
        if hasError y then Some (YarrError, filters)
        else do {
          (q, filters1) \<leftarrow> pattern_finalize patternId p filters;
          Some (m_parseStatus q, filters1)
        }
      })"

fun statusString :: "ParseStatus \<Rightarrow> string" where
  "statusString Ok = ''Ok''"
| "statusString MatchesEverything = ''Matches everything.''"
| "statusString NonASCII = ''Only ASCII characters are supported in pattern.''"
| "statusString UnsupportedCharacterClass = ''Character class is not supported.''"
| "statusString BackReference = ''Patterns cannot contain backreferences.''"
| "statusString ForwardReference = ''Patterns cannot contain forward references.''"
| "statusString MisplacedStartOfLine = ''Start of line assertion can only appear as the first term in a filter.''"
| "statusString WordBoundary = ''Word boundaries assertions are not supported yet.''"
| "statusString AtomCharacter = ''Builtins character class atoms are not supported yet.''"
| "statusString Group = ''Groups are not supported yet.''"
| "statusString DisjunctionStatus = ''Disjunctions are not supported yet.''"
| "statusString MisplacedEndOfLine = ''The end of line assertion must be the last term in an expression.''"
| "statusString EmptyPattern = ''Empty pattern.''"
| "statusString YarrError = ''Internal error in YARR.''"
| "statusString InvalidQuantifier = ''Arbitrary atom repetitions are not supported.''"

section \<open>The invariant of the delegate\<close>

text \<open>Terms without the character 0, which only the end of line has.\<close>

fun zero_free :: "Term \<Rightarrow> bool" where
  "zero_free (EmptyTerm q) = False"
| "zero_free (CharacterSetTerm s q) = (charset_get 0 s = Some False)"
| "zero_free (GroupTerm ts q) = list_all zero_free ts"

definition eol_term :: Term where
  "eol_term = CharacterSetTerm \<lparr>m_inverted = False, m_characters0 = 1, m_characters1 = 0\<rparr> One"

lemma eol_term: "Term_EndOfLineAssertion = Some eol_term"
  by (simp add: Term_EndOfLineAssertion_def charset_set_def CharacterSet_default_def eol_term_def)

lemma isEnd_eol [simp]: "isEndOfLineAssertion eol_term" "isValid eol_term" "\<not> zero_free eol_term" "\<not> matchesAtLeastOneCharacter eol_term"
proof -
  let ?s = "\<lparr>m_inverted = False, m_characters0 = 1, m_characters1 = 0\<rparr> :: CharacterSet"
  have "charset_get c ?s = Some True \<longleftrightarrow> c = 0" for c
    by (simp add: charset_get_bit bit_1_iff)
  then show "isEndOfLineAssertion eol_term" "isValid eol_term" "\<not> matchesAtLeastOneCharacter eol_term"
    by (simp_all add: eol_term_def charset_bitCount_card)
  show "\<not> zero_free eol_term" by (simp add: eol_term_def charset_get_bit bit_1_iff)
qed

lemma zero_free_not_end: "zero_free t \<Longrightarrow> \<not> isEndOfLineAssertion t"
  by (cases t) auto

text \<open>The terms of a pattern: the end of line only at the end.\<close>

definition terms_ok :: "Term list \<Rightarrow> bool" where
  "terms_ok ts \<longleftrightarrow> list_all zero_free ts \<or> (\<exists>us. ts = us @ [eol_term] \<and> list_all zero_free us)"

fun group_ok :: "Term \<Rightarrow> bool" where
  "group_ok (GroupTerm ts One) = list_all zero_free ts"
| "group_ok _ = False"

fun is_group :: "Term \<Rightarrow> bool" where
  "is_group (GroupTerm ts q) = True"
| "is_group _ = False"

text \<open>Before the end of line has been processed nothing that has been read has the character 0. Afterwards it is the last of the
  sunk terms, or it is in a group, and then every further term fails to sink.\<close>

definition parser_ok :: "PatternParser \<Rightarrow> bool" where
  "parser_ok p \<longleftrightarrow>
     (isValid (m_floatingTerm p) \<longrightarrow> zero_free (m_floatingTerm p) \<or> m_floatingTerm p = eol_term \<or> m_hasProcessedEndOfLineAssertion p) \<and>
     (if m_hasProcessedEndOfLineAssertion p
      then terms_ok (m_sunkTerms p) \<and> list_all is_group (m_openGroups p)
      else list_all zero_free (m_sunkTerms p) \<and> list_all group_ok (m_openGroups p))"

fun pattern_inv :: "call_state \<Rightarrow> PatternParser \<Rightarrow> bool" where
  "pattern_inv (Outside atom depth) p \<longleftrightarrow> patternHasError p \<or>
     parser_ok p \<and> length (m_openGroups p) = depth \<and> (atom \<longrightarrow> isValid (m_floatingTerm p) \<and> m_floatingTerm p \<noteq> eol_term)"
| "pattern_inv (InClass depth) p \<longleftrightarrow> patternHasError p \<or>
     parser_ok p \<and> length (m_openGroups p) = depth \<and> (\<exists>s. m_floatingTerm p = CharacterSetTerm s One \<and> charset_get 0 s = Some False)"

text \<open>The characters that the assertions of the code expect.\<close>

fun filter_call :: "delegate_call \<Rightarrow> bool" where
  "filter_call (AtomPatternCharacter c) = (0 < to_UChar c)"
| "filter_call (AtomCharacterClassAtom c) = (0 < c \<and> c < 128)"
| "filter_call (AtomCharacterClassRange a b) = (0 < a \<and> a \<le> b \<and> b < 128)"
| "filter_call _ = True"

lemma fail_error [simp]: "reason \<noteq> Ok \<Longrightarrow> patternHasError (pattern_fail reason p)"
  by (simp add: pattern_fail_def patternHasError_def)

lemma error_update [simp]: "patternHasError (p\<lparr>m_floatingTerm := t\<rparr>) = patternHasError p"
  "patternHasError (p\<lparr>m_openGroups := gs\<rparr>) = patternHasError p" "patternHasError (p\<lparr>m_sunkTerms := ts\<rparr>) = patternHasError p"
  by (simp_all add: patternHasError_def)

lemma Term_default_invalid [simp]: "\<not> isValid Term_default"
  by (simp add: Term_default_def)

lemma group_is_group: "group_ok g \<Longrightarrow> is_group g"
  by (cases g rule: group_ok.cases) auto

lemma extend_group: "is_group g \<Longrightarrow> is_group (extendGroupSubpattern t g)" "group_ok g \<Longrightarrow> zero_free t \<Longrightarrow> group_ok (extendGroupSubpattern t g)"
  by (cases g; simp) (cases g rule: group_ok.cases; simp)

text \<open>Sinking the floating term.\<close>

lemma sink_ok:
  assumes "parser_ok p" and "\<not> patternHasError p"
  shows "patternHasError (sinkFloatingTermIfNecessary p) \<or>
    parser_ok (sinkFloatingTermIfNecessary p) \<and> \<not> isValid (m_floatingTerm (sinkFloatingTermIfNecessary p)) \<and>
    length (m_openGroups (sinkFloatingTermIfNecessary p)) = length (m_openGroups p)"
proof (cases "isValid (m_floatingTerm p) \<and> \<not> m_hasProcessedEndOfLineAssertion p")
  case False
  then show ?thesis using assms by (auto simp: sinkFloatingTermIfNecessary_def)
next
  case True
  then have ok: "zero_free (m_floatingTerm p) \<or> m_floatingTerm p = eol_term" "list_all zero_free (m_sunkTerms p)" "list_all group_ok (m_openGroups p)"
    using assms(1) by (auto simp: parser_ok_def)
  have gs: "list_all is_group (m_openGroups p)" using ok(3) group_is_group by (auto simp: list_all_iff)
  show ?thesis
  proof (cases "m_openGroups p" rule: rev_cases)
    case Nil
    then show ?thesis using True ok zero_free_not_end
      by (auto simp: sinkFloatingTermIfNecessary_def parser_ok_def terms_ok_def Let_def)
  next
    case (snoc hs g)
    then show ?thesis using True ok gs zero_free_not_end extend_group
      by (auto simp: sinkFloatingTermIfNecessary_def parser_ok_def terms_ok_def Let_def)
  qed
qed

text \<open>The terms of atoms.\<close>

lemma case_range: "0 < c \<Longrightarrow> c < 128 \<Longrightarrow> 0 < toASCIIUpper c \<and> toASCIIUpper c < 128 \<and> 0 < toASCIILower c \<and> toASCIILower c < 128"
  by (auto simp: toASCIIUpper_eq toASCIILower_eq isASCIIUpper_def isASCIILower_def)

lemma charset_set_zero:
  assumes "0 < c" "c < 128"
  obtains s' where "charset_set c s = Some s'" "charset_get 0 s' = charset_get 0 s" "m_inverted s' = m_inverted s"
proof -
  obtain s' where s': "charset_set c s = Some s'" using charset_set_total [OF assms(2)] by blast
  show thesis using that [OF s'] charset_set_get(1) [OF s', of 0] charset_set_get(2) [OF s'] assms(1) by simp
qed

lemma addCharacter_zero:
  assumes "0 < c" "c < 128"
  shows "\<exists>s'. addCharacter c b (CharacterSetTerm s q) = Some (CharacterSetTerm s' q) \<and> charset_get 0 s' = charset_get 0 s"
proof -
  have r: "0 < toASCIIUpper c" "toASCIIUpper c < 128" "0 < toASCIILower c" "toASCIILower c < 128" using case_range [OF assms] by auto
  obtain s1 where s1: "charset_set c s = Some s1" "charset_get 0 s1 = charset_get 0 s" using charset_set_zero [OF assms] .
  obtain s2 where s2: "charset_set (toASCIIUpper c) s = Some s2" "charset_get 0 s2 = charset_get 0 s" using charset_set_zero [OF r(1,2)] .
  obtain s3 where s3: "charset_set (toASCIILower c) s2 = Some s3" "charset_get 0 s3 = charset_get 0 s2" using charset_set_zero [OF r(3,4)] .
  show ?thesis using s1 s2 s3 by auto
qed

lemma addCharacters_zero:
  "list_all (\<lambda>c. 0 < c \<and> c < 128) cs \<Longrightarrow> \<exists>s'. addCharacters cs b (CharacterSetTerm s q) = Some (CharacterSetTerm s' q) \<and> charset_get 0 s' = charset_get 0 s"
proof (induction cs arbitrary: s)
  case (Cons c cs)
  obtain s1 where "addCharacter c b (CharacterSetTerm s q) = Some (CharacterSetTerm s1 q)" "charset_get 0 s1 = charset_get 0 s"
    using addCharacter_zero [of c b s q] Cons.prems by auto
  then show ?case using Cons.IH [of s1] Cons.prems by auto
qed simp

lemma charset_default_zero: "charset_get 0 CharacterSet_default = Some False" "charset_get 0 (charset_invert CharacterSet_default) = Some False"
  by (simp_all add: charset_get_def CharacterSet_default_def charset_invert_def)

lemma Term_character_zero: "0 < c \<Longrightarrow> c < 128 \<Longrightarrow> \<exists>t. Term_character c b = Some t \<and> zero_free t \<and> isValid t"
  using addCharacter_zero [of c b CharacterSet_default One] by (auto simp: Term_character_def charset_default_zero)

lemma charset_set_all_get:
  "list_all (\<lambda>c. c < 128) cs \<Longrightarrow> \<exists>s'. charset_set_all cs s = Some s' \<and> m_inverted s' = m_inverted s \<and>
    (\<forall>c. charset_get c s' = (if c \<in> set cs then Some True else charset_get c s))"
proof (induction cs arbitrary: s)
  case (Cons c cs)
  then obtain s1 where s1: "charset_set c s = Some s1" using charset_set_total by fastforce
  obtain s' where "charset_set_all cs s1 = Some s'" "m_inverted s' = m_inverted s1"
    "\<forall>d. charset_get d s' = (if d \<in> set cs then Some True else charset_get d s1)"
    using Cons.IH [of s1] Cons.prems by auto
  then show ?case using s1 charset_set_get [OF s1] by auto
qed simp

definition universal_term :: Term where
  "universal_term = the Term_UniversalTransition"

lemma universal_term:
  "Term_UniversalTransition = Some universal_term"
  "\<exists>s. universal_term = CharacterSetTerm s One \<and> (\<forall>c. charset_has s c \<longleftrightarrow> 0 < c \<and> c < 128) \<and> charset_get 0 s = Some False"
proof -
  define cs :: "nat list" where "cs = [1 ..< 128]"
  have mem: "c \<in> set cs \<longleftrightarrow> 0 < c \<and> c < 128" for c by (auto simp: cs_def)
  have "list_all (\<lambda>c. c < 128) cs" by (simp add: list_all_iff mem)
  then obtain s where s: "charset_set_all cs CharacterSet_default = Some s" "m_inverted s = m_inverted CharacterSet_default"
    "\<forall>c. charset_get c s = (if c \<in> set cs then Some True else charset_get c CharacterSet_default)"
    using charset_set_all_get by blast
  have d: "charset_get c CharacterSet_default \<noteq> Some True" for c by (simp add: charset_get_def CharacterSet_default_def)
  have u: "Term_UniversalTransition = Some (CharacterSetTerm s One)"
    unfolding Term_UniversalTransition_def cs_def [symmetric] s(1) by simp
  have z: "charset_get 0 s = Some False" using s(3) [rule_format, of 0] charset_default_zero(1) mem by simp
  have "\<not> m_inverted s" using s(2) by (simp add: CharacterSet_default_def)
  then have h: "charset_has s c \<longleftrightarrow> 0 < c \<and> c < 128" for c using s(3) [rule_format, of c] d [of c] mem [of c] by (simp add: charset_has_def)
  have e: "universal_term = CharacterSetTerm s One" unfolding universal_term_def u by simp
  show "Term_UniversalTransition = Some universal_term" unfolding e u by simp
  show "\<exists>s. universal_term = CharacterSetTerm s One \<and> (\<forall>c. charset_has s c \<longleftrightarrow> 0 < c \<and> c < 128) \<and> charset_get 0 s = Some False"
    using e z h by blast
qed

lemma quantify_zero: "zero_free t \<Longrightarrow> zero_free (quantify q t) \<and> isValid (quantify q t)"
  by (cases t) auto

lemma float_ok:
  assumes "parser_ok p" and "\<not> patternHasError p" and "t = Some u" and "zero_free u \<or> u = eol_term"
  shows "\<exists>q. float t (sinkFloatingTermIfNecessary p) = Some q \<and> (patternHasError q \<or> parser_ok q \<and> length (m_openGroups q) = length (m_openGroups p) \<and> m_floatingTerm q = u)"
  using sink_ok [OF assms(1,2)] assms(3,4) by (auto simp: float_def parser_ok_def)

lemma zero_free_valid: "zero_free t \<Longrightarrow> isValid t" "zero_free t \<Longrightarrow> t \<noteq> eol_term"
  by (cases t; simp) auto

lemma open_group_last: "length gs > 0 \<Longrightarrow> list_all P gs \<Longrightarrow> P (last gs) \<and> list_all P (butlast gs)"
  by (cases gs rule: rev_cases) auto

lemma group_floats: "is_group g \<Longrightarrow> isValid g \<and> g \<noteq> eol_term" "group_ok g \<Longrightarrow> zero_free g"
  by (cases g; simp add: eol_term_def) (cases g rule: group_ok.cases; simp)

lemma groups_are_groups: "list_all group_ok gs \<Longrightarrow> list_all is_group gs"
  by (auto simp: list_all_iff group_is_group)

lemma parser_ok_groups: "parser_ok p \<Longrightarrow> list_all is_group (m_openGroups p)"
  by (auto simp: parser_ok_def groups_are_groups split: if_splits)

lemma parenthesesEnd_ok:
  assumes "parser_ok p" and "\<not> patternHasError p" and "length (m_openGroups p) = Suc d"
  shows "pattern_inv (Outside True d) (pattern_atomParenthesesEnd p)"
proof (cases "patternHasError (sinkFloatingTermIfNecessary p)")
  case True
  then show ?thesis using assms(2) by (simp add: pattern_atomParenthesesEnd_def Let_def)
next
  case False
  let ?q = "sinkFloatingTermIfNecessary p"
  have q: "parser_ok ?q" "\<not> isValid (m_floatingTerm ?q)" "length (m_openGroups ?q) = Suc d"
    using sink_ok [OF assms(1,2)] False assms(3) by auto
  have g: "is_group (last (m_openGroups ?q))" "list_all is_group (butlast (m_openGroups ?q))"
    using open_group_last [OF _ parser_ok_groups [OF q(1)]] q(3) by simp_all
  have h: "group_ok (last (m_openGroups ?q)) \<and> list_all group_ok (butlast (m_openGroups ?q))" if "\<not> m_hasProcessedEndOfLineAssertion ?q"
    using open_group_last [of "m_openGroups ?q" group_ok] q(1,3) that by (simp add: parser_ok_def)
  show ?thesis using assms(2) False q(1,3) g h group_floats [of "last (m_openGroups ?q)"]
    by (auto simp: pattern_atomParenthesesEnd_def Let_def parser_ok_def)
qed

lemma parenthesesBegin_ok:
  assumes "parser_ok p" and "\<not> patternHasError p"
  shows "pattern_inv (Outside False (Suc (length (m_openGroups p)))) (pattern_atomParenthesesSubpatternBegin p)"
  using sink_ok [OF assms] assms(2)
  by (auto simp: pattern_atomParenthesesSubpatternBegin_def Let_def parser_ok_def Term_Group_def)

lemma quantifyAtom_ok:
  assumes "parser_ok p" and "\<not> patternHasError p" and "isValid (m_floatingTerm p)" "m_floatingTerm p \<noteq> eol_term"
  shows "pattern_inv (Outside False (length (m_openGroups p))) (pattern_quantifyAtom m n p)"
proof -
  have "zero_free (m_floatingTerm p) \<or> m_hasProcessedEndOfLineAssertion p" using assms by (auto simp: parser_ok_def)
  then have "parser_ok (p\<lparr>m_floatingTerm := quantify x (m_floatingTerm p)\<rparr>)" for x
    using assms(1) quantify_zero [of "m_floatingTerm p"] by (auto simp: parser_ok_def)
  then show ?thesis using assms(2) by (simp add: pattern_quantifyAtom_def)
qed

lemma assertionBOL_ok:
  assumes "parser_ok p" and "\<not> patternHasError p"
  shows "pattern_inv (Outside False (length (m_openGroups p))) (pattern_assertionBOL p)"
proof -
  have "parser_ok (p\<lparr>m_hasBeginningOfLineAssertion := True\<rparr>)" using assms(1) by (simp add: parser_ok_def)
  then show ?thesis using assms(2) by (simp add: pattern_assertionBOL_def)
qed

lemma assertionEOL_ok:
  assumes "parser_ok p" and "\<not> patternHasError p"
  shows "\<exists>q. pattern_assertionEOL p = Some q \<and> pattern_inv (Outside False (length (m_openGroups p))) q"
  using float_ok [OF assms eol_term] assms(2) by (auto simp: pattern_assertionEOL_def)

lemma patternCharacter_inv:
  assumes "parser_ok p" and "\<not> patternHasError p" and "0 < c"
  shows "\<exists>q. pattern_atomPatternCharacter c p = Some q \<and> pattern_inv (Outside True (length (m_openGroups p))) q"
proof (cases "c < 128")
  case True
  obtain t where t: "Term_character c (m_patternIsCaseSensitive p) = Some t" "zero_free t" using Term_character_zero [OF assms(3) True] by blast
  show ?thesis using float_ok [OF assms(1,2) t(1)] t(2) zero_free_valid [OF t(2)] True assms(2)
    by (auto simp: pattern_atomPatternCharacter_def)
qed (use assms(2) in \<open>simp add: pattern_atomPatternCharacter_def\<close>)

lemma universal_zero_free: "zero_free universal_term"
proof -
  obtain s where s: "universal_term = CharacterSetTerm s One" "charset_get 0 s = Some False" using universal_term(2) by blast
  show ?thesis unfolding s(1) zero_free.simps by (rule s(2))
qed

lemma builtIn_inv:
  assumes "parser_ok p" and "\<not> patternHasError p"
  shows "\<exists>q. pattern_atomBuiltInCharacterClass i b p = Some q \<and> pattern_inv (Outside True (length (m_openGroups p))) q"
proof (cases "i = DotClassID \<and> \<not> b")
  case True
  obtain q where q: "float Term_UniversalTransition (sinkFloatingTermIfNecessary p) = Some q"
    "patternHasError q \<or> parser_ok q \<and> length (m_openGroups q) = length (m_openGroups p) \<and> m_floatingTerm q = universal_term"
    using float_ok [OF assms universal_term(1)] universal_zero_free by blast
  have "pattern_inv (Outside True (length (m_openGroups p))) q" using q(2) zero_free_valid [OF universal_zero_free] by auto
  then show ?thesis using q(1) True assms(2) by (simp add: pattern_atomBuiltInCharacterClass_def Let_def)
next
  case False
  have "pattern_atomBuiltInCharacterClass i b p = Some (pattern_fail UnsupportedCharacterClass (sinkFloatingTermIfNecessary p))"
    unfolding pattern_atomBuiltInCharacterClass_def Let_def if_not_P [OF assms(2)] if_not_P [OF False] by (rule refl)
  then show ?thesis by simp
qed

lemma classBegin_inv:
  assumes "parser_ok p" and "\<not> patternHasError p"
  shows "\<exists>q. pattern_atomCharacterClassBegin b p = Some q \<and> pattern_inv (InClass (length (m_openGroups p))) q"
proof -
  have "zero_free (Term_CharacterSet b)" "\<exists>s. Term_CharacterSet b = CharacterSetTerm s One \<and> charset_get 0 s = Some False"
    by (simp_all add: Term_CharacterSet_def charset_default_zero)
  then show ?thesis using float_ok [OF assms refl, of "Term_CharacterSet b"] assms(2)
    by (auto simp: pattern_atomCharacterClassBegin_def)
qed

text \<open>Within a class.\<close>

lemma class_float:
  assumes "parser_ok p" and "\<not> patternHasError p" and "f (m_floatingTerm p) = Some (CharacterSetTerm s One)" and "charset_get 0 s = Some False"
  shows "\<exists>q. float (f (m_floatingTerm p)) p = Some q \<and> pattern_inv (InClass (length (m_openGroups p))) q"
  using assms by (simp add: float_def parser_ok_def)

lemma classAtom_inv:
  assumes "parser_ok p" and "\<not> patternHasError p" and "m_floatingTerm p = CharacterSetTerm s One" and "charset_get 0 s = Some False" and "0 < c" "c < 128"
  shows "\<exists>q. pattern_atomCharacterClassAtom c p = Some q \<and> pattern_inv (InClass (length (m_openGroups p))) q"
proof -
  obtain s' where "addCharacter c (m_patternIsCaseSensitive p) (m_floatingTerm p) = Some (CharacterSetTerm s' One)" "charset_get 0 s' = Some False"
    using addCharacter_zero [OF assms(5,6), of "m_patternIsCaseSensitive p" s One] assms(3,4) by auto
  then show ?thesis using class_float [OF assms(1,2), of "addCharacter c (m_patternIsCaseSensitive p)"] assms(2)
    by (simp add: pattern_atomCharacterClassAtom_def)
qed

lemma classRange_inv:
  assumes "parser_ok p" and "\<not> patternHasError p" and "m_floatingTerm p = CharacterSetTerm s One" and "charset_get 0 s = Some False"
    and "0 < a" "b < 128"
  shows "\<exists>q. pattern_atomCharacterClassRange a b p = Some q \<and> pattern_inv (InClass (length (m_openGroups p))) q"
proof -
  have "list_all (\<lambda>c. 0 < c \<and> c < 128) [a ..< b + 1]" using assms(5,6) by (auto simp: list_all_iff)
  then obtain s' where "addCharacters [a ..< b + 1] (m_patternIsCaseSensitive p) (m_floatingTerm p) = Some (CharacterSetTerm s' One)"
      "charset_get 0 s' = Some False"
    using addCharacters_zero [of "[a ..< b + 1]" "m_patternIsCaseSensitive p" s One] assms(3,4) by auto
  then show ?thesis using class_float [OF assms(1,2), of "addCharacters [a ..< b + 1] (m_patternIsCaseSensitive p)"] assms(2)
    by (simp add: pattern_atomCharacterClassRange_def del: upt_Suc)
qed

text \<open>The delegate keeps the contract of the parser.\<close>

lemma pattern_call_error:
  assumes "patternHasError p"
  shows "pattern_call c p = Some p"
  using assms
  by (cases c) (auto simp: pattern_assertionBOL_def pattern_assertionEOL_def pattern_fail_def pattern_atomPatternCharacter_def
      pattern_atomBuiltInCharacterClass_def pattern_atomCharacterClassBegin_def pattern_atomCharacterClassAtom_def pattern_atomCharacterClassRange_def
      pattern_atomParenthesesSubpatternBegin_def pattern_atomParenthesesEnd_def pattern_quantifyAtom_def)

lemma pattern_inv_error: "patternHasError p \<Longrightarrow> pattern_inv st p"
  by (cases st) simp_all

lemma pattern_call_outside:
  assumes "pattern_inv (Outside atom d) p" and "\<not> patternHasError p" and "call_step c (Outside atom d) = Some st'" and "filter_call c"
  shows "\<exists>q. pattern_call c p = Some q \<and> pattern_inv st' q"
proof -
  have ok: "parser_ok p" "d = length (m_openGroups p)" using assms(1,2) by auto
  show ?thesis
  proof (cases c)
    case AssertionBOL
    then show ?thesis using assertionBOL_ok [OF ok(1) assms(2)] assms(3,4) ok(2) by (simp del: pattern_inv.simps add: pattern_inv_error)
  next
    case AssertionEOL
    then show ?thesis using assertionEOL_ok [OF ok(1) assms(2)] assms(3,4) ok(2) by (simp del: pattern_inv.simps add: pattern_inv_error)
  next
    case (AtomPatternCharacter x)
    then show ?thesis using patternCharacter_inv [OF ok(1) assms(2), of "to_UChar x"] assms(3,4) ok(2) by (simp del: pattern_inv.simps add: pattern_inv_error)
  next
    case (AtomBuiltInCharacterClass i b)
    then show ?thesis using builtIn_inv [OF ok(1) assms(2), of i b] assms(3,4) ok(2) by (simp del: pattern_inv.simps add: pattern_inv_error)
  next
    case (AtomCharacterClassBegin b)
    then show ?thesis using classBegin_inv [OF ok(1) assms(2), of b] assms(3,4) ok(2) by (simp del: pattern_inv.simps add: pattern_inv_error)
  next
    case (AtomParenthesesSubpatternBegin b n)
    then show ?thesis using parenthesesBegin_ok [OF ok(1) assms(2)] assms(3,4) ok(2) by (simp del: pattern_inv.simps add: pattern_inv_error)
  next
    case AtomParenthesesEnd
    then have "length (m_openGroups p) = Suc (d - 1)" "st' = Outside True (d - 1)" using assms(3) ok(2) by (auto split: if_splits)
    then show ?thesis using AtomParenthesesEnd parenthesesEnd_ok [OF ok(1) assms(2)] by (simp del: pattern_inv.simps)
  next
    case (QuantifyAtom m n g)
    then have "atom" "st' = Outside False d" using assms(3) by (auto split: if_splits)
    then show ?thesis using QuantifyAtom quantifyAtom_ok [OF ok(1) assms(2), of m n] assms(1,2) ok(2) by (simp del: pattern_inv.simps) simp
  qed (use assms(3) in \<open>simp_all del: pattern_inv.simps add: pattern_inv_error\<close>)
qed

lemma pattern_call_class:
  assumes "pattern_inv (InClass d) p" and "\<not> patternHasError p" and "call_step c (InClass d) = Some st'" and "filter_call c"
  shows "\<exists>q. pattern_call c p = Some q \<and> pattern_inv st' q"
proof -
  obtain s where ok: "parser_ok p" "d = length (m_openGroups p)" "m_floatingTerm p = CharacterSetTerm s One" "charset_get 0 s = Some False"
    using assms(1,2) by auto
  have u: "to_UChar x = x" if "x < 128" for x using that by (simp add: to_UChar_def)
  show ?thesis
  proof (cases c)
    case (AtomCharacterClassAtom x)
    then show ?thesis using classAtom_inv [OF ok(1) assms(2) ok(3,4), of x] assms(3,4) ok(2) u by (simp del: pattern_inv.simps)
  next
    case (AtomCharacterClassRange a b)
    then show ?thesis using classRange_inv [OF ok(1) assms(2) ok(3,4), of a b] assms(3,4) ok(2) u by (simp del: pattern_inv.simps)
  next
    case AtomCharacterClassEnd
    then show ?thesis using assms(3) ok by (auto simp: eol_term_def charset_get_bit bit_1_iff)
  qed (use assms(3) in \<open>simp_all del: pattern_inv.simps add: pattern_inv_error\<close>)
qed

interpretation pattern: yarr_delegate pattern_call pattern_inv filter_call
proof
  fix st p c st'
  assume inv: "pattern_inv st p" and "call_step c st = Some st'" "filter_call c"
  then show "\<exists>q. pattern_call c p = Some q \<and> pattern_inv st' q"
    using pattern_call_outside pattern_call_class pattern_call_error pattern_inv_error
    by (cases "patternHasError p"; cases st) blast+
qed

end
