(* ===== verification/Filter_Semantics.thy ===== *)
theory Filter_Semantics
  imports Url_Filter_Parser
begin

text \<open>
  What the terms of a filter match. A URL is a string of the characters 1 to 127 that ends with the character 0; a pattern matches it
  if a word of the language of its terms is a prefix. The simplification of the terms keeps what they match.
\<close>

section \<open>Languages without the character 0\<close>

definition url_word :: "nat list \<Rightarrow> bool" where
  "url_word w \<longleftrightarrow> list_all (\<lambda>c. 0 < c \<and> c < 128) w"

abbreviation url_words :: lang where
  "url_words \<equiv> Collect url_word"

definition pattern_matches :: "Term list \<Rightarrow> nat list \<Rightarrow> bool" where
  "pattern_matches ts u \<longleftrightarrow> (\<exists>w v. w \<in> terms_lang ts \<and> w @ v = u @ [0])"

lemma url_word_simps [simp]: "url_word []" "url_word (u @ v) \<longleftrightarrow> url_word u \<and> url_word v" "url_word (c # w) \<longleftrightarrow> 0 < c \<and> c < 128 \<and> url_word w"
  by (simp_all add: url_word_def)

lemma conc_words: "K \<subseteq> url_words \<Longrightarrow> L \<subseteq> url_words \<Longrightarrow> conc K L \<subseteq> url_words"
  by (auto simp: conc_def)

lemma star_words:
  assumes "L \<subseteq> url_words"
  shows "star L \<subseteq> url_words"
proof
  fix w assume "w \<in> star L"
  then show "w \<in> url_words" by (induction rule: star.induct) (use assms in auto)
qed

lemma quantified_words: "L \<subseteq> url_words \<Longrightarrow> quantified q L \<subseteq> url_words"
  by (cases q) (auto dest: star_words conc_words [OF _ star_words])

lemma zero_free_words: "zero_free t \<Longrightarrow> term_lang t \<subseteq> url_words"
proof (induction t)
  case (CharacterSetTerm s q)
  have "0 < c \<and> c < 128" if "charset_has s c" for c
    using that CharacterSetTerm charset_has_less [OF that] by (cases c) (auto simp: charset_has_def split: if_splits)
  then have "atom_lang (CharacterSetTerm s q) \<subseteq> url_words" by auto
  then show ?case unfolding term_lang_def by (rule quantified_words)
next
  case (GroupTerm ts q)
  then have "terms_lang ts \<subseteq> url_words" by (induction ts) (simp_all add: conc_words)
  then show ?case unfolding term_lang_Group by (rule quantified_words)
qed simp

lemma terms_words: "list_all zero_free ts \<Longrightarrow> terms_lang ts \<subseteq> url_words"
  by (induction ts) (simp_all add: conc_words zero_free_words)

lemma known_lang: "isKnownToMatchAnyString t \<Longrightarrow> zero_free t \<Longrightarrow> term_lang t = url_words"
  using known_to_match_any [of t] zero_free_words [of t] by (auto simp: url_word_def list_all_iff)

lemma conc_assoc: "conc (conc J K) L = conc J (conc K L)"
  by (auto simp: conc_def) (metis append.assoc)+

lemma conc_words_idem [simp]: "conc url_words (conc url_words L) = conc url_words L"
proof -
  have "conc url_words url_words = url_words" by (auto simp: conc_def) (metis append_Nil url_word_simps(1))
  then show ?thesis by (simp flip: conc_assoc)
qed

lemma Nil_in_star [simp]: "[] \<in> star L"
  by (rule star_Nil)

lemma may_be_empty: "zero_free t \<Longrightarrow> \<not> matchesAtLeastOneCharacter t \<Longrightarrow> [] \<in> term_lang t"
proof (induction t)
  case (CharacterSetTerm s q)
  then show ?case by (cases q) (auto simp: term_lang_def)
next
  case (GroupTerm ts q)
  have "[] \<in> terms_lang ts" if "\<not> list_ex matchesAtLeastOneCharacter ts"
    using that GroupTerm(1) GroupTerm.prems(1) by (induction ts) (auto simp: conc_Nil_iff)
  then show ?case using GroupTerm.prems(2) by (cases q) (auto simp: term_lang_Group conc_Nil_iff)
qed simp

lemma eol_lang [simp]: "term_lang eol_term = {[0]}"
proof -
  have "charset_has \<lparr>m_inverted = False, m_characters0 = 1, m_characters1 = 0\<rparr> c \<longleftrightarrow> c = 0" for c
    by (auto simp: charset_has_def charset_get_bit bit_1_iff)
  then show ?thesis by (simp add: eol_term_def term_lang_def)
qed

lemma eol_not_known [simp]: "\<not> isKnownToMatchAnyString eol_term"
  by (simp add: eol_term_def)

section \<open>The canonical dot star\<close>

definition dot_star :: Term where
  "dot_star = quantify ZeroOrMore universal_term"

lemma canonicalDotStar_eq: "canonicalDotStar = Some dot_star"
  by (simp add: canonicalDotStar_def universal_term(1) dot_star_def)

lemma dot_star_zero_free: "zero_free dot_star"
  using quantify_zero [OF universal_zero_free] by (simp add: dot_star_def)

lemma dot_star_lang [simp]: "term_lang dot_star = url_words"
proof -
  obtain s where s: "universal_term = CharacterSetTerm s One" "\<forall>c. charset_has s c \<longleftrightarrow> 0 < c \<and> c < 128" using universal_term(2) by blast
  have d: "dot_star = CharacterSetTerm s ZeroOrMore" unfolding dot_star_def s(1) by simp
  have "w \<in> term_lang dot_star" if "url_word w" for w
    using that s(2) unfolding d by (auto simp: term_lang_def url_word_def list_all_iff intro!: star_all)
  then show ?thesis using zero_free_words [OF dot_star_zero_free] by auto
qed

lemma dot_star_known [simp]: "isKnownToMatchAnyString dot_star"
proof -
  obtain s where s: "universal_term = CharacterSetTerm s One" "\<forall>c. charset_has s c \<longleftrightarrow> 0 < c \<and> c < 128" "charset_get 0 s = Some False"
    using universal_term(2) by blast
  have d: "dot_star = CharacterSetTerm s ZeroOrMore" unfolding dot_star_def s(1) by simp
  show ?thesis
  proof (cases "m_inverted s")
    case True
    have "charset_get c s \<noteq> Some True" for c
      using s(2) [rule_format, of c] s(3) charset_get_domain [of c s True] True by (cases "c = 0") (auto simp: charset_has_def)
    then show ?thesis using True by (simp add: d charset_bitCount_card)
  next
    case False
    then have "charset_get c s = Some True \<longleftrightarrow> c \<in> {1 ..< 128}" for c using s(2) [rule_format, of c] by (auto simp: charset_has_def)
    then have "{c. charset_get c s = Some True} = {1 ..< 128}" by blast
    then show ?thesis using False s(3) by (simp add: d charset_bitCount_card)
  qed
qed

section \<open>Simplification\<close>

lemma terms_ok_hd: "terms_ok (t # ts) \<Longrightarrow> zero_free t \<and> terms_ok ts \<or> t = eol_term \<and> ts = []"
  by (auto simp: terms_ok_def Cons_eq_append_conv)

lemma canonicalize_lang:
  "terms_ok ts \<Longrightarrow> (if b then conc url_words (terms_lang (canonicalizeDotStars dot_star b ts)) = conc url_words (terms_lang ts)
     else terms_lang (canonicalizeDotStars dot_star b ts) = terms_lang ts)"
proof (induction ts arbitrary: b)
  case (Cons t ts)
  have ok: "terms_ok ts" "isKnownToMatchAnyString t \<Longrightarrow> zero_free t"
    using terms_ok_hd [OF Cons.prems] by (auto simp: terms_ok_def)
  show ?case
  proof (cases "isKnownToMatchAnyString t")
    case True
    then show ?thesis using Cons.IH [OF ok(1), of True] known_lang ok(2) by auto
  next
    case False
    then show ?thesis using Cons.IH [OF ok(1), of False] by auto
  qed
qed simp

lemma canonicalize_ok:
  assumes "terms_ok ts"
  shows "terms_ok (canonicalizeDotStars dot_star b ts)"
proof -
  have z: "list_all zero_free (canonicalizeDotStars dot_star b us)" if "list_all zero_free us" for us b
    using that by (induction us arbitrary: b) (auto simp: dot_star_zero_free)
  have e: "canonicalizeDotStars dot_star b (us @ [eol_term]) = canonicalizeDotStars dot_star b us @ [eol_term]" for us b
    by (induction us arbitrary: b) auto
  show ?thesis using assms z e unfolding terms_ok_def by metis
qed

lemma canonicalize_Nil: "canonicalizeDotStars dot_star False ts = [] \<longleftrightarrow> ts = []"
  by (cases ts) auto

lemma terms_ok_Cons: "zero_free t \<Longrightarrow> terms_ok ts \<Longrightarrow> terms_ok (t # ts)"
  unfolding terms_ok_def by (metis append_Cons list.pred_inject(2))

lemma terms_ok_take: "terms_ok ts \<Longrightarrow> n < length ts \<Longrightarrow> list_all zero_free (take n ts)"
  by (auto simp: terms_ok_def list_all_iff) (meson in_set_takeD)+

text \<open>A pattern behind a dot star matches if it matches at some position.\<close>

lemma dot_star_matches:
  assumes "url_word u"
  shows "(\<exists>w v. w \<in> conc url_words (terms_lang ts) \<and> w @ v = u @ [0]) \<longleftrightarrow> (\<exists>k \<le> length u. pattern_matches ts (drop k u))"
proof
  assume "\<exists>w v. w \<in> conc url_words (terms_lang ts) \<and> w @ v = u @ [0]"
  then obtain x y v where xy: "url_word x" "y \<in> terms_lang ts" "x @ y @ v = u @ [0]" by (auto simp: conc_def)
  have l: "length x \<le> length u"
  proof (rule ccontr)
    assume "\<not> length x \<le> length u"
    then have "x = u @ [0]" using xy(3) by (auto simp: append_eq_append_conv2 append_eq_Cons_conv)
    then show False using xy(1) by simp
  qed
  then have "y @ v = drop (length x) u @ [0]" using arg_cong [OF xy(3), of "drop (length x)"] by simp
  then show "\<exists>k \<le> length u. pattern_matches ts (drop k u)" using l xy(2) unfolding pattern_matches_def by blast
next
  assume "\<exists>k \<le> length u. pattern_matches ts (drop k u)"
  then obtain k y v where k: "k \<le> length u" "y \<in> terms_lang ts" "y @ v = drop k u @ [0]" unfolding pattern_matches_def by blast
  have "url_word (take k u)" using assms by (metis append_take_drop_id url_word_simps(2))
  then have "take k u @ y \<in> conc url_words (terms_lang ts)" using k(2) by (auto simp: conc_def)
  moreover have "(take k u @ y) @ v = u @ [0]" using k(3) by (metis append.assoc append_take_drop_id)
  ultimately show "\<exists>w v. w \<in> conc url_words (terms_lang ts) \<and> w @ v = u @ [0]" by blast
qed

lemma removeTrailing_matches:
  assumes "terms_ok ts" and "url_word u"
  shows "pattern_matches (removeTrailingDotStarEnd ts) u \<longleftrightarrow> pattern_matches ts u"
proof (cases "length ts > 2 \<and> isEndOfLineAssertion (last ts) \<and> isKnownToMatchAnyString (ts ! (length ts - 2))")
  case True
  obtain xs e where xs: "ts = xs @ [e]" using True by (cases ts rule: rev_cases) auto
  obtain us t where us: "xs = us @ [t]" using True xs by (cases xs rule: rev_cases) auto
  note ts = xs [unfolded us, simplified]
  have e: "e = eol_term" "list_all zero_free us" "zero_free t"
    using assms(1) True ts zero_free_not_end [of e] by (auto simp: terms_ok_def)
  have t: "isKnownToMatchAnyString t" using True ts by (simp add: nth_append)
  have r: "removeTrailingDotStarEnd ts = us" using True ts by (simp add: removeTrailingDotStarEnd_def)
  have l: "terms_lang ts = conc (terms_lang us) (conc url_words {[0]})" using ts e t by (simp add: terms_lang_append known_lang)
  have "pattern_matches us u" if "pattern_matches ts u"
    using that unfolding pattern_matches_def l conc_def by fastforce
  moreover have "pattern_matches ts u" if pm: "pattern_matches us u"
  proof -
    obtain w v where w: "w \<in> terms_lang us" "w @ v = u @ [0]" using pm unfolding pattern_matches_def by blast
    have "url_word w" using terms_words [OF e(2)] w(1) by blast
    then obtain v' where v: "v = v' @ [0]" "w @ v' = u" using w(2)
      by (cases v rule: rev_cases) auto
    then have "url_word v'" using assms(2) by auto
    then have "w @ v' @ [0] \<in> terms_lang ts" using w(1) unfolding l conc_def by blast
    then show ?thesis using v unfolding pattern_matches_def by (intro exI [of _ "w @ v' @ [0]"] exI [of _ "[]"]) simp
  qed
  ultimately show ?thesis using r by blast
qed (auto simp: removeTrailingDotStarEnd_def)

lemma append_empty_matches:
  assumes "[] \<in> term_lang t"
  shows "pattern_matches (ts @ [t]) u \<longleftrightarrow> pattern_matches ts u"
proof
  assume "pattern_matches (ts @ [t]) u"
  then show "pattern_matches ts u" by (fastforce simp: pattern_matches_def terms_lang_append conc_def)
next
  assume "pattern_matches ts u"
  then show "pattern_matches (ts @ [t]) u" using assms unfolding pattern_matches_def terms_lang_append conc_def by fastforce
qed

lemma removeIrrelevant_matches:
  assumes "terms_ok ts" and "ts \<noteq> []"
  shows "pattern_matches (removeIrrelevantTerms ts) u \<longleftrightarrow> pattern_matches ts u"
proof (cases "isEndOfLineAssertion (last ts)")
  case False
  have z: "list_all zero_free ts" using assms False by (auto simp: terms_ok_def)
  have "pattern_matches (rev (dropWhile (\<lambda>t. \<not> matchesAtLeastOneCharacter t) us)) u \<longleftrightarrow> pattern_matches (rev us) u" if "list_all zero_free us" for us
    using that by (induction us) (auto simp: append_empty_matches may_be_empty)
  then show ?thesis using False z by (simp add: removeIrrelevantTerms_def)
qed (simp add: removeIrrelevantTerms_def)

text \<open>The simplified terms match where the pattern does: at the beginning if it has the assertion for that, otherwise anywhere.\<close>

lemma simplify_matches:
  assumes "terms_ok ts" and "ts \<noteq> []" and "url_word u"
  shows "\<exists>us. simplifySunkTerms bol ts = Some us \<and> (pattern_matches us u \<longleftrightarrow> (\<exists>k \<le> length u. (bol \<longrightarrow> k = 0) \<and> pattern_matches ts (drop k u)))"
proof -
  let ?c = "canonicalizeDotStars dot_star False ts"
  define vs where "vs = (if \<not> bol \<and> \<not> isKnownToMatchAnyString (hd ?c) then dot_star # ?c else ?c)"
  have c: "terms_ok ?c" "?c \<noteq> []" "terms_lang ?c = terms_lang ts"
    using canonicalize_ok [OF assms(1)] canonicalize_Nil assms(2) canonicalize_lang [OF assms(1), of False] by auto
  have vs: "terms_ok vs" "vs \<noteq> []" using c terms_ok_Cons [OF dot_star_zero_free] by (auto simp: vs_def)
  have any: "terms_lang vs = conc url_words (terms_lang ts)" if "\<not> bol"
  proof (cases "isKnownToMatchAnyString (hd ?c)")
    case True
    obtain t rest where r: "?c = t # rest" using c(2) by (cases ?c) auto
    then have "zero_free t" using c(1) True terms_ok_hd [of t rest] by auto
    then have "terms_lang ?c = conc url_words (terms_lang rest)" using r True known_lang by simp
    then show ?thesis using True that c(3) by (metis conc_words_idem vs_def)
  qed (use that c(3) in \<open>simp add: vs_def\<close>)
  have m: "pattern_matches vs u \<longleftrightarrow> (\<exists>k \<le> length u. (bol \<longrightarrow> k = 0) \<and> pattern_matches ts (drop k u))"
  proof (cases bol)
    case True
    then show ?thesis using c(3) by (auto simp: vs_def pattern_matches_def)
  next
    case False
    then show ?thesis using any dot_star_matches [OF assms(3), of ts] by (simp add: pattern_matches_def)
  qed
  have t: "terms_ok (removeTrailingDotStarEnd vs)" "removeTrailingDotStarEnd vs \<noteq> []"
    using vs terms_ok_take [OF vs(1), of "length vs - 2"] by (auto simp: removeTrailingDotStarEnd_def terms_ok_def split: if_splits)
  have "simplifySunkTerms bol ts = Some (removeIrrelevantTerms (removeTrailingDotStarEnd vs))"
    using assms(2) by (simp add: simplifySunkTerms_def canonicalDotStar_eq vs_def Let_def)
  then show ?thesis using removeIrrelevant_matches [OF t] removeTrailing_matches [OF vs(1) assms(3)] m by simp
qed

section \<open>Patterns of a tree\<close>

inductive has_pattern :: "PrefixTreeVertex \<Rightarrow> Term list \<Rightarrow> u64 \<Rightarrow> bool" where
  has_here: "a \<in> set (get_actions v) \<Longrightarrow> has_pattern v [] a"
| has_below: "(Some t, c) \<in> set (edges v) \<Longrightarrow> has_pattern c ts a \<Longrightarrow> has_pattern v (t # ts) a"

inductive_simps has_pattern_Nil: "has_pattern v [] a"
inductive_simps has_pattern_Cons: "has_pattern v (t # ts) a"

lemma get_appendAction: "set (get_actions (Vertex (appendAction i as) es)) = insert i (set (get_actions (Vertex as es')))"
  by (auto simp: get_actions_def appendAction_def Let_def)

lemma has_pattern_root: "has_pattern (Vertex as es) [] a \<longleftrightarrow> a \<in> set (get_actions (Vertex as []))"
  "has_pattern (Vertex as es) (t # ts) a \<longleftrightarrow> (\<exists>c. (Some t, c) \<in> set es \<and> has_pattern c ts a)"
  by (auto simp: has_pattern_Nil has_pattern_Cons get_actions_def)

lemma interned_term: "fst (interned t alphabet) = t"
  by (auto simp: interned_def term_eq_iff find_Some_iff split: option.splits)

lemma findEdge_Some: "findEdge t es = Some i \<Longrightarrow> i < length es \<and> fst (es ! i) = Some t"
proof (induction t es arbitrary: i rule: findEdge.induct)
  case (2 t u c es)
  then show ?case by (cases i) (auto simp: term_eq_iff split: if_splits option.splits)
qed simp

lemma empty_patterns: "\<not> has_pattern (Vertex None []) ts a"
  by (cases ts) (simp_all add: has_pattern_root get_actions_def)

lemma extendTree_patterns:
  "has_pattern (snd (extendTree i ps alphabet v)) ts a \<longleftrightarrow> has_pattern v ts a \<or> ts = ps \<and> a = i"
proof (induction i ps alphabet v arbitrary: ts rule: extendTree.induct)
  case (1 i alphabet as es)
  show ?case
  proof (cases ts)
    case Nil
    then show ?thesis using get_appendAction [of i as "[]" "[]"] by (auto simp: has_pattern_root)
  qed (simp add: has_pattern_root)
next
  case (2 i p ps alphabet as es)
  show ?case
  proof (cases "findEdge p es")
    case None
    obtain u alphabet1 where u: "interned p alphabet = (u, alphabet1)" by fastforce
    have "u = p" using interned_term [of p alphabet] u by simp
    obtain alphabet2 child where c: "extendTree i ps alphabet1 (Vertex None []) = (alphabet2, child)" by fastforce
    have IH: "has_pattern child us a \<longleftrightarrow> us = ps \<and> a = i" for us
      using "2.IH"(1) [OF None u [symmetric], of us] c empty_patterns by simp
    have r: "snd (extendTree i (p # ps) alphabet (Vertex as es)) = Vertex as (es @ [(Some p, child)])" using None u c \<open>u = p\<close> by simp
    show ?thesis
    proof (cases ts)
      case (Cons t us)
      show ?thesis unfolding r Cons has_pattern_root using IH [of us] by (simp add: ex_disj_distrib conj_disj_distribR) blast
    next
      case Nil
      show ?thesis unfolding r Nil has_pattern_root by simp
    qed
  next
    case (Some j)
    have j: "j < length es" "fst (es ! j) = Some p" using findEdge_Some [OF Some] by auto
    obtain alphabet1 child where c: "extendTree i ps alphabet (snd (es ! j)) = (alphabet1, child)" by fastforce
    have IH: "has_pattern child us a \<longleftrightarrow> has_pattern (snd (es ! j)) us a \<or> us = ps \<and> a = i" for us
      using "2.IH"(2) [OF Some, of us] c by simp
    have mem: "(Some p, snd (es ! j)) \<in> set es" using j by (metis nth_mem prod.collapse)
    have upd: "set (es[j := (Some p, child)]) \<subseteq> insert (Some p, child) (set es)" by (rule set_update_subset_insert)
    have old: "(x, c') \<in> set (es[j := (Some p, child)]) \<or> x = Some p \<and> c' = snd (es ! j)" if "(x, c') \<in> set es" for x c'
      using that j by (metis in_set_conv_nth length_list_update nth_list_update_neq prod.collapse fst_conv snd_conv)
    have new: "(Some p, child) \<in> set (es[j := (Some p, child)])" using j(1) by (rule set_update_memI)
    have r: "snd (extendTree i (p # ps) alphabet (Vertex as es)) = Vertex as (es[j := (Some p, child)])" using Some c j(2) by simp
    show ?thesis
    proof (cases ts)
      case (Cons t us)
      show ?thesis unfolding r Cons has_pattern_root
      proof
        assume "\<exists>c. (Some t, c) \<in> set (es[j := (Some p, child)]) \<and> has_pattern c us a"
        then show "(\<exists>c. (Some t, c) \<in> set es \<and> has_pattern c us a) \<or> t # us = p # ps \<and> a = i" using upd IH [of us] mem by auto
      next
        assume "(\<exists>c. (Some t, c) \<in> set es \<and> has_pattern c us a) \<or> t # us = p # ps \<and> a = i"
        then show "\<exists>c. (Some t, c) \<in> set (es[j := (Some p, child)]) \<and> has_pattern c us a" using old new IH [of us] by blast
      qed
    next
      case Nil
      show ?thesis unfolding r Nil has_pattern_root by simp
    qed
  qed
qed

definition filters_have :: "CombinedURLFilters \<Rightarrow> Term list \<Rightarrow> u64 \<Rightarrow> bool" where
  "filters_have f = has_pattern (m_prefixTreeRoot f)"

lemma filters_addPattern_have:
  assumes "ps \<noteq> []"
  shows "filters_have (filters_addPattern i ps f) ts a \<longleftrightarrow> filters_have f ts a \<or> ts = ps \<and> a = i"
  using extendTree_patterns [of i ps "m_alphabet f" "m_prefixTreeRoot f"] assms
  by (cases "extendTree i ps (m_alphabet f) (m_prefixTreeRoot f)") (simp add: filters_have_def filters_addPattern_def)

section \<open>Domains\<close>

definition character_term :: "nat \<Rightarrow> Term" where
  "character_term c = the (Term_character c True)"

lemma character_term:
  assumes "c < 128"
  shows "Term_character c True = Some (character_term c)" "term_lang (character_term c) = {[c]}"
proof -
  obtain s where s: "charset_set c CharacterSet_default = Some s" using charset_set_total [OF assms] by blast
  have d: "charset_get x CharacterSet_default \<noteq> Some True" for x by (simp add: charset_get_def CharacterSet_default_def)
  have "\<not> m_inverted s" using charset_set_get(2) [OF s] by (simp add: CharacterSet_default_def)
  then have "charset_has s x \<longleftrightarrow> x = c" for x using charset_set_get(1) [OF s, of x] d [of x] by (simp add: charset_has_def)
  then have l: "term_lang (CharacterSetTerm s One) = {[c]}" by (simp add: term_lang_def)
  have t: "Term_character c True = Some (CharacterSetTerm s One)" by (simp add: Term_character_def s)
  show "Term_character c True = Some (character_term c)" "term_lang (character_term c) = {[c]}"
    using t l by (simp_all add: character_term_def)
qed

lemma character_term_set:
  assumes "0 < c" and "c < 128"
  shows "zero_free (character_term c)" "\<exists>s. character_term c = CharacterSetTerm s One"
proof -
  obtain s where s: "charset_set c CharacterSet_default = Some s" using charset_set_total [OF assms(2)] by blast
  have t: "character_term c = CharacterSetTerm s One" by (simp add: character_term_def Term_character_def s)
  have "charset_get 0 CharacterSet_default = Some False" by (simp add: charset_get_def CharacterSet_default_def)
  then have "charset_get 0 s \<noteq> Some True" using charset_set_get(1) [OF s, of 0] assms(1) by simp
  then have "charset_get 0 s = Some False" by (simp add: charset_get_def)
  then show "zero_free (character_term c)" "\<exists>s. character_term c = CharacterSetTerm s One" by (simp_all add: t)
qed

lemma domainTerms_lang:
  assumes "list_all (\<lambda>c. c < 128) cs"
  shows "\<exists>ts. domainTerms cs = Some ts \<and> ts \<noteq> [] \<and> terms_lang ts = {cs @ [0]}"
  using assms
proof (induction cs)
  case Nil
  then show ?case by (simp add: eol_term)
next
  case (Cons c cs)
  then obtain ts where ts: "domainTerms cs = Some ts" "terms_lang ts = {cs @ [0]}" by auto
  have c: "domainCharacter c = c" "c < 128" using Cons.prems by (simp_all add: domainCharacter_def Let_def)
  show ?case using ts character_term [OF c(2)] c by (auto simp: conc_def)
qed

lemma domain_matches: "terms_lang ts = {d @ [0]} \<Longrightarrow> url_word h \<Longrightarrow> url_word d \<Longrightarrow> pattern_matches ts h \<longleftrightarrow> h = d"
proof -
  assume a: "terms_lang ts = {d @ [0]}" "url_word h" "url_word d"
  have "v = []" if "d @ 0 # v = h @ [0]" for v
  proof (cases v rule: rev_cases)
    case (snoc v' x)
    then have "d @ 0 # v' = h" using that by simp
    then show ?thesis using a(2) by auto
  qed
  then show ?thesis using a(1) by (auto simp: pattern_matches_def)
qed

text \<open>The hosts that a domain of a condition stands for.\<close>

definition domain_of :: "nat list \<Rightarrow> nat list \<Rightarrow> bool" where
  "domain_of domain host \<longleftrightarrow>
     (case domain of
        c # d \<Rightarrow> if c = 42 then host = d \<or> (\<exists>s. host = s @ 46 # d) else host = domain
      | [] \<Rightarrow> host = [])"

lemma addDomain_matches:
  assumes "url_word (characters domain)"
  shows "\<exists>f' P. addDomain i domain f = Some f' \<and> (\<forall>ts a. filters_have f' ts a \<longleftrightarrow> filters_have f ts a \<or> ts \<in> P \<and> a = i) \<and>
    (\<forall>h. url_word h \<longrightarrow> ((\<exists>ts \<in> P. pattern_matches ts h) \<longleftrightarrow> domain_of (characters domain) h))"
proof -
  have all: "list_all (\<lambda>c. c < 128) (characters domain)" using assms by (auto simp: url_word_def list_all_iff)
  show ?thesis
  proof (cases "\<exists>d. characters domain = 42 # d")
    case True
    then obtain d where d: "characters domain = 42 # d" by blast
    have w: "url_word d" using assms d by simp
    obtain ts where ts: "domainTerms d = Some ts" "ts \<noteq> []" "terms_lang ts = {d @ [0]}" using domainTerms_lang [of d] all d by auto
    let ?dot = "dot_star # character_term 46 # ts"
    have "terms_lang (character_term 46 # ts) = {(46 # d) @ [0]}" using character_term(2) [of 46] ts(3) by (auto simp: conc_def)
    note m = domain_matches [OF this _ , simplified] domain_matches [OF ts(3) _ w]
    have "pattern_matches ?dot h \<longleftrightarrow> (\<exists>s. h = s @ 46 # d)" if h: "url_word h" for h
    proof -
      have dk: "url_word (drop k h)" for k using h by (metis append_take_drop_id url_word_simps(2))
      have "pattern_matches ?dot h \<longleftrightarrow> (\<exists>k \<le> length h. pattern_matches (character_term 46 # ts) (drop k h))"
        using dot_star_matches [OF h, of "character_term 46 # ts"] by (simp add: pattern_matches_def)
      also have "\<dots> \<longleftrightarrow> (\<exists>k \<le> length h. drop k h = 46 # d)" using m(1) [OF dk] w by simp
      also have "\<dots> \<longleftrightarrow> (\<exists>s. h = s @ 46 # d)"
        by (metis append_eq_conv_conj append_take_drop_id le_add1 length_append)
      finally show ?thesis .
    qed
    then show ?thesis using d ts character_term(1) [of 46] m(2)
      by (intro exI [of _ "filters_addPattern i ts (filters_addPattern i ?dot f)"] exI [of _ "{?dot, ts}"])
        (auto simp: addDomain_def canonicalDotStar_eq filters_addPattern_have domain_of_def)
  next
    case False
    obtain ts where ts: "domainTerms (characters domain) = Some ts" "ts \<noteq> []" "terms_lang ts = {characters domain @ [0]}"
      using domainTerms_lang [OF all] by blast
    have "addDomain i domain f = Some (filters_addPattern i ts f)" using ts(1) False
      by (cases "characters domain") (auto simp: addDomain_def simp del: domainTerms.simps)
    moreover have "domain_of (characters domain) h \<longleftrightarrow> h = characters domain" for h using False by (auto simp: domain_of_def split: list.splits)
    ultimately show ?thesis using ts(2) domain_matches [OF ts(3) _ assms]
      by (intro exI [of _ "filters_addPattern i ts f"] exI [of _ "{ts}"]) (simp add: filters_addPattern_have)
  qed
qed

section \<open>Filters\<close>

text \<open>Parsing a filter whose characters are not zero and, in classes, ASCII does not crash; accepted filters have been simplified.\<close>

lemma parsePattern_terms:
  assumes "yarr_parse (filter_config C) (characters pattern) = Some y" and "list_all filter_call (m_calls y)"
  shows "\<exists>status f'. filters_parsePattern C pattern cs i f = Some (status, f') \<and>
    (status = Ok \<longrightarrow> (\<exists>bol ts us. terms_ok ts \<and> ts \<noteq> [] \<and> us \<noteq> [] \<and> simplifySunkTerms bol ts = Some us \<and> f' = filters_addPattern i us f))"
proof -
  have init: "pattern_inv (Outside False 0) (PatternParser_initial cs)"
    by (simp add: PatternParser_initial_def parser_ok_def patternHasError_def terms_ok_def)
  obtain p st where p: "run_delegate pattern_call (m_calls y) (PatternParser_initial cs) = Some p" "pattern_inv st p" "hasError y \<or> (\<exists>b. st = Outside b 0)"
    using pattern.parse_inv [OF assms init] by blast
  let ?q = "sinkFloatingTermIfNecessary p"
  obtain us where us: "simplifySunkTerms (m_hasBeginningOfLineAssertion ?q) (m_sunkTerms ?q) = Some us"
    by (cases "simplifySunkTerms (m_hasBeginningOfLineAssertion ?q) (m_sunkTerms ?q)")
      (auto simp: simplifySunkTerms_def canonicalDotStar_eq Let_def split: if_splits)
  have ok: "terms_ok (m_sunkTerms ?q)" if "\<not> hasError y" "\<not> patternHasError p" "\<not> patternHasError ?q"
    using p that by (auto simp: sinkFloatingTermIfNecessary_def parser_ok_def terms_ok_def Let_def pattern_fail_def patternHasError_def split: if_splits)
  have "us = [] \<or> m_sunkTerms ?q = [] \<Longrightarrow> \<not> list_ex matchesAtLeastOneCharacter us" using us by (auto simp: simplifySunkTerms_def)
  then show ?thesis
    using assms(1) p(1) us ok
    by (auto simp: filters_parsePattern_def pattern_finalize_def Let_def patternHasError_def pattern_fail_def)
qed

end
