(* ===== verification/Pattern_Printing.thy ===== *)
theory Pattern_Printing
  imports Filter_Semantics
begin

text \<open>
  Every sequence of terms without the character 0, with an optional end of line, can be written as a pattern; reading the
  pattern gives the terms back.
\<close>

section \<open>Printing\<close>

definition hex_digit :: "nat \<Rightarrow> nat" where
  "hex_digit n = (if n < 10 then 48 + n else 87 + n)"

definition print_character :: "nat \<Rightarrow> nat list" where
  "print_character c = [92, 120, hex_digit (c div 16), hex_digit (c mod 16)]"

definition charset_characters :: "CharacterSet \<Rightarrow> nat list" where
  "charset_characters s = filter (\<lambda>c. charset_get c s = Some True) [0 ..< 128]"

fun print_quantifier :: "AtomQuantifier \<Rightarrow> nat list" where
  "print_quantifier One = []"
| "print_quantifier ZeroOrOne = [63]"
| "print_quantifier ZeroOrMore = [42]"
| "print_quantifier OneOrMore = [43]"

fun print_term :: "Term \<Rightarrow> nat list" where
  "print_term (EmptyTerm q) = []"
| "print_term (CharacterSetTerm s q) =
     91 # (if m_inverted s then [94] else []) @ concat (map print_character (charset_characters s)) @ 93 # print_quantifier q"
| "print_term (GroupTerm ts q) = 40 # concat (map print_term ts) @ 41 # print_quantifier q"

definition print_pattern :: "bool \<Rightarrow> bool \<Rightarrow> Term list \<Rightarrow> nat list" where
  "print_pattern bol eol ts = (if bol then [94] else []) @ concat (map print_term ts) @ (if eol then [36] else [])"

text \<open>The calls that reading a term makes.\<close>

fun quantifier_calls :: "AtomQuantifier \<Rightarrow> delegate_call list" where
  "quantifier_calls One = []"
| "quantifier_calls ZeroOrOne = [QuantifyAtom 0 1 True]"
| "quantifier_calls ZeroOrMore = [QuantifyAtom 0 quantifyInfinite True]"
| "quantifier_calls OneOrMore = [QuantifyAtom 1 quantifyInfinite True]"

fun term_calls :: "Term \<Rightarrow> delegate_call list" where
  "term_calls (EmptyTerm q) = []"
| "term_calls (CharacterSetTerm s q) =
     AtomCharacterClassBegin (m_inverted s) # map AtomCharacterClassAtom (charset_characters s) @ AtomCharacterClassEnd # quantifier_calls q"
| "term_calls (GroupTerm ts q) =
     AtomParenthesesSubpatternBegin True None # concat (map term_calls ts) @ AtomParenthesesEnd # quantifier_calls q"

section \<open>Reading characters and classes\<close>

lemma hex_value: "n < 16 \<Longrightarrow> isASCIIHexDigit (hex_digit n) \<and> toASCIIHexValue (hex_digit n) = n"
proof -
  have "list_all (\<lambda>n. isASCIIHexDigit (hex_digit n) \<and> toASCIIHexValue (hex_digit n) = n) [0 ..< 16]" by code_simp
  then show "n < 16 \<Longrightarrow> isASCIIHexDigit (hex_digit n) \<and> toASCIIHexValue (hex_digit n) = n" unfolding list_all_iff set_upt by simp
qed

lemma hex_join: "c < 128 \<Longrightarrow> push_bit 4 (c div 16) OR (c mod 16) = (c :: nat)"
proof -
  have "list_all (\<lambda>c. push_bit 4 (c div 16) OR (c mod 16) = (c :: nat)) [0 ..< 128]" by code_simp
  then show "c < 128 \<Longrightarrow> push_bit 4 (c div 16) OR (c mod 16) = c" unfolding list_all_iff set_upt by simp
qed

lemma read_hex: "c < 128 \<Longrightarrow> tryConsumeHex 2 0 (hex_digit (c div 16) # hex_digit (c mod 16) # r) = Some (c, r)"
  using hex_value [of "c div 16"] hex_value [of "c mod 16"] hex_join [of c] by (simp add: numeral_2_eq_2 div_less_dividend)

definition yp :: "nat list \<Rightarrow> nat \<Rightarrow> delegate_call list \<Rightarrow> yarr_parser" where
  "yp cs d calls = \<lparr>m_rest = cs, m_errorCode = NoError, m_parenthesesNestingDepth = d, m_captureGroupNames = [], m_calls = calls\<rparr>"

lemma yp_simps [simp]: "m_rest (yp cs d calls) = cs" "m_calls (yp cs d calls) = calls" "m_parenthesesNestingDepth (yp cs d calls) = d"
  "(yp cs d calls)\<lparr>m_rest := cs'\<rparr> = yp cs' d calls" "call_delegate c (yp cs d calls) = yp cs d (calls @ c)" "\<not> hasError (yp cs d calls)"
  "(yp cs d calls)\<lparr>m_parenthesesNestingDepth := e\<rparr> = yp cs e calls"
  by (simp_all add: yp_def call_delegate_def hasError_def)

lemma class_character:
  assumes "c < 128"
  shows "classToken C (d, yp (print_character c @ r) n calls) = Some (class_atomPatternCharacter c False (d, yp r n calls))"
  using read_hex [OF assms]
  by (simp add: classToken_def parseCharacterClassEscape_def parseEscape_def print_character_def del: class_atomPatternCharacter.simps)

lemma class_step:
  assumes "c < 128" and "m_state d = Empty \<or> m_state d = CachedCharacter"
  shows "characterClassLoop C (d, yp (print_character c @ r) n calls) = characterClassLoop C (class_atomPatternCharacter c False (d, yp r n calls))"
proof -
  have rest: "\<exists>x. m_rest (yp (print_character c @ r) n calls) = 92 # x" by (simp add: print_character_def)
  have "\<not> hasError (snd (class_atomPatternCharacter c False (d, yp r n calls)))" using assms(2) by auto
  then show ?thesis using class_character [OF assms(1), of C d r n calls] rest
    by (subst characterClassLoop.simps)
      (auto simp del: class_atomPatternCharacter.simps yp_simps(1) split: prod.splits)
qed

lemma class_cached:
  assumes "list_all (\<lambda>c. c < 128) cs"
  shows "characterClassLoop C (\<lparr>m_state = CachedCharacter, m_character = x\<rparr>, yp (concat (map print_character cs) @ 93 # r) n calls) =
    Some (yp r n (calls @ map AtomCharacterClassAtom (x # cs) @ [AtomCharacterClassEnd]))"
  using assms
proof (induction cs arbitrary: x calls)
  case Nil
  then show ?case by (subst characterClassLoop.simps) (simp add: class_end_def)
next
  case (Cons c cs)
  then show ?case by (simp add: class_step)
qed

lemma class_empty:
  assumes "list_all (\<lambda>c. c < 128) cs"
  shows "characterClassLoop C (\<lparr>m_state = Empty, m_character = x\<rparr>, yp (concat (map print_character cs) @ 93 # r) n calls) =
    Some (yp r n (calls @ map AtomCharacterClassAtom cs @ [AtomCharacterClassEnd]))"
proof (cases cs)
  case Nil
  then show ?thesis by (subst characterClassLoop.simps) (simp add: class_end_def)
next
  case (Cons c ds)
  then show ?thesis using assms by (simp add: class_step class_cached)
qed

lemma charset_characters_less: "list_all (\<lambda>c. c < 128) (charset_characters s)"
  by (auto simp: charset_characters_def list_all_iff)

text \<open>The tokens of a printed pattern.\<close>

lemma token_step: "cs \<noteq> [] \<Longrightarrow> parseToken C a (yp cs d calls) = Some (b, yp cs' d' calls') \<Longrightarrow>
    parseTokens C a (yp cs d calls) = parseTokens C b (yp cs' d' calls')"
  by (subst parseTokens.simps) simp

lemma quantifier_step:
  assumes "r = [] \<or> hd r \<noteq> 63"
  shows "parseTokens C True (yp (print_quantifier q @ r) d calls) = parseTokens C (q = One) (yp r d (calls @ quantifier_calls q))"
proof (cases "q = One")
  case False
  have "tryConsume 63 r = (False, r)" using assms by (cases r) (auto simp: tryConsume_def)
  then show ?thesis using False
    by (cases q) (auto intro!: token_step simp: parseToken_def parseQuantifier_def quantifyInfinite_def)
qed simp

lemma class_tokens:
  assumes "r = [] \<or> hd r \<noteq> 63"
  shows "parseTokens C a (yp (print_term (CharacterSetTerm s q) @ r) d calls) =
    parseTokens C (q = One) (yp r d (calls @ term_calls (CharacterSetTerm s q)))"
proof -
  let ?cs = "charset_characters s" and ?r = "print_quantifier q @ r"
  have e: "tryConsume 94 (concat (map print_character ?cs) @ 93 # ?r) = (False, concat (map print_character ?cs) @ 93 # ?r)"
    by (cases ?cs) (simp_all add: tryConsume_def print_character_def)
  have t: "tryConsume 94 ((if m_inverted s then [94] else []) @ concat (map print_character ?cs) @ 93 # ?r) =
      (m_inverted s, concat (map print_character ?cs) @ 93 # ?r)"
    using e by (cases "m_inverted s") (simp_all add: tryConsume_def [of 94 "94 # _"])
  have p: "parseToken C a (yp (print_term (CharacterSetTerm s q) @ r) d calls) =
      Some (True, yp ?r d (calls @ AtomCharacterClassBegin (m_inverted s) # map AtomCharacterClassAtom ?cs @ [AtomCharacterClassEnd]))"
    using t class_empty [OF charset_characters_less, of C 0 s ?r d "calls @ [AtomCharacterClassBegin (m_inverted s)]"]
    by (simp add: parseToken_def parseCharacterClass_def)
  show ?thesis using token_step [OF _ p] quantifier_step [OF assms, of C q d] by simp
qed

definition no_question :: "nat list \<Rightarrow> bool" where
  "no_question r \<longleftrightarrow> r = [] \<or> hd r \<noteq> 63"

lemma no_question_terms: "list_all zero_free ts \<Longrightarrow> no_question r \<Longrightarrow> no_question (concat (map print_term ts) @ r)"
proof (cases ts)
  case (Cons t us)
  assume "list_all zero_free ts" "no_question r"
  then show ?thesis using Cons by (cases t) (auto simp: no_question_def)
qed simp

lemma terms_tokens:
  assumes "\<And>t a r d calls. t \<in> set ts \<Longrightarrow> no_question r \<Longrightarrow> d + length (print_term t @ r) < 2 ^ 32 \<Longrightarrow>
      parseTokens C a (yp (print_term t @ r) d calls) = parseTokens C (m_quantifier t = One) (yp r d (calls @ term_calls t))"
    and "list_all zero_free ts" and "no_question r" and "d + length (concat (map print_term ts) @ r) < 2 ^ 32"
  shows "\<exists>b. parseTokens C a (yp (concat (map print_term ts) @ r) d calls) = parseTokens C b (yp r d (calls @ concat (map term_calls ts)))"
  using assms
proof (induction ts arbitrary: a calls)
  case (Cons t ts)
  let ?r = "concat (map print_term ts) @ r"
  have "no_question ?r" using Cons.prems(2,3) no_question_terms by simp
  then have "parseTokens C a (yp (print_term t @ ?r) d calls) = parseTokens C (m_quantifier t = One) (yp ?r d (calls @ term_calls t))"
    using Cons.prems(1) [of t ?r d a calls] Cons.prems(4) by simp
  moreover obtain b where "parseTokens C (m_quantifier t = One) (yp ?r d (calls @ term_calls t)) =
      parseTokens C b (yp r d ((calls @ term_calls t) @ concat (map term_calls ts)))"
    using Cons.IH [OF Cons.prems(1), of "m_quantifier t = One" "calls @ term_calls t"] Cons.prems(2-4) by auto
  ultimately show ?case by auto
qed auto

lemma term_tokens:
  assumes "zero_free t" and "no_question r" and "d + length (print_term t @ r) < 2 ^ 32"
  shows "parseTokens C a (yp (print_term t @ r) d calls) = parseTokens C (m_quantifier t = One) (yp r d (calls @ term_calls t))"
  using assms
proof (induction t arbitrary: a r d calls)
  case (CharacterSetTerm s q)
  then show ?case using class_tokens [of r C a s q d calls] by (simp add: no_question_def)
next
  case (GroupTerm ts q)
  let ?r = "print_quantifier q @ r" and ?ts = "concat (map print_term ts)"
  have z: "list_all zero_free ts" using GroupTerm.prems(1) by simp
  have nq: "no_question (?ts @ 41 # ?r)" using no_question_terms [OF z, of "41 # ?r"] by (simp add: no_question_def)
  have b: "d + 1 + length (?ts @ 41 # ?r) < 2 ^ 32" using GroupTerm.prems(3) by simp
  have "tryConsume 63 (?ts @ 41 # ?r) = (False, ?ts @ 41 # ?r)" using nq
    by (auto simp: no_question_def tryConsume_def split: list.splits)
  then have o: "parseToken C a (yp (print_term (GroupTerm ts q) @ r) d calls) =
      Some (False, yp (?ts @ 41 # ?r) (d + 1) (calls @ [AtomParenthesesSubpatternBegin True None]))"
    using b by (simp add: parseToken_def parseParenthesesBegin_def increment_depth_def to_u32_succ [simplified])
  obtain x where x: "parseTokens C False (yp (?ts @ 41 # ?r) (d + 1) (calls @ [AtomParenthesesSubpatternBegin True None])) =
      parseTokens C x (yp (41 # ?r) (d + 1) ((calls @ [AtomParenthesesSubpatternBegin True None]) @ concat (map term_calls ts)))"
    using terms_tokens [OF GroupTerm.IH z _ b] z by (fastforce simp: no_question_def list_all_iff)
  have c: "parseToken C x (yp (41 # ?r) (d + 1) cs) = Some (True, yp ?r d (cs @ [AtomParenthesesEnd]))" for cs
    using b to_u32_pred [of "d + 1"] by (simp add: parseToken_def parseParenthesesEnd_def Let_def)
  show ?case
    using token_step [OF _ o] x token_step [OF _ c] quantifier_step [of r C q d] GroupTerm.prems(2) by (simp add: no_question_def)
qed simp

text \<open>A printed pattern.\<close>

definition pattern_calls :: "bool \<Rightarrow> bool \<Rightarrow> Term list \<Rightarrow> delegate_call list" where
  "pattern_calls bol eol ts = (if bol then [AssertionBOL] else []) @ concat (map term_calls ts) @ (if eol then [AssertionEOL] else [])"

lemma print_parse:
  assumes "list_all zero_free ts" and "length (print_pattern bol eol ts) \<le> MAX_PATTERN_SIZE"
  shows "yarr_parse C (print_pattern bol eol ts) = Some (yp [] 0 (pattern_calls bol eol ts))"
proof -
  let ?e = "if eol then [36] else []" and ?b = "if bol then [AssertionBOL] else []"
  have init: "yarr_initial cs = yp cs 0 []" for cs by (simp add: yarr_initial_def yp_def)
  have e: "no_question ?e" by (simp add: no_question_def)
  have l: "0 + length (concat (map print_term ts) @ ?e) < 2 ^ 32" using assms(2) by (auto simp: print_pattern_def MAX_PATTERN_SIZE_def)
  have "parseTokens C False (yp (print_pattern bol eol ts) 0 []) = parseTokens C False (yp (concat (map print_term ts) @ ?e) 0 ?b)"
    by (cases bol) (auto intro!: token_step simp: print_pattern_def parseToken_def)
  moreover obtain x where "parseTokens C False (yp (concat (map print_term ts) @ ?e) 0 ?b) =
      parseTokens C x (yp ?e 0 (?b @ concat (map term_calls ts)))"
    using terms_tokens [OF term_tokens assms(1) _ l, of C False ?b] assms(1) e by (auto simp: list_all_iff)
  moreover have "parseTokens C x (yp ?e 0 (?b @ concat (map term_calls ts))) = parseTokens C False (yp [] 0 (pattern_calls bol eol ts))"
    using token_step [of "[36]" C x 0 "?b @ concat (map term_calls ts)" False "[]" 0 "?b @ concat (map term_calls ts) @ [AssertionEOL]"]
    by (cases eol) (auto simp: pattern_calls_def parseToken_def parseTokens.simps [of C _ "yp [] _ _"])
  moreover have "parseTokens C False (yp [] 0 (pattern_calls bol eol ts)) = Some (yp [] 0 (pattern_calls bol eol ts))"
    by (subst parseTokens.simps) simp
  ultimately show ?thesis using assms(2) by (simp add: yarr_parse_def init)
qed

section \<open>The terms of the calls\<close>

lemma charset_ext:
  assumes "m_inverted s = m_inverted t" and "\<And>c. charset_get c s = charset_get c t"
  shows "s = t"
proof -
  have 0: "bit (m_characters0 s) n = bit (m_characters0 t) n" if "n < 64" for n
    using assms(2) [of n] that by (simp add: charset_get_bit)
  have 1: "bit (m_characters1 s) n = bit (m_characters1 t) n" if "n < 64" for n
    using assms(2) [of "n + 64"] that by (simp add: charset_get_bit)
  show ?thesis using assms(1) 0 1 by (cases s; cases t) (auto intro: bit_word_eqI)
qed

lemma class_atoms:
  assumes "\<not> patternHasError p" and "m_patternIsCaseSensitive p" and "m_floatingTerm p = CharacterSetTerm s q" and "list_all (\<lambda>c. c < 128) cs"
    and "charset_set_all cs s = Some s'"
  shows "run_delegate pattern_call (map AtomCharacterClassAtom cs) p = Some (p\<lparr>m_floatingTerm := CharacterSetTerm s' q\<rparr>)"
  using assms
proof (induction cs arbitrary: p s)
  case Nil
  then show ?case by (cases p) simp
next
  case (Cons c cs)
  obtain s1 where s1: "charset_set c s = Some s1" "charset_set_all cs s1 = Some s'" using Cons.prems(5) by (cases "charset_set c s") auto
  let ?p = "p\<lparr>m_floatingTerm := CharacterSetTerm s1 q\<rparr>"
  have "pattern_call (AtomCharacterClassAtom c) p = Some ?p"
    using Cons.prems s1(1) by (simp add: pattern_atomCharacterClassAtom_def float_def to_UChar_def)
  moreover have "run_delegate pattern_call (map AtomCharacterClassAtom cs) ?p = Some (?p\<lparr>m_floatingTerm := CharacterSetTerm s' q\<rparr>)"
    by (rule Cons.IH [of _ s1]) (use Cons.prems s1(2) in simp_all)
  ultimately show ?case by simp
qed

text \<open>Terms that have sunk, and a parser that is ready for another term.\<close>

fun extend_group :: "Term list \<Rightarrow> Term \<Rightarrow> Term" where
  "extend_group ts (GroupTerm us q) = GroupTerm (us @ ts) q"
| "extend_group ts t = t"

definition absorb :: "Term list \<Rightarrow> PatternParser \<Rightarrow> PatternParser" where
  "absorb ts p =
     (if m_openGroups p \<noteq> [] then p\<lparr>m_openGroups := butlast (m_openGroups p) @ [extend_group ts (last (m_openGroups p))], m_floatingTerm := Term_default\<rparr>
      else p\<lparr>m_sunkTerms := m_sunkTerms p @ ts, m_floatingTerm := Term_default\<rparr>)"

definition floating :: "PatternParser \<Rightarrow> Term list" where
  "floating p = (if isValid (m_floatingTerm p) then [m_floatingTerm p] else [])"

definition ready :: "PatternParser \<Rightarrow> bool" where
  "ready p \<longleftrightarrow> \<not> patternHasError p \<and> m_patternIsCaseSensitive p \<and> \<not> m_hasProcessedEndOfLineAssertion p \<and> list_all is_group (m_openGroups p) \<and>
     (m_floatingTerm p = Term_default \<or> zero_free (m_floatingTerm p))"

lemma extend_group_Nil [simp]: "extend_group [] g = g"
  by (cases g) auto

lemma absorb_Nil: "m_floatingTerm p = Term_default \<Longrightarrow> absorb [] p = p"
  by (cases p) (auto simp: absorb_def)

lemma extend_group_append: "is_group g \<Longrightarrow> extend_group xs (extend_group ys g) = extend_group (ys @ xs) g"
  by (cases g) auto

lemma absorb_append:
  assumes "list_all is_group (m_openGroups p)"
  shows "absorb xs ((absorb ys p)\<lparr>m_floatingTerm := t\<rparr>) = absorb (ys @ xs) p"
proof (cases "m_openGroups p" rule: rev_cases)
  case (snoc gs g)
  then show ?thesis using assms by (simp add: absorb_def extend_group_append)
qed (simp add: absorb_def)

lemma sink_absorb:
  assumes "ready p"
  shows "sinkFloatingTermIfNecessary p = absorb (floating p) p"
proof (cases "isValid (m_floatingTerm p)")
  case True
  then have z: "\<not> isEndOfLineAssertion (m_floatingTerm p)" using assms zero_free_not_end by (auto simp: ready_def)
  show ?thesis
  proof (cases "m_openGroups p" rule: rev_cases)
    case (snoc gs g)
    then have "is_group g" using assms by (simp add: ready_def)
    then show ?thesis using True z assms snoc by (cases g) (simp_all add: sinkFloatingTermIfNecessary_def absorb_def floating_def ready_def Let_def)
  qed (use True z assms in \<open>simp add: sinkFloatingTermIfNecessary_def absorb_def floating_def ready_def Let_def\<close>)
next
  case False
  then have "m_floatingTerm p = Term_default" using assms zero_free_valid by (auto simp: ready_def)
  then show ?thesis using False absorb_Nil by (simp add: sinkFloatingTermIfNecessary_def floating_def)
qed

lemma absorb_ready: "ready p \<Longrightarrow> t = Term_default \<or> zero_free t \<Longrightarrow> ready ((absorb ts p)\<lparr>m_floatingTerm := t\<rparr>)"
proof (cases "m_openGroups p" rule: rev_cases)
  case (snoc gs g)
  have "is_group g \<Longrightarrow> is_group (extend_group ts g)" by (cases g) auto
  then show "ready p \<Longrightarrow> t = Term_default \<or> zero_free t \<Longrightarrow> ?thesis" using snoc
    by (auto simp: ready_def absorb_def patternHasError_def)
qed (auto simp: ready_def absorb_def patternHasError_def)

lemma run_delegate_append: "run_delegate call (cs @ ds) d = do { e \<leftarrow> run_delegate call cs d; run_delegate call ds e }"
  by (induction cs arbitrary: d) (auto split: Option.bind_split)

lemma quantifier_run:
  assumes "ready p" and "m_floatingTerm p = t" and "m_quantifier t = One" and "zero_free t"
  shows "run_delegate pattern_call (quantifier_calls q) p = Some (p\<lparr>m_floatingTerm := quantify q t\<rparr>)"
proof -
  have "quantify One t = t" using assms(3,4) by (cases t) auto
  moreover have "p\<lparr>m_floatingTerm := t\<rparr> = p" using assms(2) by (cases p) simp
  ultimately show ?thesis using assms(1,2)
    by (cases q) (simp_all add: pattern_quantifyAtom_def ready_def quantifyInfinite_def)
qed

lemma class_run:
  assumes "ready p" and "charset_get 0 s = Some False"
  shows "run_delegate pattern_call (term_calls (CharacterSetTerm s q)) p = Some ((absorb (floating p) p)\<lparr>m_floatingTerm := CharacterSetTerm s q\<rparr>)"
proof -
  let ?a = "absorb (floating p) p" and ?t0 = "Term_CharacterSet (m_inverted s)"
  obtain s0 where s0: "?t0 = CharacterSetTerm s0 One" "m_inverted s0 = m_inverted s" "\<And>c. charset_get c s0 = (if c < 128 then Some False else None)"
    by (auto simp: Term_CharacterSet_def CharacterSet_default_def charset_invert_def charset_get_def)
  obtain s' where s': "charset_set_all (charset_characters s) s0 = Some s'" "m_inverted s' = m_inverted s0"
    "\<forall>c. charset_get c s' = (if c \<in> set (charset_characters s) then Some True else charset_get c s0)"
    using charset_set_all_get [OF charset_characters_less] by blast
  have "charset_get c s' = charset_get c s" for c
    using s'(3) [rule_format, of c] s0(3) [of c] by (auto simp: charset_characters_def charset_get_def)
  then have eq: "s' = s" using s'(2) s0(2) by (intro charset_ext) auto
  have e: "\<not> patternHasError ?a" "m_patternIsCaseSensitive ?a" using absorb_ready [OF assms(1), of Term_default "floating p"] by (auto simp: ready_def)
  have b: "pattern_call (AtomCharacterClassBegin (m_inverted s)) p = Some (?a\<lparr>m_floatingTerm := CharacterSetTerm s0 One\<rparr>)"
    using assms(1) s0(1) by (simp add: pattern_atomCharacterClassBegin_def float_def sink_absorb ready_def)
  have c: "run_delegate pattern_call (map AtomCharacterClassAtom (charset_characters s)) (?a\<lparr>m_floatingTerm := CharacterSetTerm s0 One\<rparr>) =
      Some (?a\<lparr>m_floatingTerm := CharacterSetTerm s One\<rparr>)"
    using class_atoms [OF _ _ _ charset_characters_less s'(1), of "?a\<lparr>m_floatingTerm := CharacterSetTerm s0 One\<rparr>" One] e eq by simp
  have "ready (?a\<lparr>m_floatingTerm := CharacterSetTerm s One\<rparr>)" using absorb_ready [OF assms(1)] assms(2) by simp
  from quantifier_run [OF this, of "CharacterSetTerm s One" q] assms(2) show ?thesis
    using b c by (simp add: run_delegate_append)
qed

text \<open>Reading a term sinks the floating one and lets the new one float; all terms but the last have sunk in the end.\<close>

definition term_read :: "Term \<Rightarrow> PatternParser \<Rightarrow> PatternParser" where
  "term_read t p = (absorb (floating p) p)\<lparr>m_floatingTerm := t\<rparr>"

lemma terms_run:
  assumes "\<And>t p. t \<in> set ts \<Longrightarrow> ready p \<Longrightarrow> run_delegate pattern_call (term_calls t) p = Some (term_read t p)"
    and "list_all zero_free ts" and "ready p"
  shows "\<exists>q. run_delegate pattern_call (concat (map term_calls ts)) p = Some q \<and> ready q \<and> absorb (floating q) q = absorb (floating p @ ts) p"
  using assms
proof (induction ts arbitrary: p)
  case (Cons t ts)
  let ?p = "term_read t p"
  have t: "zero_free t" using Cons.prems(2) by simp
  have p: "ready ?p" using absorb_ready [OF Cons.prems(3)] t by (simp add: term_read_def)
  obtain q where q: "run_delegate pattern_call (concat (map term_calls ts)) ?p = Some q" "ready q" "absorb (floating q) q = absorb (floating ?p @ ts) ?p"
    using Cons.IH [OF _ _ p] Cons.prems(1,2) by auto
  have "floating ?p = [t]" using zero_free_valid(1) [OF t] by (simp add: floating_def term_read_def)
  then have "absorb (floating ?p @ ts) ?p = absorb (floating p @ t # ts) p"
    using absorb_append [of p "t # ts" t "floating p"] Cons.prems(3) by (simp add: term_read_def ready_def)
  then show ?case using q Cons.prems(1) [of t p] Cons.prems(3) by (simp add: run_delegate_append)
qed simp

lemma term_run:
  assumes "zero_free t" and "ready p"
  shows "run_delegate pattern_call (term_calls t) p = Some (term_read t p)"
  using assms
proof (induction t arbitrary: p)
  case (CharacterSetTerm s q)
  then show ?case using class_run [of p s q] by (simp only: zero_free.simps term_read_def)
next
  case (GroupTerm ts q)
  let ?a = "absorb (floating p) p"
  let ?b = "?a\<lparr>m_openGroups := m_openGroups ?a @ [GroupTerm [] One]\<rparr>"
  have z: "list_all zero_free ts" using GroupTerm.prems(1) by simp
  have ra: "ready ?a" "m_floatingTerm ?a = Term_default"
    using absorb_ready [OF GroupTerm.prems(2), of Term_default "floating p"] by (simp_all add: absorb_def ready_def)
  have b: "pattern_call (AtomParenthesesSubpatternBegin True None) p = Some ?b" "ready ?b" "floating ?b = []"
    using GroupTerm.prems(2) ra by (simp_all add: pattern_atomParenthesesSubpatternBegin_def sink_absorb ready_def Let_def Term_Group_def floating_def)
  obtain c where c: "run_delegate pattern_call (concat (map term_calls ts)) ?b = Some c" "ready c" "absorb (floating c) c = absorb ts ?b"
    using terms_run [OF GroupTerm.IH z b(2)] z b(3) by (auto simp: list_all_iff)
  have ab: "absorb ts ?b = ?a\<lparr>m_openGroups := m_openGroups ?a @ [GroupTerm ts One]\<rparr>"
    using ra(2) by (cases ?a) (simp add: absorb_def [of ts])
  have d: "pattern_call AtomParenthesesEnd c = Some (?a\<lparr>m_floatingTerm := GroupTerm ts One\<rparr>)"
    using c(2) sink_absorb [OF c(2)] unfolding c(3) ab by (simp add: pattern_atomParenthesesEnd_def ready_def)
  have "ready (?a\<lparr>m_floatingTerm := GroupTerm ts One\<rparr>)" using absorb_ready [OF GroupTerm.prems(2)] z by simp
  from quantifier_run [OF this, of "GroupTerm ts One" q] z show ?case
    using b(1) c(1) d by (simp add: run_delegate_append term_read_def)
qed simp

text \<open>The whole pattern.\<close>

lemma pattern_run:
  assumes "list_all zero_free ts"
  shows "\<exists>p. run_delegate pattern_call (pattern_calls bol eol ts) (PatternParser_initial True) = Some p \<and> \<not> patternHasError p \<and>
    \<not> patternHasError (sinkFloatingTermIfNecessary p) \<and> m_sunkTerms (sinkFloatingTermIfNecessary p) = ts @ (if eol then [eol_term] else []) \<and>
    m_hasBeginningOfLineAssertion (sinkFloatingTermIfNecessary p) = bol"
proof -
  let ?p0 = "(PatternParser_initial True)\<lparr>m_hasBeginningOfLineAssertion := bol\<rparr>"
  have p0: "run_delegate pattern_call (if bol then [AssertionBOL] else []) (PatternParser_initial True) = Some ?p0" "ready ?p0" "floating ?p0 = []"
    by (simp_all add: pattern_assertionBOL_def PatternParser_initial_def patternHasError_def ready_def floating_def)
  obtain q where q: "run_delegate pattern_call (concat (map term_calls ts)) ?p0 = Some q" "ready q" "absorb (floating q) q = absorb ts ?p0"
    using terms_run [OF term_run assms p0(2)] assms p0(3) by (auto simp: list_all_iff)
  let ?s = "absorb ts ?p0"
  have s: "sinkFloatingTermIfNecessary q = ?s" using sink_absorb [OF q(2)] q(3) by simp
  have s1: "m_sunkTerms ?s = ts" "m_openGroups ?s = []" "\<not> patternHasError ?s" "m_hasBeginningOfLineAssertion ?s = bol"
      "\<not> m_hasProcessedEndOfLineAssertion ?s"
    by (simp_all add: absorb_def PatternParser_initial_def patternHasError_def)
  show ?thesis
  proof (cases eol)
    case False
    then show ?thesis using p0(1) q(1,2) s s1 by (auto simp: pattern_calls_def run_delegate_append ready_def)
  next
    case True
    let ?e = "?s\<lparr>m_floatingTerm := eol_term\<rparr>"
    have e: "pattern_call AssertionEOL q = Some ?e" using q(2) s by (simp add: pattern_assertionEOL_def eol_term float_def ready_def)
    have "m_sunkTerms (sinkFloatingTermIfNecessary ?e) = ts @ [eol_term] \<and> \<not> patternHasError (sinkFloatingTermIfNecessary ?e) \<and>
        m_hasBeginningOfLineAssertion (sinkFloatingTermIfNecessary ?e) = bol"
      using s1 by (simp add: sinkFloatingTermIfNecessary_def Let_def patternHasError_def)
    then show ?thesis using True p0(1) q(1) e s1(3) by (auto simp: pattern_calls_def run_delegate_append)
  qed
qed

lemma print_class_length: "length (print_term (CharacterSetTerm s q)) \<le> 516"
proof -
  have c: "length (charset_characters s) \<le> 128" unfolding charset_characters_def by (rule order.trans [OF length_filter_le]) simp
  have "length (concat (map print_character cs)) = 4 * length cs" for cs by (induction cs) (simp_all add: print_character_def)
  then show ?thesis using c by (cases q) simp_all
qed

text \<open>Reading a printed pattern adds the simplified terms, unless they match everything.\<close>

lemma parse_printed:
  assumes "list_all zero_free ts" and "ts \<noteq> [] \<or> bol \<or> eol" and "length (print_pattern bol eol ts) \<le> MAX_PATTERN_SIZE"
    and "characters pattern = print_pattern bol eol ts"
  shows "\<exists>us. simplifySunkTerms bol (ts @ (if eol then [eol_term] else [])) = Some us \<and>
    filters_parsePattern C pattern True i f =
      Some (if list_ex matchesAtLeastOneCharacter us then (Ok, filters_addPattern i us f) else (MatchesEverything, f))"
proof -
  have hex: "hex_digit n < 128" if "n < 16" for n using that by (simp add: hex_digit_def)
  have pc: "list_all (\<lambda>c. c < 128) (print_character c)" if "c < 128" for c
    using that hex [of "c div 16"] hex [of "c mod 16"] by (simp add: print_character_def)
  have pq: "list_all (\<lambda>c. c < 128) (print_quantifier q)" for q by (cases q) auto
  have pt: "list_all (\<lambda>c. c < 128) (print_term t)" for t
  proof (induction t)
    case (CharacterSetTerm s q)
    have "c < 128" if "c \<in> set (print_character x)" "x \<in> set (charset_characters s)" for c x
      using pc [of x] that charset_characters_less [of s] by (auto simp: list_all_iff)
    then show ?case using pq [of q] by (auto simp: list_all_iff)
  qed (use pq in \<open>auto simp: list_all_iff\<close>)
  have ascii: "list_all (\<lambda>c. c < 128) (characters pattern)" using pt unfolding assms(4) print_pattern_def by (auto simp: list_all_iff)
  have ne: "print_term t \<noteq> []" if "zero_free t" for t using that by (cases t) auto
  have nonempty: "characters pattern \<noteq> []" using assms(1,2) ne unfolding assms(4) print_pattern_def by (cases ts) auto
  obtain p where p: "run_delegate pattern_call (pattern_calls bol eol ts) (PatternParser_initial True) = Some p" "\<not> patternHasError p"
    "\<not> patternHasError (sinkFloatingTermIfNecessary p)" "m_sunkTerms (sinkFloatingTermIfNecessary p) = ts @ (if eol then [eol_term] else [])"
    "m_hasBeginningOfLineAssertion (sinkFloatingTermIfNecessary p) = bol" using pattern_run [OF assms(1)] by blast
  obtain us where us: "simplifySunkTerms bol (ts @ (if eol then [eol_term] else [])) = Some us"
    by (cases "simplifySunkTerms bol (ts @ (if eol then [eol_term] else []))") (auto simp: simplifySunkTerms_def canonicalDotStar_eq Let_def split: if_splits)
  show ?thesis
    using ascii nonempty print_parse [OF assms(1,3), of "filter_config C"] p us assms(4)
    by (auto simp: filters_parsePattern_def pattern_finalize_def Let_def patternHasError_def pattern_fail_def)
qed

end
