(* ===== verification/Spec2Isabelle.thy ===== *)
theory Spec2Isabelle
  imports Bytecode_Program Nfa_To_Dfa Dfa_Combiner Extensions_Backend Rule_Parser Pattern_Printing
begin

text \<open>
  Content extensions: rule lists that block resources, cookies and page elements.

  \<^bold>\<open>The program.\<close> The sources are \<^verbatim>\<open>src/Source/WebCore/contentextensions\<close> with the parts of \<^verbatim>\<open>src/Source/WTF\<close>,
  \<^verbatim>\<open>src/Source/WebCore/loader\<close> and \<^verbatim>\<open>src/Source/JavaScriptCore/yarr\<close> that they use. A rule has a trigger, whose URL filter is a regular expression with resource
  flags and conditions on the URL of the main document, and an action. A rule list is read from JSON and compiled once: its actions are written as bytes; its filters become
  terms, the terms NFAs, the NFAs DFAs, small DFAs are merged, and every DFA becomes bytecode. When a resource is loaded the bytecode is interpreted
  on its URL; the actions it yields, sorted by their locations, decide about the load.

  \<^bold>\<open>The theories.\<close>
  \<^item> \<open>CE_Prelude\<close>: crashes as values, little-endian bytes, ASCII case functions (\<^verbatim>\<open>wtf/ASCIICType.h\<close>), hash sets as
    lists without repetition, iteration orders.
  \<^item> \<open>Dfa\<close> (\<^verbatim>\<open>DFA.h\<close>, \<^verbatim>\<open>DFANode.h\<close>, \<^verbatim>\<open>.cpp\<close>): the graph as tables; \<open>dfa_step\<close>, \<open>dfa_acts\<close> and \<open>dfa_visit\<close>
    are its behaviour, \<open>wf_dfa\<close> the invariant of its tables.
  \<^item> \<open>Resource_Info\<close> (\<^verbatim>\<open>loader/ResourceLoadInfo\<close>), \<open>Bytecode\<close> (\<^verbatim>\<open>DFABytecode.h\<close>), \<open>Bytecode_Compiler\<close>
    (\<^verbatim>\<open>DFABytecodeCompiler\<close>), \<open>Bytecode_Interpreter\<close> (\<^verbatim>\<open>DFABytecodeInterpreter\<close>), and the proof that interpreting compiled bytecode is
    running the DFAs: \<open>Transition_Tables\<close> (the tables of a node have its transitions), \<open>Code_Layout\<close> and \<open>Code_Offsets\<close> (what is emitted where, jump
    distances and linking), \<open>Bytecode_Correct\<close> (a node), \<open>Bytecode_Program\<close> (all DFAs).
  \<^item> \<open>Range_List\<close> (\<^verbatim>\<open>MutableRange\<close>, \<^verbatim>\<open>MutableRangeList\<close>): the linked list of ranges, extended in place; the locale
    \<open>range_data_converter\<close> is the contract of the converters, interpreted for NFA builders, for node sets and for both sides of a merge.
  \<^item> \<open>Nfa\<close> (\<^verbatim>\<open>ImmutableNFA.h\<close>, \<^verbatim>\<open>ImmutableNFANodeBuilder.h\<close>), \<open>Bit_Count\<close> (\<^verbatim>\<open>wtf/StdLibExtras.h\<close>), \<open>Term\<close>
    (\<^verbatim>\<open>Term.h\<close>) with the language of a term, \<open>Fragments\<close> and \<open>Term_Graph\<close>: the graph of a term has the language of the term.
  \<^item> \<open>Worklist\<close>: the loop that the subset construction and the DFA merger share, as a locale over the transitions and the table of nodes;
    \<open>Nfa_To_Dfa\<close> (\<^verbatim>\<open>NFAToDFA.cpp\<close>) and \<open>Dfa_Combiner\<close> (\<^verbatim>\<open>DFACombiner.cpp\<close>) interpret it.
  \<^item> \<open>Rules\<close> (\<^verbatim>\<open>ContentExtensionActions.h\<close>, \<^verbatim>\<open>ContentExtensionRule\<close>) and \<open>Serialize_Actions\<close> (the first part of
    \<^verbatim>\<open>ContentExtensionCompiler.cpp\<close>): actions as bytes; the invariant \<open>sinv\<close> relates the state of the serializer to the actions written so far.
  \<^item> \<open>Rule_Parser\<close> (\<^verbatim>\<open>ContentExtensionParser.cpp\<close>, \<^verbatim>\<open>ContentExtensionError\<close>): from JSON values to rules, with every
    error; the rules that are accepted satisfy what the later stages assume, and rules written as JSON are read back.
  \<^item> \<open>Yarr_Parser\<close> (\<^verbatim>\<open>JavaScriptCore/yarr/YarrParser.h\<close>): the parser of regular expressions; it returns on every pattern, and the
    calls of its delegate follow a protocol. The locale \<open>yarr_delegate\<close> is the contract of a delegate.
  \<^item> \<open>Combined_Filters\<close> (\<^verbatim>\<open>CombinedURLFilters.cpp\<close>, \<^verbatim>\<open>CombinedFiltersAlphabet.cpp\<close>, \<^verbatim>\<open>HashableActionList.h\<close>): the prefix
    tree of patterns and the NFAs made of it. \<open>Url_Filter_Parser\<close> (\<^verbatim>\<open>URLFilterParser.cpp\<close>): the delegate that makes terms of a filter;
    it interprets \<open>yarr_delegate\<close>. \<open>Filter_Semantics\<close>: what simplified patterns and domains match. \<open>Pattern_Printing\<close>: terms printed as
    regular expressions are parsed back.
  \<^item> \<open>Url\<close> (\<^verbatim>\<open>wtf/URL\<close>), \<open>Content_Extension\<close> (\<^verbatim>\<open>ContentExtension.cpp\<close>) and \<open>Extensions_Backend\<close>
    (\<^verbatim>\<open>ContentExtensionsBackend.cpp\<close>): what happens when a resource is loaded.

  \<^bold>\<open>Conventions.\<close> Bytes, 16-bit flags and 64-bit actions are words; characters, indices and offsets are natural numbers, reduced modulo
  \<open>2 ^ 32\<close> where the code can wrap. A release assertion that fails and a read out of bounds are values of \<open>crash\<close>; debugging assertions are not modelled.
  A loop that may not end is a \<^theory_text>\<open>partial_function\<close> with \<open>None\<close> for not returning, and the theorems prove that it returns; no fuel is used.
  The order in which a hash table is iterated is a parameter, of which only \<open>enumerates\<close> is assumed.

  \<^bold>\<open>Not modelled.\<close> The minimizer of DFAs (\<^verbatim>\<open>DFAMinimizer.cpp\<close>), which \<open>combineDFAs\<close> takes as an argument, and the drivers
  \<^verbatim>\<open>compileRuleList\<close> and \<^verbatim>\<open>compileToBytecode\<close> that call the stages one after the other and write their results to a client.
  The JSON parser, the URL parser, the CSS parser, the properties of Unicode characters and whether a load is third-party are
  arguments. Left out are hash functions, whose values nothing depends on but the iteration orders that are parameters, memory accounting and the
  printers for debugging, code that only frees memory (\<^verbatim>\<open>clearReverseSuffixTree\<close>), copies between threads
  (\<^verbatim>\<open>isolatedCopy\<close>), the wrapper of a style sheet (\<^verbatim>\<open>ContentExtensionStyleSheet\<close>), and all of WebKit outside of content extensions.
\<close>

section \<open>Sample data\<close>

text \<open>A DFA with a flagged action, a case with an end-of-line transition that is compiled as it is.\<close>

definition sample_dfa :: DFA where
  "sample_dfa =
     \<lparr>dfa_nodes =
        [\<lparr>m_actionsStart = 0, m_transitionsStart = 0, m_actionsLength = 1, m_transitionsLength = 1, m_flags = 0\<rparr>,
         \<lparr>m_actionsStart = 0, m_transitionsStart = 1, m_actionsLength = 0, m_transitionsLength = 2, m_flags = 0\<rparr>,
         \<lparr>m_actionsStart = 1, m_transitionsStart = 0, m_actionsLength = 1, m_transitionsLength = 0, m_flags = 0\<rparr>],
      dfa_actions = [5, 0x0000000800000007],
      transitionRanges = [\<lparr>rangeFirst = 97, rangeLast = 97\<rparr>, \<lparr>rangeFirst = 0, rangeLast = 0\<rparr>,
        \<lparr>rangeFirst = 98, rangeLast = 99\<rparr>],
      transitionDestinations = [1, 2, 0], dfa_root = 0\<rparr>"

text \<open>The DFA of two rules with one action whose patterns are \<open>^a$\<close> and \<open>^a.\<close>.\<close>

definition end_of_line_dfa :: DFA where
  "end_of_line_dfa =
     \<lparr>dfa_nodes =
        [\<lparr>m_actionsStart = 0, m_transitionsStart = 0, m_actionsLength = 0, m_transitionsLength = 1, m_flags = 0\<rparr>,
         \<lparr>m_actionsStart = 0, m_transitionsStart = 1, m_actionsLength = 0, m_transitionsLength = 2, m_flags = 0\<rparr>,
         \<lparr>m_actionsStart = 0, m_transitionsStart = 0, m_actionsLength = 1, m_transitionsLength = 0, m_flags = 0\<rparr>],
      dfa_actions = [7],
      transitionRanges = [\<lparr>rangeFirst = 97, rangeLast = 97\<rparr>, \<lparr>rangeFirst = 0, rangeLast = 0\<rparr>,
        \<lparr>rangeFirst = 1, rangeLast = 127\<rparr>],
      transitionDestinations = [1, 2, 2], dfa_root = 0\<rparr>"

text \<open>A DFA with an end-of-line transition into a node that is a fallback alone.\<close>

definition past_end_dfa :: DFA where
  "past_end_dfa =
     \<lparr>dfa_nodes =
        [\<lparr>m_actionsStart = 0, m_transitionsStart = 0, m_actionsLength = 0, m_transitionsLength = 1, m_flags = 0\<rparr>,
         \<lparr>m_actionsStart = 0, m_transitionsStart = 1, m_actionsLength = 0, m_transitionsLength = 1, m_flags = 0\<rparr>,
         \<lparr>m_actionsStart = 0, m_transitionsStart = 0, m_actionsLength = 1, m_transitionsLength = 0, m_flags = 0\<rparr>],
      dfa_actions = [7],
      transitionRanges = [\<lparr>rangeFirst = 0, rangeLast = 0\<rparr>, \<lparr>rangeFirst = 1, rangeLast = 127\<rparr>],
      transitionDestinations = [1, 2], dfa_root = 0\<rparr>"

lemma sample_dfa_good: "good_dfa sample_dfa" "eol_ok sample_dfa" "dfa_size_bound sample_dfa < 2 ^ 32"
  by code_simp+

lemma sample_dfa_live: "live sample_dfa 1"
  by code_simp

lemma end_of_line_dfa_good: "good_dfa end_of_line_dfa" "dfa_size_bound end_of_line_dfa < 2 ^ 32"
  by code_simp+

lemma past_end_dfa_good: "good_dfa past_end_dfa" "dfa_size_bound past_end_dfa < 2 ^ 32"
  by code_simp+

section \<open>The bytecode\<close>



text \<open>C9: What the interpreter returns on compiled DFAs, without any condition on their end-of-line
  transitions, and with the conditions of \<open>interpretWithConditions\<close>: the actions of the nodes entered by
  the transitions that the code has, in the order in which they are entered, as far as their flags
  admit the load and their condition holds. A read behind the end of the URL happens exactly where
  \<open>program_result\<close> says so.\<close>

theorem interpretWithConditions_compiled:
  assumes "\<forall>d \<in> set ds. good_dfa d" and "sum_list (map dfa_size_bound ds) < 2 ^ 32"
    and "\<forall>c \<in> set url. 0 < c \<and> c < 128"
  shows "\<exists>bs. compileAll ds = Inr bs \<and> length bs \<le> sum_list (map dfa_size_bound ds) \<and>
    interpretWithConditions bs url flags conditionActions =
      Some (rbind (program_result True ds url) (\<lambda>as.
        Inr (hs_add_all (filter (\<lambda>a. flags_match (action_flags a) flags \<and> matchesCondition a conditionActions) as) [])))"
proof -
  have eq: "action_passes flags (Some conditionActions) =
      (\<lambda>a. flags_match (action_flags a) flags \<and> matchesCondition a conditionActions)"
    by (simp add: fun_eq_iff action_passes_def passes_condition_def)
  show ?thesis
    using interpretFrom_compileAll [OF assms, of flags "Some conditionActions"]
    unfolding eq interpretWithConditions_def .
qed

theorem interpretWithConditions_compiled_witness:
  "\<exists>bs. compileAll [sample_dfa] = Inr bs \<and> length bs \<le> dfa_size_bound sample_dfa \<and>
    interpretWithConditions bs [97] 0xFFFF [] = Some (Inr [0x0000000800000007])"
proof -
  have "program_result True [sample_dfa] [97] = Inr [0x0000000800000007]" by code_simp
  moreover have "flags_match (action_flags 0x0000000800000007) 0xFFFF" "matchesCondition 0x0000000800000007 []"
    by code_simp+
  ultimately show ?thesis
    using interpretWithConditions_compiled [of "[sample_dfa]" "[97]" "0xFFFF" "[]"] sample_dfa_good
    by (simp add: hs_add_all_def hs_add_def)
qed

text \<open>C10: The compiler drops an end-of-line transition into the target of the fallback. For the DFA of
  the two patterns \<open>^a$\<close> and \<open>^a.\<close> with one action the URL \<open>a\<close> reaches the action in the DFA, and the
  interpreter does not find it, while it finds it for the URL \<open>ab\<close>.\<close>

theorem end_of_line_lost:
  "\<exists>bs. compileAll [end_of_line_dfa] = Inr bs \<and>
    7 \<in> dfa_visit end_of_line_dfa 0 ([97] @ [0]) \<and> interpretUrl bs [97] 0 = Some (Inr []) \<and>
    7 \<in> dfa_visit end_of_line_dfa 0 ([97, 98] @ [0]) \<and> interpretUrl bs [97, 98] 0 = Some (Inr [7])"
proof -
  note I = interpretFrom_compileAll [where ds = "[end_of_line_dfa]" and flags = 0 and cond = None]
  have r: "program_result True [end_of_line_dfa] [97] = Inr []"
    "program_result True [end_of_line_dfa] [97, 98] = Inr [7]"
    by code_simp+
  have v: "7 \<in> dfa_visit end_of_line_dfa 0 ([97] @ [0])" "7 \<in> dfa_visit end_of_line_dfa 0 ([97, 98] @ [0])"
    by code_simp+
  have p: "action_passes 0 None 7" by code_simp
  show ?thesis
    using I [where url = "[97]"] I [where url = "[97, 98]"] end_of_line_dfa_good r v p
    by (auto simp: interpretUrl_def hs_add_all_def hs_add_def)
qed

text \<open>C11: The interpreter reads behind the end of the URL: the condition of a jump looks at the
  character before it looks at the flag that says that the end has been passed.\<close>

theorem jump_reads_past_end:
  "\<exists>bs. compileAll [past_end_dfa] = Inr bs \<and> interpretUrl bs [] 0 = Some (Inl OutOfBounds)"
proof -
  have r: "program_result True [past_end_dfa] [] = Inl OutOfBounds" by code_simp
  show ?thesis
    using interpretFrom_compileAll [where ds = "[past_end_dfa]" and flags = 0 and cond = None and url = "[]"]
      past_end_dfa_good r
    by (auto simp: interpretUrl_def)
qed

text \<open>C21: The tables a node is compiled from (jump tables, single and case-insensitive ranges, the
  fallback) have the transitions of the node: looking a character other than the end-of-line marker up
  in them is a step of the DFA.\<close>

theorem transitions_lookup:
  assumes "wf_dfa d" and "live d q" and "0 < c" and "c < 128"
  shows "transition_lookup (transitions d (dfa_nodes d ! q)) c = dfa_step d q c"
  using transition_lookup_step [OF live_node [OF assms(1,2)] assms(4)] assms(3) by (simp add: dfa_step_def)

theorem transitions_lookup_witness:
  "transition_lookup (transitions sample_dfa (dfa_nodes sample_dfa ! 1)) 98 = Some 0"
proof -
  have "dfa_step sample_dfa 1 98 = Some 0" by code_simp
  then show ?thesis
    using transitions_lookup [of sample_dfa 1 98] sample_dfa_good(1) sample_dfa_live by (simp add: good_dfa_def)
qed

text \<open>C22: A node has a fallback exactly when every character but the end-of-line marker has a
  transition.\<close>

theorem canUseFallbackTransition_total:
  assumes "sorted_from 0 (node_transitions d n)"
  shows "canUseFallbackTransition d n \<longleftrightarrow> (\<forall>c. 0 < c \<and> c < 128 \<longrightarrow> step_in (node_transitions d n) c \<noteq> None)"
  using assms by (rule canUseFallbackTransition_iff)

theorem canUseFallbackTransition_total_witness:
  "\<exists>c. 0 < c \<and> c < 128 \<and> step_in (node_transitions sample_dfa (dfa_nodes sample_dfa ! 1)) c = None"
proof -
  have srt: "sorted_from 0 (node_transitions sample_dfa (dfa_nodes sample_dfa ! 1))" by code_simp
  have "\<not> canUseFallbackTransition sample_dfa (dfa_nodes sample_dfa ! 1)" by code_simp
  then show ?thesis
    unfolding canUseFallbackTransition_total [OF srt] by (simp only: not_all not_imp not_not conj_assoc)
qed

text \<open>C23: The target of the fallback is the one that most characters lead to.\<close>

theorem bestFallbackTarget_maximal:
  assumes "sorted_from 0 (node_transitions d n)" and "canUseFallbackTransition d n"
  shows "characters_to (node_transitions d n) t \<le> characters_to (node_transitions d n) (bestFallbackTarget d n)"
  using assms by (rule bestFallbackTarget_best)

theorem bestFallbackTarget_maximal_witness:
  "characters_to (node_transitions past_end_dfa (dfa_nodes past_end_dfa ! 1)) 0
    \<le> characters_to (node_transitions past_end_dfa (dfa_nodes past_end_dfa ! 1)) 2"
proof -
  have "sorted_from 0 (node_transitions past_end_dfa (dfa_nodes past_end_dfa ! 1))"
    "canUseFallbackTransition past_end_dfa (dfa_nodes past_end_dfa ! 1)"
    "bestFallbackTarget past_end_dfa (dfa_nodes past_end_dfa ! 1) = 2" by code_simp+
  then show ?thesis
    using bestFallbackTarget_maximal [of past_end_dfa "dfa_nodes past_end_dfa ! 1" 0] by simp
qed


section \<open>Ranges, terms and graphs\<close>

definition sample_orders :: iteration_orders where
  "sample_orders = \<lparr>node_order = id, action_order = id\<rparr>"

lemma sample_orders_ok: "orders_ok sample_orders"
  by (simp add: orders_ok_def sample_orders_def enumerates_id)

text \<open>The NFA of the pattern \<open>^ab*\<close> with an action, built by hand.\<close>

definition sample_nfa :: NFA where
  "sample_nfa = \<lparr>nfa_nodes =
      [\<lparr>rangesStart = 0, rangesEnd = 1, epsilonTransitionTargetsStart = 0, epsilonTransitionTargetsEnd = 0, actionStart = 0, actionEnd = 0\<rparr>,
       \<lparr>rangesStart = 1, rangesEnd = 2, epsilonTransitionTargetsStart = 0, epsilonTransitionTargetsEnd = 1, actionStart = 0, actionEnd = 0\<rparr>,
       \<lparr>rangesStart = 2, rangesEnd = 2, epsilonTransitionTargetsStart = 1, epsilonTransitionTargetsEnd = 1, actionStart = 0, actionEnd = 1\<rparr>],
     nfa_transitions = [\<lparr>targetStart = 0, targetEnd = 1, nr_first = 97, nr_last = 97\<rparr>, \<lparr>targetStart = 1, targetEnd = 2, nr_first = 98, nr_last = 98\<rparr>],
     nfa_targets = [1, 1], epsilonTransitionsTargets = [2], nfa_actions = [7]\<rparr>"

lemma sample_nfa_wf: "wf_nfa sample_nfa"
  by code_simp

text \<open>C2: The subset construction. Converting an NFA always ends; the DFA has the actions of the NFA: on every string of
  characters, the actions of the states the DFA passes through are the actions of the states that the NFA can be in after some prefix of it.
  The DFA is well-formed as long as its nodes can be numbered.\<close>

theorem convert_actions:
  assumes "orders_ok ho" and "wf_nfa nfa" and "nfa_nodes nfa \<noteq> []" and "card (set (nfa_actions nfa)) < 2 ^ 16"
  shows "\<exists>d. NFAToDFA_convert ho nfa = Some d \<and> (length (dfa_nodes d) < 2 ^ 32 - 1 \<longrightarrow> wf_dfa d) \<and>
    (\<forall>w. (\<forall>c \<in> set w. c < 128) \<longrightarrow> dfa_acts d (dfa_root d) \<union> dfa_visit d (dfa_root d) w = nfa_visit nfa w)"
  using NFAToDFA_convert_correct [OF assms] by blast

theorem convert_actions_witness:
  "\<exists>d. NFAToDFA_convert sample_orders sample_nfa = Some d \<and>
    dfa_acts d (dfa_root d) \<union> dfa_visit d (dfa_root d) [97, 98] = nfa_visit sample_nfa [97, 98]"
proof -
  have "nfa_nodes sample_nfa \<noteq> []" "card (set (nfa_actions sample_nfa)) < 2 ^ 16" by (simp_all add: sample_nfa_def)
  from convert_actions [OF sample_orders_ok sample_nfa_wf this] obtain d where "NFAToDFA_convert sample_orders sample_nfa = Some d"
    "\<forall>w. (\<forall>c \<in> set w. c < 128) \<longrightarrow> dfa_acts d (dfa_root d) \<union> dfa_visit d (dfa_root d) w = nfa_visit sample_nfa w" by blast
  then show ?thesis by (simp del: dfa_visit.simps)
qed



text \<open>C8: Extending a list of ranges by another is the pointwise combination of the two: a character of both has the extended
  value, a character of one has its value, converted when it is new. The list stays sorted and disjoint.\<close>

theorem extend_pointwise:
  assumes "range_list m" and "items_from 0 E"
  shows "\<exists>m'. extendRanges cv ex E m = Some m' \<and> range_list m' \<and> items_from 0 (rangeList_items m') \<and>
    (\<forall>c. item_lookup (rangeList_items m') c = combine cv ex (item_lookup (rangeList_items m) c) (item_lookup E c))"
  using extendRanges_lookup [OF assms, of cv ex] range_list_sorted by blast

theorem extend_pointwise_witness:
  "\<exists>m'. extendRanges targetSet_convert targetSet_extend [(97, 99, 4)] [newRange [3] 0 98 120] = Some m' \<and>
    item_lookup (rangeList_items m') 97 = Some [4] \<and> item_lookup (rangeList_items m') 98 = Some [3, 4] \<and>
    item_lookup (rangeList_items m') 100 = Some [3]"
proof -
  let ?m = "[newRange [3::nat] 0 98 120]"
  have i: "rangeList_items ?m = [(98, 120, [3])]" by (simp add: rangeList_items_def walk.simps range_item_def newRange_def)
  have "chain ?m [0]" by (simp add: chain_def newRange_def)
  then have "range_list ?m" unfolding range_list_def by (intro disjI2 exI [of _ "[0]"]) (simp add: items_def range_item_def newRange_def)
  from extend_pointwise [OF this, of "[(97, 99, 4)]" targetSet_convert targetSet_extend] show ?thesis
    unfolding i by (auto simp: combine_def targetSet_convert_def targetSet_extend_def hs_add_def)
qed

text \<open>C27: The bit count by parallel sums is the number of set bits.\<close>

theorem bitCount_card: "bitCount64 w = card {i. i < 64 \<and> bit w i}"
  by (rule bitCount64_card)

text \<open>C24: A term that is known to match any string does: every string without the end-of-line marker is in its language. Only such
  terms are taken out of patterns, or turned into universal actions.\<close>

theorem known_to_match_sound:
  assumes "isKnownToMatchAnyString t" and "\<forall>c \<in> set w. 0 < c \<and> c < 128"
  shows "w \<in> term_lang t"
  using assms by (rule known_to_match_any)

theorem known_to_match_sound_witness:
  "[97, 98] \<in> term_lang (quantify ZeroOrMore (Term_CharacterSet True))"
proof -
  have "isKnownToMatchAnyString (quantify ZeroOrMore (Term_CharacterSet True))" by code_simp
  then show ?thesis using known_to_match_sound [of _ "[97, 98]"] by simp
qed



text \<open>C26: The strings that a term of fixed length matches all have one length.\<close>

theorem hasFixedLength_sound:
  assumes "hasFixedLength t"
  shows "\<exists>n. \<forall>w \<in> term_lang t. length w = n"
  using assms by (rule fixed_length)

theorem hasFixedLength_sound_witness: "\<exists>n. \<forall>w \<in> term_lang (the (Term_character 97 True)). length w = n"
proof -
  have "hasFixedLength (the (Term_character 97 True))" by code_simp
  then show ?thesis by (rule hasFixedLength_sound)
qed

text \<open>C18: The search for the nodes reachable by epsilon transitions ends, and finds them all.\<close>

theorem epsilonClosure_terminates:
  assumes "wf_nfa nfa" and "p < length (nfa_nodes nfa)"
  shows "\<exists>out. epsilonClosureExcludingSelf nfa p = Some out \<and> insert p (set out) = eps_closure nfa {p}"
  using assms by (rule epsilonClosureExcludingSelf_closure)

theorem epsilonClosure_terminates_witness:
  "\<exists>out. epsilonClosureExcludingSelf sample_nfa 1 = Some out \<and> insert 1 (set out) = eps_closure sample_nfa {1}"
  using epsilonClosure_terminates [OF sample_nfa_wf, of 1] by (simp add: sample_nfa_def)

text \<open>C7: Merging two DFAs gives a DFA that has the actions of both, on every string.\<close>

theorem dfaMerge_union:
  assumes "enumerates (action_order ho)" and "wf_dfa a" and "wf_dfa b" and "card (set (dfa_actions a) \<union> set (dfa_actions b)) < 2 ^ 16"
  shows "\<exists>d. dfaMerge ho a b = Some d \<and> (length (dfa_nodes d) < 2 ^ 32 - 1 \<longrightarrow> wf_dfa d) \<and>
    (\<forall>w. (\<forall>c \<in> set w. c < 128) \<longrightarrow> dfa_acts d (dfa_root d) \<union> dfa_visit d (dfa_root d) w =
      (dfa_acts a (dfa_root a) \<union> dfa_visit a (dfa_root a) w) \<union> (dfa_acts b (dfa_root b) \<union> dfa_visit b (dfa_root b) w))"
  by (rule dfaMerge_correct) (use assms in \<open>simp add: merge_ok_def\<close>)

theorem dfaMerge_union_witness:
  "\<exists>d. dfaMerge sample_orders sample_dfa end_of_line_dfa = Some d \<and> 7 \<in> dfa_acts d (dfa_root d) \<union> dfa_visit d (dfa_root d) [97, 98]"
proof -
  have w: "wf_dfa sample_dfa" "wf_dfa end_of_line_dfa" using sample_dfa_good(1) end_of_line_dfa_good(1) by (simp_all add: good_dfa_def)
  have c: "card (set (dfa_actions sample_dfa) \<union> set (dfa_actions end_of_line_dfa)) < 2 ^ 16"
    by (simp add: sample_dfa_def end_of_line_dfa_def)
  have v: "7 \<in> dfa_visit end_of_line_dfa (dfa_root end_of_line_dfa) [97, 98]" by code_simp
  have "enumerates (action_order sample_orders)" by (simp add: sample_orders_def enumerates_id)
  from dfaMerge_union [OF this w c] obtain d where "dfaMerge sample_orders sample_dfa end_of_line_dfa = Some d"
    "\<forall>w. (\<forall>c \<in> set w. c < 128) \<longrightarrow> dfa_acts d (dfa_root d) \<union> dfa_visit d (dfa_root d) w =
      (dfa_acts sample_dfa (dfa_root sample_dfa) \<union> dfa_visit sample_dfa (dfa_root sample_dfa) w) \<union>
      (dfa_acts end_of_line_dfa (dfa_root end_of_line_dfa) \<union> dfa_visit end_of_line_dfa (dfa_root end_of_line_dfa) w)" by blast
  moreover from this(2) [THEN spec, of "[97, 98]"] v have "7 \<in> dfa_acts d (dfa_root d) \<union> dfa_visit d (dfa_root d) [97, 98]"
    by (simp del: dfa_visit.simps)
  ultimately show ?thesis by blast
qed


section \<open>Actions of rules\<close>

definition sample_string :: wtf_string where
  "sample_string = \<lparr>is8Bit = False, characters = [46, 8364]\<rparr>"

definition sample_rule :: "ActionType \<Rightarrow> nat \<Rightarrow> ContentExtensionRule" where
  "sample_rule t c = \<lparr>rule_trigger = Trigger_default\<lparr>urlFilter := \<lparr>is8Bit = True, characters = [c]\<rparr>\<rparr>,
     rule_action = \<lparr>m_extensionIdentifier = None, m_type = t, m_actionID = 2 ^ 32 - 1,
       m_stringArgument = (if hasStringArgument t then Some sample_string else None)\<rparr>\<rparr>"

definition sample_rules :: "ContentExtensionRule list" where
  "sample_rules = [sample_rule BlockLoad 97, sample_rule CSSDisplayNoneSelector 98, sample_rule IgnorePreviousRules 99,
     sample_rule CSSDisplayNoneSelector 98, sample_rule BlockLoad 100]"

lemma sample_rules_ok: "\<forall>r \<in> set sample_rules. rule_ok r"
  by (simp add: sample_rules_def sample_rule_def rule_ok_def arg_ok_def sample_string_def wf_string_def)

lemma sample_rules_serialized:
  "serializeActions id sample_rules = ([0, 2, 2, 0, 0, 0, 1, 46, 0, 172, 32, 4, 0, 2, 2, 0, 0, 0, 1, 46, 0, 172, 32], [0, 1, 11, 13, 12])"
  by code_simp

text \<open>C19: An action that has been appended to the serialized actions is read back as it was, with the location as its identifier;
  its type and its length are read as well.\<close>

theorem action_roundtrip:
  assumes "arg_ok (m_type a) (m_stringArgument a)" and "length (ss_actions (pushAction a st)) < 2 ^ 32"
  shows "let actions = ss_actions (pushAction a st); location = last (actionLocations (pushAction a st))
    in deserialize actions location = Inr (a\<lparr>m_extensionIdentifier := None, m_actionID := location\<rparr>) \<and>
       deserializeType actions location = Inr (m_type a) \<and> serializedLength actions location = Inr (length actions - location)"
proof -
  have e: "ss_actions (pushAction a st) = ss_actions st @ action_bytes (m_type a) (m_stringArgument a) @ []"
    by (simp add: pushAction_def action_bytes_def serializeString_def stringArgument_def)
  have l: "last (actionLocations (pushAction a st)) = length (ss_actions st)" by (simp add: pushAction_def)
  show ?thesis using deserialize_serialized [OF assms e l] e l by (simp add: Let_def)
qed

theorem action_roundtrip_witness:
  "deserialize (ss_actions (pushAction (rule_action (sample_rule Notify 97)) initial_state)) 0 =
    Inr ((rule_action (sample_rule Notify 97))\<lparr>m_actionID := 0\<rparr>)"
proof -
  let ?a = "rule_action (sample_rule Notify 97)"
  have l: "length (ss_actions (pushAction ?a initial_state)) = 10" "last (actionLocations (pushAction ?a initial_state)) = 0" by code_simp+
  have "arg_ok (m_type ?a) (m_stringArgument ?a)" by (simp add: sample_rule_def arg_ok_def sample_string_def wf_string_def)
  from action_roundtrip [OF this, of initial_state] l show ?thesis by (simp add: Let_def sample_rule_def)
qed

text \<open>C6: The location of a rule holds the action of the rule: reading it gives the type of the action and its argument, or for
  a \<open>css-display-none\<close> rule without conditions the selectors of rules with an equal trigger, this rule among them, joined with commas.\<close>

theorem serializeActions_reads:
  assumes "enumerates ord" and "\<forall>r \<in> set rules. rule_ok r" and "serializeActions ord rules = (actions, locations)"
    and "length actions < 2 ^ 32"
  shows "length locations = length rules \<and>
    (\<forall>i < length rules. \<exists>a. deserialize actions (locations ! i) = Inr a \<and> m_type a = rule_type (rules ! i) \<and>
      (if joinable (rules ! i)
       then \<exists>t G. group rules t G \<and> i \<in> set G \<and> characters (stringArgument a) = css_join (selectors rules G)
       else map_option characters (m_stringArgument a) = map_option characters (rule_arg (rules ! i))))"
proof -
  obtain E where E: "actions = stream E" "emitted_ok E" "length locations = length rules"
    "\<forall>i < length rules. located rules E (locations ! i) i"
    using serializeActions_inv [OF assms(1-3)] by blast
  then show ?thesis using located_read [of rules E] assms(4) unfolding E(1) by blast
qed

theorem serializeActions_reads_witness:
  "\<exists>a. deserialize (fst (serializeActions id sample_rules)) 13 = Inr a \<and> m_type a = CSSDisplayNoneSelector"
proof -
  have "3 < length sample_rules" "rule_type (sample_rules ! 3) = CSSDisplayNoneSelector" by (simp_all add: sample_rules_def sample_rule_def)
  then show ?thesis
    using serializeActions_reads [OF enumerates_id sample_rules_ok sample_rules_serialized] unfolding sample_rules_serialized by fastforce
qed

text \<open>C5: Sharing locations does not move an action across an ignoring one: an ignoring rule has a smaller location than another
  rule exactly when it comes before it. Comparing locations, which is all that is left of the rule list when a resource is loaded, decides
  what is ignored.\<close>

theorem serializeActions_order:
  assumes "enumerates ord" and "\<forall>r \<in> set rules. rule_ok r" and "serializeActions ord rules = (actions, locations)"
    and "i < length rules" and "j < length rules" and "ignores (rules ! i)" and "\<not> ignores (rules ! j)"
  shows "locations ! i < locations ! j \<longleftrightarrow> i < j"
proof -
  have o: "ordered rules [] locations" using serializeActions_inv [OF assms(1-3)] by blast
  have "(i < j \<longrightarrow> locations ! i < locations ! j) \<and> (j < i \<longrightarrow> locations ! j < locations ! i)"
    using o assms(4-7) by (simp add: ordered_def pending_def)
  moreover have "i \<noteq> j" using assms(6,7) by blast
  ultimately show ?thesis by auto
qed

theorem serializeActions_order_witness: "snd (serializeActions id sample_rules) ! 2 < snd (serializeActions id sample_rules) ! 4"
  using serializeActions_order [OF enumerates_id sample_rules_ok sample_rules_serialized, of 2 4] unfolding sample_rules_serialized
  by (simp add: sample_rules_def sample_rule_def ignores_def)


section \<open>Loading resources\<close>

text \<open>The sample rules in a compiled rule list: the first, the third and the last rule match every URL.\<close>

definition sample_compiled :: CompiledContentExtension where
  "sample_compiled = \<lparr>filtersWithoutConditionsBytecode = [20, 0, 0, 0, 6, 0, 0, 0, 0, 6, 11, 0, 0, 0, 6, 12, 0, 0, 0, 10],
     filtersWithConditionsBytecode = [5, 0, 0, 0, 10], topURLFiltersBytecode = [5, 0, 0, 0, 10],
     compiled_actions = fst (serializeActions id sample_rules), conditionsApplyOnlyToDomain = False\<rparr>"

definition sample_extension :: ContentExtension where
  "sample_extension = \<lparr>m_identifier = ascii8 ''list'', m_compiledExtension = sample_compiled, m_globalDisplayNoneStyleSheet = None,
     m_cachedTopURL = URL_null, m_cachedTopURLActions = [], m_cachedUniversalConditionedActions = [],
     m_universalActionsWithoutConditions = [0, 11, 12], m_universalActionsWithConditions = []\<rparr>"

text \<open>The URL \<open>http://a/\<close>.\<close>

definition sample_url :: URL where
  "sample_url = \<lparr>url_string = Some (ascii ''http://a/''), url_isValid = True, url_portLength = 0, url_schemeEnd = 4, url_userStart = 7,
     url_passwordEnd = 7, url_hostEnd = 8\<rparr>"

definition sample_env :: load_environment where
  "sample_env = \<lparr>env_action_order = id, env_extension_order = id, env_isThirdParty = \<lambda>_ _. False\<rparr>"

lemma sample_runs:
  "ContentExtension_create id (\<lambda>_. True) (ascii8 ''list'') sample_compiled CompileCSS_No = Some (Inr sample_extension)"
  "interpretUrl (filtersWithoutConditionsBytecode sample_compiled) (ascii ''http://a/'') 0x401 = Some (Inr [])"
  "interpretUrl [5, 0, 0, 0, 10] (ascii ''http://a/'') 0xFFF = Some (Inr [])"
  "interpretWithConditions [5, 0, 0, 0, 10] (ascii ''http://a/'') 0x401 [] = Some (Inr [])"
  "actionsMatchingEverything [5, 0, 0, 0, 10] = Some (Inr [])"
  by code_simp+

lemma sample_populate:
  "populateConditionCacheIfNeeded id sample_url sample_extension = Some (Inr (sample_extension\<lparr>m_cachedTopURL := sample_url\<rparr>))"
  using sample_runs(3,5)
  by (simp add: populateConditionCacheIfNeeded_def sample_extension_def sample_compiled_def url_eq_def sample_url_def URL_null_def url_chars_def
    allLoadTypesAndResourceTypes_def LoadTypeMask_def ResourceTypeMask_def hs_add_all_def Let_def)

text \<open>C4: Which rules apply to a load. When the rules of a list that match the load have the numbers \<open>M\<close>, the actions are
  those of the rules of \<open>M\<close> after the last ignoring rule of \<open>M\<close>, each once per location and tagged with the name of the list; the style sheet of
  the list is used exactly when no ignoring rule matched.\<close>

theorem extensionActions_ignores:
  assumes "interpretUrl (filtersWithoutConditionsBytecode (m_compiledExtension e)) url flags = Some (Inr wo)"
    and "populateConditionCacheIfNeeded ord topURL e = Some (Inr e1)"
    and "interpretWithConditions (filtersWithConditionsBytecode (m_compiledExtension e)) url flags (m_cachedTopURLActions e1) = Some (Inr w)"
    and "enumerates ord" and "distinct wo" and "distinct w" and "enumerates ord'" and "\<forall>r \<in> set rules. rule_ok r"
    and "serializeActions ord' rules = (compiled_actions (m_compiledExtension e), L)"
    and "length (compiled_actions (m_compiledExtension e)) < 2 ^ 32"
    and "M \<subseteq> {..< length rules}" and "matched wo w e1 = (!) L ` M"
  shows "\<exists>ls. set ls = (!) L ` {j \<in> M. \<not> ignores (rules ! j) \<and> (\<forall>i \<in> M. ignores (rules ! i) \<longrightarrow> i < j)} \<and> sorted_wrt (\<ge>) ls \<and>
    extensionActions ord url flags topURL e = Some (Inr
      (map (\<lambda>l. setExtensionIdentifier (m_identifier e) (action_at (compiled_actions (m_compiledExtension e)) l)) ls,
       \<exists>i \<in> M. ignores (rules ! i), e1))"
  using assms by (rule extensionActions_rules)

theorem extensionActions_ignores_witness:
  "\<exists>ls. set ls = {12} \<and> sorted_wrt (\<ge>) ls \<and> extensionActions id (ascii ''http://a/'') 0x401 sample_url sample_extension = Some (Inr
      (map (\<lambda>l. setExtensionIdentifier (ascii8 ''list'') (action_at (fst (serializeActions id sample_rules)) l)) ls, True,
       sample_extension\<lparr>m_cachedTopURL := sample_url\<rparr>))"
proof -
  let ?e1 = "sample_extension\<lparr>m_cachedTopURL := sample_url\<rparr>"
  have e: "m_compiledExtension sample_extension = sample_compiled" "m_identifier sample_extension = ascii8 ''list''"
    "m_cachedTopURLActions ?e1 = []" "filtersWithConditionsBytecode sample_compiled = [5, 0, 0, 0, 10]"
    "compiled_actions sample_compiled = fst (serializeActions id sample_rules)"
    by (simp_all add: sample_extension_def sample_compiled_def)
  have s: "serializeActions id sample_rules = (compiled_actions sample_compiled, [0, 1, 11, 13, 12])"
    unfolding e(5) sample_rules_serialized by simp
  have l: "length (compiled_actions sample_compiled) < 2 ^ 32" unfolding e(5) sample_rules_serialized by simp
  have i: "\<not> ignores (sample_rules ! 0)" "ignores (sample_rules ! 2)" "\<not> ignores (sample_rules ! 4)"
    by (simp_all add: sample_rules_def sample_rule_def ignores_def)
  have M: "{0, 2, 4} \<subseteq> {..< length sample_rules}" by (simp add: sample_rules_def)
  have m: "matched [] [] ?e1 = (!) [0, 1, 11, 13, 12] ` {0, 2, 4}" by (simp add: matched_def sample_extension_def)
  have j: "{j \<in> {0, 2, 4}. \<not> ignores (sample_rules ! j) \<and> (\<forall>i \<in> {0, 2, 4}. ignores (sample_rules ! i) \<longrightarrow> i < j)} = {4}"
    using i by auto
  show ?thesis
    using extensionActions_ignores [of sample_extension "ascii ''http://a/''" "0x401" "[]" id sample_url ?e1 "[]" id sample_rules
        "[0, 1, 11, 13, 12]" "{0, 2, 4}", unfolded e j, OF sample_runs(2) sample_populate sample_runs(4) enumerates_id _ _ enumerates_id
        sample_rules_ok s [unfolded e] l [unfolded e] M m] i
    by simp
qed

text \<open>C12: The cache of conditions is never stale. It is right after a rule list has been created and stays right, and what it holds
  after it has been asked for a URL is what the conditions say about that URL, as long as URLs with one string have one host. The null URL is left
  out: it is the URL of the empty cache.\<close>

theorem condition_cache_invariant:
  assumes "cache_ok ord e" and "populateConditionCacheIfNeeded ord topURL e = Some (Inr e')"
    and "url_string topURL = url_string (m_cachedTopURL e) \<longrightarrow> host topURL = host (m_cachedTopURL e)"
  shows "cache_ok ord e' \<and> (url_string topURL \<noteq> None \<longrightarrow>
    condition_cache ord topURL e = Some (Inr (m_cachedTopURLActions e', m_cachedUniversalConditionedActions e')))"
  using populate_cache_ok [OF assms(2,1)] assms(3) by blast

theorem condition_cache_invariant_witness:
  "cache_ok id (sample_extension\<lparr>m_cachedTopURL := sample_url\<rparr>)"
  using condition_cache_invariant [OF create_cache_ok [OF sample_runs(1)] sample_populate]
  by (simp add: sample_extension_def sample_url_def URL_null_def)


text \<open>C17: The search for the first ignoring action ends on the actions of every rule list, and finds a location that is not above that of
  any ignoring rule, and not below that of any other rule in front of all ignoring ones.\<close>

theorem findFirst_terminates:
  assumes "enumerates ord" and "\<forall>r \<in> set rules. rule_ok r" and "serializeActions ord rules = (compiled_actions (m_compiledExtension e), L)"
    and "length (compiled_actions (m_compiledExtension e)) < 2 ^ 32"
  shows "\<exists>first. findFirstIgnorePreviousRules e = Some (Inr first) \<and> (\<forall>i < length rules. ignores (rules ! i) \<longrightarrow> first \<le> L ! i) \<and>
    (first = 2 ^ 32 - 1 \<or> deserializeType (compiled_actions (m_compiledExtension e)) first = Inr IgnorePreviousRules)"
proof -
  obtain E where E: "compiled_actions (m_compiledExtension e) = stream E" "emitted_ok E" "\<forall>i < length rules. located rules E (L ! i) i"
    using serializeActions_inv [OF assms(1-3)] by blast
  have "first_ignore E \<le> L ! i" if "i < length rules" "ignores (rules ! i)" for i
    using first_ignore_least [of E "L ! i"] E(3) that by (auto simp: located_def ignores_def)
  then show ?thesis
    using findFirstIgnorePreviousRules_stream [OF E(1,2)] first_ignore_type [OF E(2)] assms(4) E(1) by auto
qed

theorem findFirst_terminates_witness:
  "\<exists>first. findFirstIgnorePreviousRules sample_extension = Some (Inr first) \<and> first \<le> 11"
proof -
  have s: "serializeActions id sample_rules = (compiled_actions (m_compiledExtension sample_extension), [0, 1, 11, 13, 12])"
    by (simp add: sample_extension_def sample_compiled_def sample_rules_serialized)
  have l: "length (compiled_actions (m_compiledExtension sample_extension)) < 2 ^ 32"
    by (simp add: sample_extension_def sample_compiled_def sample_rules_serialized)
  have "2 < length sample_rules" "ignores (sample_rules ! 2)" by (simp_all add: sample_rules_def sample_rule_def ignores_def)
  then show ?thesis using findFirst_terminates [OF enumerates_id sample_rules_ok s l] by fastforce
qed

text \<open>C16: The global style sheet takes the selectors that match everything and come before every ignoring action, joined with commas, and
  those are taken from the universal actions; nothing changes when there are none.\<close>

theorem global_style_sheet:
  assumes "compiled_actions (m_compiledExtension e) = stream E" and "locations_ok E (m_universalActionsWithoutConditions e)"
  shows "\<exists>text. characters text = sheet_text (global_css E (m_universalActionsWithoutConditions e)) \<and>
    compileGlobalDisplayNoneStyleSheet parseString e = Some (Inr
      (if global_css E (m_universalActionsWithoutConditions e) = [] then e
       else e\<lparr>m_globalDisplayNoneStyleSheet := (if parseString text then Some text else None),
              m_universalActionsWithoutConditions :=
                filter (\<lambda>l. \<not> global (stream E) (first_ignore E) l) (m_universalActionsWithoutConditions e)\<rparr>))"
  using assms by (rule compileGlobalDisplayNoneStyleSheet_spec)

theorem global_style_sheet_witness:
  "\<exists>text. characters text = ascii ''a{display:none !important;}'' \<and>
    compileGlobalDisplayNoneStyleSheet (\<lambda>_. True) (sample_extension\<lparr>m_compiledExtension := sample_compiled\<lparr>compiled_actions :=
        stream [(CSSDisplayNoneSelector, Some (ascii8 ''a''))]\<rparr>, m_universalActionsWithoutConditions := [0]\<rparr>) =
      Some (Inr (sample_extension\<lparr>m_compiledExtension := sample_compiled\<lparr>compiled_actions :=
        stream [(CSSDisplayNoneSelector, Some (ascii8 ''a''))]\<rparr>, m_universalActionsWithoutConditions := [],
        m_globalDisplayNoneStyleSheet := Some text\<rparr>))"
proof -
  let ?E = "[(CSSDisplayNoneSelector, Some (ascii8 ''a''))]"
  let ?e = "sample_extension\<lparr>m_compiledExtension := sample_compiled\<lparr>compiled_actions := stream ?E\<rparr>, m_universalActionsWithoutConditions := [0]\<rparr>"
  have at: "emitted_at ?E 0 CSSDisplayNoneSelector (Some (ascii8 ''a''))" by (simp add: emitted_at_def) fastforce
  have "length (stream ?E) < 2 ^ 32" by (simp add: action_bytes_def serializeString_def ascii8_def ascii_def string_length_def)
  then have l: "locations_ok ?E [0]" using at by (auto simp: locations_ok_def arg_ok_def ascii8_def ascii_def wf_string_def)
  have g: "global_css ?E [0] = ascii ''a''" "global (stream ?E) (first_ignore ?E) 0" by code_simp+
  have c: "compiled_actions (m_compiledExtension ?e) = stream ?E" "m_universalActionsWithoutConditions ?e = [0]" by simp_all
  have "sheet_text (ascii ''a'') = ascii ''a{display:none !important;}''" "ascii ''a'' \<noteq> []" by (simp_all add: sheet_text_def ascii_def)
  then show ?thesis using global_style_sheet [OF c(1), of "\<lambda>_. True"] l g unfolding c(2) by (simp add: sample_extension_def)
qed


text \<open>C14: The status of a load: it is blocked, loses its cookies or is made secure exactly when an action that applies says so, and
  the notifications are those of the actions that apply. Processing returns: the assertion that no ignoring action is left holds.\<close>

theorem load_status:
  assumes "exts \<noteq> []"
    and "actionsForResourceLoad env \<lparr>resourceURL = url, mainDocumentURL = loadMainDocumentURL url rt loader, info_type = rt\<rparr> exts
      = Some (Inr (acts, ids, exts'))"
  shows "\<exists>status effects. processContentExtensionRulesForLoad env url rt loader exts = Some (Inr (status, effects, exts')) \<and>
    (blockedLoad status \<longleftrightarrow> has_type BlockLoad acts) \<and> (blockedCookies status \<longleftrightarrow> has_type BlockCookies acts) \<and>
    (madeHTTPS status \<longleftrightarrow> canMakeHTTPS url \<and> has_type MakeHTTPS acts) \<and> set (notifications status) = notified acts"
  using assms by (rule processContentExtensionRulesForLoad_status)

definition sample_actions :: "Action list" where
  "sample_actions = [\<lparr>m_extensionIdentifier = Some (ascii8 ''list''), m_type = BlockLoad, m_actionID = 12, m_stringArgument = None\<rparr>]"

lemma sample_load:
  "actionsForResourceLoad sample_env \<lparr>resourceURL = sample_url, mainDocumentURL = URL_null, info_type = rt\<rparr> [(ascii ''list'', sample_extension)]
    = Some (Inr (sample_actions, [], [(ascii ''list'', sample_extension)]))"
  if "rt = RT_Document \<or> rt = RT_Raw" for rt
  using that by (elim disjE; hypsubst; code_simp)

theorem load_status_witness:
  "\<exists>status effects. processContentExtensionRulesForLoad sample_env sample_url RT_Document \<lparr>loader_frame = None, isLoadingMainResource = False\<rparr>
      [(ascii ''list'', sample_extension)] = Some (Inr (status, effects, [(ascii ''list'', sample_extension)])) \<and>
    blockedLoad status \<and> \<not> blockedCookies status"
proof -
  have "loadMainDocumentURL sample_url RT_Document \<lparr>loader_frame = None, isLoadingMainResource = False\<rparr> = URL_null"
    by (simp add: loadMainDocumentURL_def)
  then show ?thesis
    using load_status [of "[(ascii ''list'', sample_extension)]" sample_env sample_url RT_Document "\<lparr>loader_frame = None, isLoadingMainResource = False\<rparr>"]
      sample_load [of RT_Document] by (fastforce simp: sample_actions_def)
qed

text \<open>C15: The same for a ping, which raises no notifications.\<close>

theorem ping_status:
  assumes "exts \<noteq> []"
    and "actionsForResourceLoad env \<lparr>resourceURL = url, mainDocumentURL = mainURL, info_type = RT_Raw\<rparr> exts = Some (Inr (acts, ids, exts'))"
  shows "\<exists>status. processContentExtensionRulesForPingLoad env url mainURL exts = Some (Inr (status, exts')) \<and>
    (blockedLoad status \<longleftrightarrow> has_type BlockLoad acts) \<and> (blockedCookies status \<longleftrightarrow> has_type BlockCookies acts) \<and>
    (madeHTTPS status \<longleftrightarrow> canMakeHTTPS url \<and> has_type MakeHTTPS acts) \<and> notifications status = []"
  using assms by (rule processContentExtensionRulesForPingLoad_status)

theorem ping_status_witness:
  "\<exists>status. processContentExtensionRulesForPingLoad sample_env sample_url URL_null [(ascii ''list'', sample_extension)]
      = Some (Inr (status, [(ascii ''list'', sample_extension)])) \<and> blockedLoad status"
  using ping_status [of "[(ascii ''list'', sample_extension)]" sample_env sample_url URL_null] sample_load [of RT_Raw]
  by (fastforce simp: sample_actions_def)

text \<open>C13: The table of rule lists keeps its form: every operation leaves one entry per name, under the name that the rule list carries,
  and no entry under the empty name; adding replaces, removing removes, and a load changes no name.\<close>

theorem extensions_invariant:
  assumes "wf_extensions exts"
  shows "wf_extensions (removeContentExtension name exts) \<and> map_of (removeContentExtension name exts) = (map_of exts)(characters name := None) \<and>
    wf_extensions (removeAllContentExtensions exts) \<and> removeAllContentExtensions exts = [] \<and>
    (addContentExtension ord parseString name compiled css exts = Some (Inr exts1) \<longrightarrow> wf_extensions exts1 \<and>
       (characters name \<noteq> [] \<longrightarrow> (\<exists>e. ContentExtension_create ord parseString name compiled css = Some (Inr e) \<and>
          map_of exts1 = (map_of exts)(characters name \<mapsto> e)))) \<and>
    (actionsForResourceLoad env info exts = Some (Inr (acts, ids, exts2)) \<longrightarrow> wf_extensions exts2 \<and> fst ` set exts2 = fst ` set exts)"
proof (intro conjI impI)
  show "wf_extensions (removeContentExtension name exts)"
    using assms distinct_delete [of exts] by (auto simp: wf_extensions_def removeContentExtension_def AList.delete_eq)
  show "map_of (removeContentExtension name exts) = (map_of exts)(characters name := None)"
    by (simp add: removeContentExtension_def AList.delete_conv')
  assume "actionsForResourceLoad env info exts = Some (Inr (acts, ids, exts2))"
  then show "wf_extensions exts2" "fst ` set exts2 = fst ` set exts"
    using assms actionsLoop_wf [of _ _ _ _ _ exts "[]" "[]"] unfolding actionsForResourceLoad_def by (simp_all split: if_splits)
next
  assume a: "addContentExtension ord parseString name compiled css exts = Some (Inr exts1)"
  show "wf_extensions exts1"
    using a assms by (auto simp: addContentExtension_def obind_eq_Inr create_identifier intro!: wf_extensions_update split: if_splits)
  show "characters name \<noteq> [] \<Longrightarrow> \<exists>e. ContentExtension_create ord parseString name compiled css = Some (Inr e) \<and>
      map_of exts1 = (map_of exts)(characters name \<mapsto> e)"
    using a by (auto simp: addContentExtension_def obind_eq_Inr update_conv')
qed (simp_all add: removeAllContentExtensions_def wf_extensions_def)

theorem extensions_invariant_witness:
  "map_of (removeContentExtension (ascii8 ''list'') [(ascii ''list'', sample_extension)]) = Map.empty"
  using extensions_invariant [of "[(ascii ''list'', sample_extension)]" "ascii8 ''list''"]
  by (simp add: wf_extensions_def sample_extension_def ascii8_def ascii_def)

text \<open>C20: Ports are read back: a number that has been written in decimal is read as it was.\<close>

theorem number_roundtrip:
  assumes "n < 2 ^ 32"
  shows "charactersToUIntStrict 10 (numberToString n) = Some n"
  using assms by (rule charactersToUIntStrict_number)

theorem number_roundtrip_witness: "charactersToUIntStrict 10 (numberToString 443) = Some 443"
  using number_roundtrip [of 443] by simp

text \<open>C28: A number that is read fits 32 bits, in every base: the check before each digit excludes the overflow of \<open>base * value + digit\<close>.\<close>

theorem charactersToUIntStrict_bound:
  assumes "charactersToUIntStrict base cs = Some n" and "0 < base"
  shows "n < 2 ^ 32"
  using assms digitsLoop_bound [of base 0] by (fastforce simp: charactersToUIntStrict_def Let_def split: if_splits option.splits)

theorem charactersToUIntStrict_bound_witness: "(4294967295 :: nat) < 2 ^ 32 \<and> charactersToUIntStrict 10 (ascii ''4294967296'') = None"
proof -
  have "charactersToUIntStrict 10 (ascii ''4294967295'') = Some 4294967295" "charactersToUIntStrict 10 (ascii ''4294967296'') = None" by code_simp+
  then show ?thesis using charactersToUIntStrict_bound [of 10 "ascii ''4294967295''" 4294967295] by simp
qed

section \<open>Parsing rule lists\<close>

definition parsed_rule :: ContentExtensionRule where
  "parsed_rule = \<lparr>rule_trigger = Trigger_default\<lparr>urlFilter := ascii8 ''ads'', trigger_flags := 0x0402, conditions := [ascii8 ''example.com''],
     conditionType := CT_UnlessDomain\<rparr>, rule_action = Action_string Notify (ascii8 ''seen'') defaultActionID\<rparr>"

definition sample_services :: parser_services where
  "sample_services = \<lparr>JSONParse = \<lambda>_. Some (JSArray [encodeRule parsed_rule]),
     toWTFString = \<lambda>v. case v of JSString s \<Rightarrow> s | _ \<Rightarrow> emptyString, isValidCSSSelector = \<lambda>_. True\<rparr>"

lemma parsed_rule_ok: "trigger_ok (rule_trigger parsed_rule)" "rule_ok parsed_rule"
  by (simp_all add: parsed_rule_def trigger_ok_def condition_ok_def namedFlags_def Trigger_default_def ascii8_def ascii_def
      containsOnlyASCIIWithNoUppercase_def isASCIIUpper_def rule_ok_def arg_ok_def Action_string_def wf_string_def)

text \<open>C30: A rule list that parses has at least one rule and at most \<open>maxRuleCount\<close>, and each of its rules has an argument exactly
  if its action takes one, a filter that is not empty, flags that have a name, and conditions of one type, which are not empty
  and, where they are domains, lower case ASCII.\<close>

theorem parsed_rules:
  assumes "parseRuleList S json = Inr rules" and "\<And>v. JSONParse S json = Some v \<Longrightarrow> strings_ok v"
  shows "rules \<noteq> [] \<and> length rules \<le> maxRuleCount \<and> (\<forall>r \<in> set rules. rule_ok r \<and> trigger_ok (rule_trigger r))"
  by (rule parseRuleList_ok [OF assms])

lemma sample_parse: "parseRuleList sample_services json = Inr [parsed_rule]"
proof -
  have "loadRule sample_services (encodeRule parsed_rule) = Inr (Some parsed_rule)"
    by (rule loadRule_encode [OF parsed_rule_ok(1) _ parsed_rule_ok(2)])
      (simp_all add: sample_services_def parsed_rule_def Action_string_def)
  moreover have "encodeRule parsed_rule \<noteq> JSNull" by (simp add: encodeRule_def)
  ultimately show ?thesis
    by (simp add: parseRuleList_def loadEncodedRules_def sample_services_def maxRuleCount_def)
qed

theorem parsed_rules_witness: "rule_ok parsed_rule \<and> trigger_ok (rule_trigger parsed_rule)"
proof -
  have "strings_ok v" if "JSONParse sample_services emptyString = Some v" for v
    using that by (auto simp: sample_services_def encodeRule_def encodeTrigger_def encodeAction_def flag_names_def parsed_rule_def
        Trigger_default_def Action_string_def stringArgument_def resourceTypeNames_def loadTypeNames_def ascii8_def ascii_def wf_string_def)
  then show ?thesis using parsed_rules [OF sample_parse, of emptyString] by simp
qed

text \<open>C31: A rule written as JSON is loaded back, provided its trigger could come from the parser, its action has the default
  identifiers and its selector is valid, and the conversion of a string value to a string is the string.\<close>

theorem rule_json_roundtrip:
  assumes "trigger_ok (rule_trigger r)" and "\<And>s. toWTFString S (JSString s) = s" and "rule_ok r"
    and "m_type (rule_action r) = CSSDisplayNoneSelector \<Longrightarrow> isValidCSSSelector S (stringArgument (rule_action r))"
    and "m_extensionIdentifier (rule_action r) = None" and "m_actionID (rule_action r) = defaultActionID"
  shows "loadRule S (encodeRule r) = Inr (Some r)"
  by (rule loadRule_encode [OF assms])

theorem rule_json_roundtrip_witness: "loadRule sample_services (encodeRule parsed_rule) = Inr (Some parsed_rule)"
  by (rule rule_json_roundtrip [OF parsed_rule_ok(1) _ parsed_rule_ok(2)])
    (simp_all add: sample_services_def parsed_rule_def Action_string_def)

text \<open>C32: A trigger with two of the properties \<^verbatim>\<open>if-domain\<close>, \<^verbatim>\<open>unless-domain\<close>, \<^verbatim>\<open>if-top-url\<close> and
  \<^verbatim>\<open>unless-top-url\<close> does not load.\<close>

theorem one_condition:
  assumes "js_get v ''trigger'' = Some obj" and "2 \<le> length (filter (\<lambda>n. js_get obj n \<noteq> None) condition_properties)"
  shows "\<exists>e. loadTrigger S v = Inl e"
  using loadTrigger_conditions [OF _ assms(1)] assms(2) by (cases "loadTrigger S v") fastforce+

definition two_conditions :: js_value where
  "two_conditions = JSObject [(ascii ''url-filter'', JSString (ascii8 ''a'')), (ascii ''if-domain'', JSArray [JSString (ascii8 ''b'')]),
     (ascii ''if-top-url'', JSArray [JSString (ascii8 ''c'')])]"

theorem one_condition_witness: "\<exists>e. loadTrigger sample_services (JSObject [(ascii ''trigger'', two_conditions)]) = Inl e"
proof (rule one_condition)
  show "js_get (JSObject [(ascii ''trigger'', two_conditions)]) ''trigger'' = Some two_conditions" by simp
  show "2 \<le> length (filter (\<lambda>n. js_get two_conditions n \<noteq> None) condition_properties)" by code_simp
qed


section \<open>URL filters\<close>

text \<open>C34: The parser of regular expressions returns on every pattern, no assertion fails, and its calls of the delegate
  follow the order that the interface promises: a quantifier only behind an atom, a class from its beginning to its end, a group closed
  only if one is open. Without an error all groups are closed in the end.\<close>

theorem yarr_calls_protocol:
  "\<exists>q st. yarr_parse C pattern = Some q \<and> run_calls (m_calls q) (Outside False 0) = Some st \<and> (hasError q \<or> (\<exists>b. st = Outside b 0))"
  by (rule yarr_parse_protocol)


definition sample_config :: yarr_config where
  "sample_config = \<lparr>m_isUnicode = False, m_backReferenceLimit = 0, isValidNamedForwardReference = \<lambda>_. False, isLetter = \<lambda>_. False,
     isIdentifierPartCategory = \<lambda>_. False, unicodeMatchProperty = \<lambda>_. None, unicodeMatchPropertyValue = \<lambda>_ _. None\<rparr>"


text \<open>C36: Terms printed as a regular expression are parsed back, and the pattern that is added to the combined filters
  matches where the terms match. It is rejected if every term may be left out.\<close>

theorem filter_roundtrip:
  assumes "list_all zero_free ts" and "ts \<noteq> []" and "length (print_pattern bol eol ts) \<le> MAX_PATTERN_SIZE"
    and "characters pattern = print_pattern bol eol ts"
  shows "\<exists>us. filters_parsePattern C pattern True i f =
      Some (if list_ex matchesAtLeastOneCharacter us then (Ok, filters_addPattern i us f) else (MatchesEverything, f)) \<and>
    (\<forall>u. url_word u \<longrightarrow> (pattern_matches us u \<longleftrightarrow>
      (\<exists>k \<le> length u. (bol \<longrightarrow> k = 0) \<and> pattern_matches (ts @ (if eol then [eol_term] else [])) (drop k u))))"
proof -
  have ok: "terms_ok (ts @ (if eol then [eol_term] else []))" using assms(1) by (auto simp: terms_ok_def)
  obtain us where us: "simplifySunkTerms bol (ts @ (if eol then [eol_term] else [])) = Some us"
    "filters_parsePattern C pattern True i f =
      Some (if list_ex matchesAtLeastOneCharacter us then (Ok, filters_addPattern i us f) else (MatchesEverything, f))"
    using parse_printed [OF assms(1) disjI1 [OF assms(2)] assms(3,4)] by blast
  have "pattern_matches us u \<longleftrightarrow>
      (\<exists>k \<le> length u. (bol \<longrightarrow> k = 0) \<and> pattern_matches (ts @ (if eol then [eol_term] else [])) (drop k u))" if "url_word u" for u
    using simplify_matches [OF ok _ that, of bol] us(1) assms(2) by auto
  then show ?thesis using us(2) by blast
qed

lemma print_class_size: "length (print_pattern bol eol [CharacterSetTerm s q]) \<le> MAX_PATTERN_SIZE"
  using print_class_length [of s q] by (simp add: print_pattern_def MAX_PATTERN_SIZE_def del: print_term.simps)

theorem filter_roundtrip_witness:
  "\<exists>us. filters_parsePattern sample_config \<lparr>is8Bit = True, characters = print_pattern False True [character_term 97]\<rparr> True 1 CombinedURLFilters_default =
      Some (if list_ex matchesAtLeastOneCharacter us then (Ok, filters_addPattern 1 us CombinedURLFilters_default)
            else (MatchesEverything, CombinedURLFilters_default)) \<and>
    pattern_matches us [98, 97]"
proof -
  obtain s where s: "character_term 97 = CharacterSetTerm s One" using character_term_set(2) [of 97] by auto
  have len: "length (print_pattern False True [character_term 97]) \<le> MAX_PATTERN_SIZE" by (simp only: s print_class_size)
  have z: "list_all zero_free [character_term 97]" using character_term_set(1) [of 97] by simp
  obtain us where us: "filters_parsePattern sample_config \<lparr>is8Bit = True, characters = print_pattern False True [character_term 97]\<rparr> True 1 CombinedURLFilters_default =
      Some (if list_ex matchesAtLeastOneCharacter us then (Ok, filters_addPattern 1 us CombinedURLFilters_default)
            else (MatchesEverything, CombinedURLFilters_default))"
    "\<forall>u. url_word u \<longrightarrow> (pattern_matches us u \<longleftrightarrow> (\<exists>k \<le> length u. pattern_matches [character_term 97, eol_term] (drop k u)))"
    using filter_roundtrip [OF z _ len, of "\<lparr>is8Bit = True, characters = print_pattern False True [character_term 97]\<rparr>"
        sample_config 1 CombinedURLFilters_default] by auto
  have "pattern_matches [character_term 97, eol_term] (drop 1 [98, 97])"
    by (auto simp: pattern_matches_def character_term(2) conc_def)
  then have "pattern_matches us [98, 97]" using us(2) [rule_format, of "[98, 97]"] by (auto intro!: exI [of _ 1])
  then show ?thesis using us(1) by blast
qed

text \<open>C37: \<open>addDomain\<close> adds patterns that match exactly the domain, with a leading asterisk the domain and its subdomains.\<close>

theorem domain_patterns:
  assumes "url_word (characters domain)"
  shows "\<exists>f' P. addDomain i domain f = Some f' \<and> (\<forall>ts a. filters_have f' ts a \<longleftrightarrow> filters_have f ts a \<or> ts \<in> P \<and> a = i) \<and>
    (\<forall>h. url_word h \<longrightarrow> ((\<exists>ts \<in> P. pattern_matches ts h) \<longleftrightarrow> domain_of (characters domain) h))"
  using assms by (rule addDomain_matches)

theorem domain_patterns_witness:
  "\<exists>f' P. addDomain 1 (ascii8 ''*b.c'') CombinedURLFilters_default = Some f' \<and>
    (\<forall>ts a. filters_have f' ts a \<longleftrightarrow> filters_have CombinedURLFilters_default ts a \<or> ts \<in> P \<and> a = 1) \<and>
    (\<exists>ts \<in> P. pattern_matches ts (ascii ''a.b.c''))"
proof -
  have u: "url_word (characters (ascii8 ''*b.c''))" "url_word (ascii ''a.b.c'')" "domain_of (characters (ascii8 ''*b.c'')) (ascii ''a.b.c'')"
    by (simp_all add: ascii8_def ascii_def url_word_def domain_of_def)
  show ?thesis using domain_patterns [OF u(1), of 1 CombinedURLFilters_default] u(2,3) by blast
qed

text \<open>C38: An escape in a character class can name a character that is not ASCII, which the parser does not check: adding it to the
  set of characters fails an assertion that release builds keep.\<close>

theorem class_escape_crash:
  "filters_parsePattern C (ascii8 ([CHR 0x5B, CHR 0x5C] @ ''xff]'')) caseSensitive i f = None"
proof (cases C)
  case (fields u l v s c p q)
  have "filters_parsePattern \<lparr>m_isUnicode = u, m_backReferenceLimit = l, isValidNamedForwardReference = v, isLetter = s,
     isIdentifierPartCategory = c, unicodeMatchProperty = p, unicodeMatchPropertyValue = q\<rparr> (ascii8 ([CHR 0x5B, CHR 0x5C] @ ''xff]'')) True i f = None"
    by code_simp
  moreover have "filters_parsePattern \<lparr>m_isUnicode = u, m_backReferenceLimit = l, isValidNamedForwardReference = v, isLetter = s,
     isIdentifierPartCategory = c, unicodeMatchProperty = p, unicodeMatchPropertyValue = q\<rparr> (ascii8 ([CHR 0x5B, CHR 0x5C] @ ''xff]'')) False i f = None"
    by code_simp
  ultimately show ?thesis unfolding fields by (cases caseSensitive) (simp_all only: refl)
qed

definition optional_a :: Term where
  "optional_a = quantify ZeroOrOne (character_term 97)"

lemma optional_a: "zero_free optional_a" "term_lang optional_a = {[], [97]}" "\<exists>s. optional_a = CharacterSetTerm s ZeroOrOne"
proof -
  obtain s where s: "character_term 97 = CharacterSetTerm s One" using character_term_set(2) [of 97] by auto
  show "zero_free optional_a" "\<exists>s. optional_a = CharacterSetTerm s ZeroOrOne"
    using character_term_set(1) [of 97] by (simp_all add: optional_a_def s)
  have "atom_lang (CharacterSetTerm s One) = {[97]}" using character_term(2) [of 97] s by (simp add: term_lang_def)
  then show "term_lang optional_a = {[], [97]}" by (auto simp: optional_a_def s term_lang_def)
qed

text \<open>C39: The filter for an optional \<^verbatim>\<open>a\<close> between the beginning and the end of the URL is rejected as one that matches everything,
  although it does not match the URL \<^verbatim>\<open>b\<close>.\<close>

theorem rejected_not_universal:
  "filters_parsePattern C \<lparr>is8Bit = True, characters = print_pattern True True [optional_a]\<rparr> True i f = Some (MatchesEverything, f) \<and>
    \<not> pattern_matches [optional_a, eol_term] [98]"
proof -
  obtain s where s: "optional_a = CharacterSetTerm s ZeroOrOne" using optional_a(3) by blast
  have len: "length (print_pattern True True [optional_a]) \<le> MAX_PATTERN_SIZE"
    by (simp only: s print_class_size)
  have us: "simplifySunkTerms True [optional_a, eol_term] = Some [optional_a, eol_term]"
    using eol_not_known by (simp add: simplifySunkTerms_def canonicalDotStar_eq Let_def s removeTrailingDotStarEnd_def removeIrrelevantTerms_def eol_term)
  have "\<not> list_ex matchesAtLeastOneCharacter [optional_a, eol_term]" by (simp add: s eol_term)
  then have "filters_parsePattern C \<lparr>is8Bit = True, characters = print_pattern True True [optional_a]\<rparr> True i f = Some (MatchesEverything, f)"
    using parse_printed [of "[optional_a]" True True "\<lparr>is8Bit = True, characters = print_pattern True True [optional_a]\<rparr>" C i f] optional_a(1) len us by simp
  moreover have "\<not> pattern_matches [optional_a, eol_term] [98]"
    by (auto simp: pattern_matches_def optional_a(2) conc_def)
  ultimately show ?thesis by blast
qed

end
